(* ===== verification/Rpc_Status.thy ===== *)
theory Rpc_Status
  imports Rust_Prelude
begin

text \<open>
  Status codes, statuses and errors: \<open>status.rs\<close> and \<open>error.rs\<close>, with the wire form
  \<open>RpcStatus\<close> and the \<open>Metadata\<close> type of \<open>wire.rs\<close> that they carry.
\<close>

subsection \<open>Metadata\<close>

type_synonym metadata = "(string \<times> bytes) list"

subsection \<open>Codes\<close>

datatype code =
    Ok | Cancelled | Unknown | InvalidArgument | DeadlineExceeded | NotFound | AlreadyExists
  | PermissionDenied | ResourceExhausted | FailedPrecondition | Aborted | OutOfRange
  | Unimplemented | Internal | Unavailable | DataLoss | Unauthenticated

fun as_u32 :: "code \<Rightarrow> u32" where
  "as_u32 Ok = 0"
| "as_u32 Cancelled = 1"
| "as_u32 Unknown = 2"
| "as_u32 InvalidArgument = 3"
| "as_u32 DeadlineExceeded = 4"
| "as_u32 NotFound = 5"
| "as_u32 AlreadyExists = 6"
| "as_u32 PermissionDenied = 7"
| "as_u32 ResourceExhausted = 8"
| "as_u32 FailedPrecondition = 9"
| "as_u32 Aborted = 10"
| "as_u32 OutOfRange = 11"
| "as_u32 Unimplemented = 12"
| "as_u32 Internal = 13"
| "as_u32 Unavailable = 14"
| "as_u32 DataLoss = 15"
| "as_u32 Unauthenticated = 16"

definition from_u32 :: "u32 \<Rightarrow> code" where
  "from_u32 c =
     (if c = 0 then Ok
      else if c = 1 then Cancelled
      else if c = 3 then InvalidArgument
      else if c = 4 then DeadlineExceeded
      else if c = 5 then NotFound
      else if c = 6 then AlreadyExists
      else if c = 7 then PermissionDenied
      else if c = 8 then ResourceExhausted
      else if c = 9 then FailedPrecondition
      else if c = 10 then Aborted
      else if c = 11 then OutOfRange
      else if c = 12 then Unimplemented
      else if c = 13 then Internal
      else if c = 14 then Unavailable
      else if c = 15 then DataLoss
      else if c = 16 then Unauthenticated
      else Unknown)"

lemma from_u32_as_u32 [simp]: "from_u32 (as_u32 c) = c"
  by (cases c) (simp_all add: from_u32_def)

lemma as_u32_from_u32: "as_u32 (from_u32 n) = (if n \<le> 16 then n else 2)"
proof (cases "n \<le> 16")
  case True
  have "list_all (\<lambda>k. as_u32 (from_u32 (of_nat k)) = of_nat k) [0..<17]"
    by code_simp
  moreover have "unat n \<in> set [0..<17]"
    using True by (simp add: word_le_nat_alt)
  ultimately have "as_u32 (from_u32 (of_nat (unat n))) = of_nat (unat n)"
    by (simp only: list_all_iff)
  then show ?thesis using True by simp
next
  case False
  then have "n \<noteq> 0" "n \<noteq> 1" "n \<noteq> 2" "n \<noteq> 3" "n \<noteq> 4" "n \<noteq> 5" "n \<noteq> 6" "n \<noteq> 7" "n \<noteq> 8"
    "n \<noteq> 9" "n \<noteq> 10" "n \<noteq> 11" "n \<noteq> 12" "n \<noteq> 13" "n \<noteq> 14" "n \<noteq> 15" "n \<noteq> 16"
    by auto
  then show ?thesis
    using False by (simp add: from_u32_def)
qed

subsection \<open>Statuses\<close>

lemma from_u32_unknown: "\<not> n \<le> 16 \<Longrightarrow> from_u32 n = Unknown"
  using as_u32_from_u32 [of n] from_u32_as_u32 [of "from_u32 n"] from_u32_as_u32 [of Unknown]
  by simp

record status =
  st_code :: code
  st_message :: string
  st_metadata :: metadata
  st_refused_stream_compression :: bool

definition status_new :: "code \<Rightarrow> string \<Rightarrow> status" where
  "status_new c message =
     \<lparr>st_code = c, st_message = message, st_metadata = [],
      st_refused_stream_compression = False\<rparr>"

definition status_ok :: status where
  "status_ok = status_new Ok ''''"

definition cancelled :: "string \<Rightarrow> status" where
  "cancelled = status_new Cancelled"

definition internal :: "string \<Rightarrow> status" where
  "internal = status_new Internal"

definition invalid_argument :: "string \<Rightarrow> status" where
  "invalid_argument = status_new InvalidArgument"

definition resource_exhausted :: "string \<Rightarrow> status" where
  "resource_exhausted = status_new ResourceExhausted"

definition unknown :: "string \<Rightarrow> status" where
  "unknown = status_new Unknown"

definition deadline_exceeded :: "string \<Rightarrow> status" where
  "deadline_exceeded = status_new DeadlineExceeded"

definition not_found :: "string \<Rightarrow> status" where
  "not_found = status_new NotFound"

definition already_exists :: "string \<Rightarrow> status" where
  "already_exists = status_new AlreadyExists"

definition permission_denied :: "string \<Rightarrow> status" where
  "permission_denied = status_new PermissionDenied"

definition aborted :: "string \<Rightarrow> status" where
  "aborted = status_new Aborted"

definition out_of_range :: "string \<Rightarrow> status" where
  "out_of_range = status_new OutOfRange"

definition unavailable :: "string \<Rightarrow> status" where
  "unavailable = status_new Unavailable"

definition failed_precondition :: "string \<Rightarrow> status" where
  "failed_precondition = status_new FailedPrecondition"

definition data_loss :: "string \<Rightarrow> status" where
  "data_loss = status_new DataLoss"

definition unauthenticated :: "string \<Rightarrow> status" where
  "unauthenticated = status_new Unauthenticated"

definition unimplemented :: "string \<Rightarrow> status" where
  "unimplemented = status_new Unimplemented"

definition refused_stream_compression :: status where
  "refused_stream_compression =
     (resource_exhausted '''')\<lparr>st_refused_stream_compression := True\<rparr>"

definition with_metadata :: "status \<Rightarrow> metadata \<Rightarrow> status" where
  "with_metadata s m = s\<lparr>st_metadata := m\<rparr>"

definition status_is_ok :: "status \<Rightarrow> bool" where
  "status_is_ok s \<longleftrightarrow> st_code s = Ok"

text \<open>The STATUS payload of \<open>wire.rs\<close> and the conversions of \<open>status.rs\<close>.\<close>

record rpc_status =
  rs_code :: u32
  rs_message :: string
  rs_metadata :: metadata
  rs_refused_stream_compression :: bool

definition rpc_status_from_status :: "status \<Rightarrow> rpc_status" where
  "rpc_status_from_status s =
     \<lparr>rs_code = as_u32 (st_code s), rs_message = st_message s, rs_metadata = st_metadata s,
      rs_refused_stream_compression = st_refused_stream_compression s\<rparr>"

definition status_from_rpc_status :: "rpc_status \<Rightarrow> status" where
  "status_from_rpc_status r =
     with_metadata (status_new (from_u32 (rs_code r)) (rs_message r)) (rs_metadata r)"

lemmas status_defs = status_new_def status_ok_def cancelled_def internal_def
  invalid_argument_def resource_exhausted_def
  unknown_def deadline_exceeded_def not_found_def already_exists_def permission_denied_def aborted_def
  out_of_range_def unavailable_def failed_precondition_def data_loss_def unauthenticated_def unimplemented_def

lemma st_code_simps [simp]:
  "st_code (status_new c m) = c"
  "st_code status_ok = Ok"
  "st_code (cancelled m) = Cancelled"
  "st_code (internal m) = Internal"
  "st_code (invalid_argument m) = InvalidArgument"
  "st_code (resource_exhausted m) = ResourceExhausted"
  "st_code (unknown m) = Unknown"
  "st_code (deadline_exceeded m) = DeadlineExceeded"
  "st_code (not_found m) = NotFound"
  "st_code (already_exists m) = AlreadyExists"
  "st_code (permission_denied m) = PermissionDenied"
  "st_code (aborted m) = Aborted"
  "st_code (out_of_range m) = OutOfRange"
  "st_code (unavailable m) = Unavailable"
  "st_code (failed_precondition m) = FailedPrecondition"
  "st_code (data_loss m) = DataLoss"
  "st_code (unauthenticated m) = Unauthenticated"
  "st_code (unimplemented m) = Unimplemented"
  "st_code refused_stream_compression = ResourceExhausted"
  by (simp_all add: status_defs refused_stream_compression_def)

subsection \<open>Errors\<close>

text \<open>
  \<open>Error::Transport\<close> boxes an error of the transport library; the one the runtime itself
  builds is the unexpected end of a stream. The errors of the protobuf library are opaque.
\<close>

datatype transport_error = UnexpectedEof | OtherTransport string

datatype error =
    EStatus status
  | EEncode string
  | EDecode string
  | FrameTooLarge nat nat
  | ETransport transport_error

type_synonym 'a result = "error + 'a"

text \<open>
  \<open>Error::status\<close>, with \<open>transport_error::classify\<close>, which inspects the error types of the
  QUIC library, as the parameter \<open>classify\<close>.
\<close>

fun error_status :: "(transport_error \<Rightarrow> status) \<Rightarrow> error \<Rightarrow> status" where
  "error_status classify (EStatus s) = s"
| "error_status classify (FrameTooLarge len limit) =
     resource_exhausted ''frame length {} exceeds maximum {}''"
| "error_status classify (ETransport e) = classify e"
| "error_status classify (EDecode e) =
     invalid_argument (''failed to decode protobuf message: '' @ e)"
| "error_status classify (EEncode e) = internal e"

definition into_status :: "(transport_error \<Rightarrow> status) \<Rightarrow> error \<Rightarrow> status" where
  "into_status classify e = (case e of EStatus s \<Rightarrow> s | other \<Rightarrow> error_status classify other)"

lemma into_status_eq [simp]: "into_status classify = error_status classify"
  by (rule ext, rename_tac e, case_tac e) (simp_all add: into_status_def)

fun transport_code :: "(transport_error \<Rightarrow> status) \<Rightarrow> error \<Rightarrow> code option" where
  "transport_code classify (ETransport e) = Some (st_code (classify e))"
| "transport_code classify _ = None"

text \<open>
  C25. A status survives the STATUS payload: converting it to the wire and back returns the code,
  the message and the metadata. The refusal of an optimistic stream is the one thing dropped: a
  decoded status never claims it, whatever the payload's flag, and a code outside 0 to 16 decodes
  as \<open>Unknown\<close>.
\<close>

theorem status_wire_roundtrip:
  "status_from_rpc_status (rpc_status_from_status s) = s\<lparr>st_refused_stream_compression := False\<rparr> \<and>
   st_code (status_from_rpc_status r) = (if rs_code r \<le> 16 then from_u32 (rs_code r) else Unknown) \<and>
   \<not> st_refused_stream_compression (status_from_rpc_status r)"
  by (simp_all add: status_from_rpc_status_def rpc_status_from_status_def with_metadata_def
      status_new_def from_u32_unknown)

end
