(* ===== verification/Varint.thy ===== *)
theory Varint
  imports Rpc_Status
begin

unbundle bit_operations_syntax

text \<open>
  QUIC variable-length integers, \<open>varint.rs\<close>: the two top bits of the first byte give the
  length of the encoding, the others the value in network byte order.
\<close>

subsection \<open>Encoding and decoding\<close>

definition VARINT_MAX :: u64 where
  "VARINT_MAX = 2 ^ 62 - 1"

definition MAX_LEN :: nat where
  "MAX_LEN = 8"

definition encoded_len :: "u64 \<Rightarrow> nat" where
  "encoded_len value =
     (if value < push_bit 6 1 then 1
      else if value < push_bit 14 1 then 2
      else if value < push_bit 30 1 then 4
      else MAX_LEN)"

definition len_from_first_byte :: "u8 \<Rightarrow> nat" where
  "len_from_first_byte first =
     (let k = drop_bit 6 first in
      if k = 0 then 1 else if k = 1 then 2 else if k = 2 then 4 else MAX_LEN)"

definition varint_overflow :: error where
  "varint_overflow = EStatus (internal ''varint exceeds 2^62 - 1'')"

text \<open>
  \<open>u8::try_from\<close>, \<open>u16::try_from\<close> and \<open>u32::try_from\<close> fail on a value that does not fit,
  which the source maps to the overflow error too.
\<close>

definition try_from_u64 :: "nat \<Rightarrow> u64 \<Rightarrow> ('a::len) word result" where
  "try_from_u64 width value =
     (if unat value < 2 ^ width then Inr (ucast value) else Inl varint_overflow)"

definition push :: "bytes \<Rightarrow> u64 \<Rightarrow> bytes result" where
  "push out value =
     (let n = encoded_len value in
      if n = 1 then
        and_then (try_from_u64 8 value) (\<lambda>v. Inr (out @ to_be_bytes 1 (v :: u8)))
      else if n = 2 then
        and_then (try_from_u64 16 value) (\<lambda>v. Inr (out @ to_be_bytes 2 ((v :: u16) OR 0x4000)))
      else if n = 4 then
        and_then (try_from_u64 32 value)
          (\<lambda>v. Inr (out @ to_be_bytes 4 ((v :: u32) OR 0x80000000)))
      else if value \<le> VARINT_MAX then Inr (out @ to_be_bytes 8 (value OR 0xC000000000000000))
      else Inl varint_overflow)"

definition decode :: "bytes \<Rightarrow> (u64 \<times> nat) option" where
  "decode buf =
     (case buf of
        [] \<Rightarrow> None
      | first # _ \<Rightarrow>
          let len = len_from_first_byte first in
          (case get_to buf len of
             None \<Rightarrow> None
           | Some bs \<Rightarrow>
               Some (foldl (\<lambda>value byte. push_bit 8 value OR ucast byte)
                       (ucast (first AND 0x3f)) (drop 1 bs), len)))"

subsection \<open>The numbers behind the words\<close>

lemma encoded_len_nat:
  "encoded_len v =
     (if unat v < 2 ^ 6 then 1 else if unat v < 2 ^ 14 then 2
      else if unat v < 2 ^ 30 then 4 else 8)"
  by (simp add: encoded_len_def MAX_LEN_def word_less_nat_alt push_bit_eq_mult)

lemma len_from_first_byte_nat:
  "len_from_first_byte b =
     (if unat b < 64 then 1 else if unat b < 128 then 2 else if unat b < 192 then 4 else 8)"
proof -
  have "unat (drop_bit 6 b) = unat b div 64"
    by (simp add: unat_drop_bit_div)
  then have "drop_bit 6 b = 0 \<longleftrightarrow> unat b < 64" "drop_bit 6 b = 1 \<longleftrightarrow> unat b div 64 = 1"
    "drop_bit 6 b = 2 \<longleftrightarrow> unat b div 64 = 2"
    by (simp_all add: word_unat_eq_iff div_eq_0_iff)
  moreover have "unat b div 64 = 1 \<longleftrightarrow> 64 \<le> unat b \<and> unat b < 128"
    "unat b div 64 = 2 \<longleftrightarrow> 128 \<le> unat b \<and> unat b < 192"
    by linarith+
  ultimately show ?thesis
    unfolding len_from_first_byte_def Let_def MAX_LEN_def by simp
qed

lemma unat_first_payload: "unat (ucast (b AND 0x3f) :: u64) = unat (b :: u8) mod 64"
proof -
  have "b AND 0x3f = take_bit 6 b"
    by (simp add: take_bit_eq_mask mask_eq_exp_minus_1 and.commute)
  then show ?thesis
    by (simp add: unsigned_ucast_eq unsigned_take_bit_eq take_bit_nat_eq_self
        less_trans [OF unat_byte_less] take_bit_eq_mod [of 6] unat_mod_distrib)
qed

lemma unat_shift_in:
  assumes "unat (v :: u64) < 2 ^ 56"
  shows "unat (push_bit 8 v OR ucast (b :: byte)) = 256 * unat v + unat b"
proof -
  have disj: "push_bit 8 v AND ucast b = 0"
    by (rule bit_word_eqI) (auto simp: bit_simps dest: bit_imp_le_length)
  have "unat (push_bit 8 v) = 256 * unat v"
    using assms by (simp add: unsigned_push_bit_eq push_bit_eq_mult [where 'a = nat]
        take_bit_nat_eq_self)
  moreover have "unat (ucast b :: u64) = unat b"
    by (simp add: unsigned_ucast_eq take_bit_nat_eq_self less_trans [OF unat_byte_less])
  moreover have "push_bit 8 v OR ucast b = push_bit 8 v + ucast b"
    using disj by (simp add: disjunctive_add_eq_or)
  moreover have "256 * unat v + unat b < 2 ^ 64"
  proof -
    have "unat v \<le> 72057594037927935"
      using assms by simp
    then have "256 * unat v + unat b < 18446744073709551616"
      using unat_byte_less [of b] by linarith
    then show ?thesis by simp
  qed
  ultimately show ?thesis
    by (simp add: unat_word_ariths)
qed

lemma unat_shift_in_fold:
  assumes "unat (v :: u64) < 2 ^ k" and "k + 8 * length bs \<le> 64"
  shows "unat (foldl (\<lambda>value byte. push_bit 8 value OR ucast byte) v bs)
           = foldl (\<lambda>n b. 256 * n + unat b) (unat v) (bs :: bytes)"
  using assms
proof (induction bs arbitrary: v k)
  case Nil
  then show ?case by simp
next
  case (Cons b bs)
  have "unat v < 2 ^ 56"
    using Cons.prems by (elim less_le_trans) (intro power_increasing, simp_all)
  then have step: "unat (push_bit 8 v OR ucast b) = 256 * unat v + unat b"
    by (rule unat_shift_in)
  have "unat b < 256" by simp
  then have "256 * unat v + unat b < 256 * Suc (unat v)" by simp
  also have "\<dots> \<le> 256 * 2 ^ k"
    using Cons.prems by (intro mult_le_mono2) simp
  finally have "unat (push_bit 8 v OR ucast b) < 2 ^ (k + 8)"
    by (simp add: step power_add)
  then show ?case
    using Cons.IH [of "push_bit 8 v OR ucast b" "k + 8"] Cons.prems by (simp add: step)
qed

lemma fold_be_digits:
  "foldl (\<lambda>n b. 256 * n + b) a (map (\<lambda>i. w div 256 ^ i mod 256) (rev [0..<k]))
     = a * 256 ^ k + w mod (256 ^ k :: nat)"
proof (induction k arbitrary: a)
  case 0
  then show ?case by simp
next
  case (Suc k)
  have "w mod (256 ^ k * 256) = 256 ^ k * (w div 256 ^ k mod 256) + w mod 256 ^ k"
    by (rule mod_mult2_eq)
  then show ?case
    using Suc [of "256 * a + w div 256 ^ k mod 256"] by (simp add: algebra_simps)
qed

lemma to_be_bytes_Suc:
  "to_be_bytes (Suc k) w = ucast (drop_bit (8 * k) w) # to_be_bytes k w"
  by (simp add: to_be_bytes_def)

lemma to_be_bytes_eval:
  "to_be_bytes 0 w = []"
  "to_be_bytes 1 w = [ucast w]"
  "to_be_bytes (Suc 0) w = [ucast w]"
  "to_be_bytes 2 w = [ucast (drop_bit 8 w), ucast w]"
  "to_be_bytes 4 w =
     [ucast (drop_bit 24 w), ucast (drop_bit 16 w), ucast (drop_bit 8 w), ucast w]"
  "to_be_bytes 8 w =
     [ucast (drop_bit 56 w), ucast (drop_bit 48 w), ucast (drop_bit 40 w), ucast (drop_bit 32 w),
      ucast (drop_bit 24 w), ucast (drop_bit 16 w), ucast (drop_bit 8 w), ucast w]"
  by (simp_all add: eval_nat_numeral(2,3) to_be_bytes_Suc, simp_all add: to_be_bytes_def)

lemma map_unat_to_be_bytes:
  "map unat (to_be_bytes k (w :: 'a::len word)) =
     map (\<lambda>i. unat w div 256 ^ i mod 256) (rev [0..<k])"
  by (simp add: to_be_bytes_def unat_of_be_byte power_mult)

text \<open>A word whose top byte announces its own length decodes to its low bits.\<close>

lemma decode_to_be_bytes:
  assumes "k < 8"
    and "len_from_first_byte (ucast (drop_bit (8 * k) (w :: 'a::len word))) = Suc k"
  shows "decode (to_be_bytes (Suc k) w @ rest) = Some (of_nat (unat w mod (64 * 256 ^ k)), Suc k)"
proof -
  define b where "b = (ucast (drop_bit (8 * k) w) :: byte)"
  define bs where "bs = to_be_bytes k w"
  define v where "v = foldl (\<lambda>value byte. push_bit 8 value OR ucast byte)
              (ucast (b AND 0x3f) :: u64) bs"
  have "unat (ucast (b AND 0x3f) :: u64) < 2 ^ 6"
    unfolding unat_first_payload by simp
  moreover have "6 + 8 * length bs \<le> 64"
    using assms(1) by (simp add: bs_def)
  ultimately have "unat v = foldl (\<lambda>n b. 256 * n + unat b) (unat b mod 64) bs"
    unfolding v_def unat_first_payload [symmetric] by (rule unat_shift_in_fold)
  also have "\<dots> = foldl (\<lambda>n b. 256 * n + b) (unat b mod 64) (map unat bs)"
    by (simp add: foldl_map)
  also have "\<dots> = unat w div 256 ^ k mod 256 mod 64 * 256 ^ k + unat w mod 256 ^ k"
    by (simp add: bs_def b_def map_unat_to_be_bytes fold_be_digits unat_of_be_byte power_mult)
  also have "\<dots> = unat w mod (64 * 256 ^ k)"
  proof -
    have "unat w div 256 ^ k mod 256 mod 64 = unat w div 256 ^ k mod 64"
      by (rule mod_mod_cancel) simp
    then show ?thesis
      using mod_mult2_eq [of "unat w" "256 ^ k" 64] by (simp add: mult.commute)
  qed
  finally have "of_nat (unat v) = (of_nat (unat w mod (64 * 256 ^ k)) :: u64)"
    by (rule arg_cong)
  then have v: "v = of_nat (unat w mod (64 * 256 ^ k))"
    by simp
  have "to_be_bytes (Suc k) w @ rest = b # bs @ rest" and "length bs = k"
    by (simp_all add: to_be_bytes_Suc b_def bs_def)
  moreover have "len_from_first_byte b = Suc k"
    using assms(2) by (simp add: b_def)
  ultimately show ?thesis
    unfolding decode_def v [symmetric] v_def by (simp add: get_to_def)
qed

subsection \<open>Properties\<close>

text \<open>
  What \<open>push\<close> writes: the value with its length tag in the two top bits. The tag makes the
  first byte announce the length, and never disturbs the value.
\<close>

lemma or_tag:
  fixes v t :: "'a::len word"
  assumes "unat v < 2 ^ n" and "t = push_bit n u"
  shows "unat (v OR t) = unat v + unat t"
proof -
  have v: "v = take_bit n v"
    using assms(1) by (simp add: word_unat_eq_iff unsigned_take_bit_eq take_bit_nat_eq_self)
  have "take_bit n v AND push_bit n u = 0"
    by (rule bit_word_eqI) (auto simp: bit_simps)
  then have "unat v AND unat t = 0"
    unfolding assms(2) by (simp flip: unsigned_and_eq v)
  then show ?thesis
    by (simp add: unsigned_or_eq disjunctive_add_eq_or)
qed

lemma push_cases:
  assumes "push out v = Inr out'"
  obtains (one) w :: u8 where "unat v < 2 ^ 6" "out' = out @ to_be_bytes 1 w" "unat w = unat v"
    | (two) w :: u16 where "2 ^ 6 \<le> unat v" "unat v < 2 ^ 14"
        "out' = out @ to_be_bytes 2 w" "unat w = unat v + 2 ^ 14"
    | (four) w :: u32 where "2 ^ 14 \<le> unat v" "unat v < 2 ^ 30"
        "out' = out @ to_be_bytes 4 w" "unat w = unat v + 2 ^ 31"
    | (eight) w :: u64 where "2 ^ 30 \<le> unat v" "unat v < 2 ^ 62"
        "out' = out @ to_be_bytes 8 w" "unat w = unat v + 3 * 2 ^ 62"
proof (cases "unat v < 2 ^ 6")
  case True
  then have "push out v = Inr (out @ to_be_bytes 1 (ucast v :: u8))"
    by (simp add: push_def encoded_len_nat try_from_u64_def)
  moreover have "unat (ucast v :: u8) = unat v"
    using True by (simp add: unat_ucast_byte)
  ultimately show ?thesis using one True assms by simp
next
  case False
  note ge6 = this
  show ?thesis
  proof (cases "unat v < 2 ^ 14")
    case True
    let ?w = "(ucast v :: u16) OR 0x4000"
    have "push out v = Inr (out @ to_be_bytes 2 ?w)"
      using ge6 True by (simp add: push_def encoded_len_nat try_from_u64_def)
    moreover have "unat (ucast v :: u16) = unat v"
      using True by (simp add: unsigned_ucast_eq take_bit_nat_eq_self)
    moreover have "unat ?w = unat (ucast v :: u16) + unat (0x4000 :: u16)"
      by (rule or_tag [of _ 14 _ 1]) (use True calculation in \<open>simp_all add: push_bit_eq_mult\<close>)
    ultimately show ?thesis using two ge6 True assms by simp
  next
    case False
    note ge14 = this
    show ?thesis
    proof (cases "unat v < 2 ^ 30")
      case True
      let ?w = "(ucast v :: u32) OR 0x80000000"
      have "push out v = Inr (out @ to_be_bytes 4 ?w)"
        using ge6 ge14 True by (simp add: push_def encoded_len_nat try_from_u64_def)
      moreover have "unat (ucast v :: u32) = unat v"
        using True by (simp add: unsigned_ucast_eq take_bit_nat_eq_self)
      moreover have "unat ?w = unat (ucast v :: u32) + unat (0x80000000 :: u32)"
        by (rule or_tag [of _ 30 _ 2]) (use True calculation in \<open>simp_all add: push_bit_eq_mult\<close>)
      ultimately show ?thesis using four ge14 True assms by simp
    next
      case False
      let ?w = "v OR 0xC000000000000000"
      have "v \<le> VARINT_MAX"
        using assms ge6 ge14 False by (simp add: push_def encoded_len_nat split: if_splits)
      then have less: "unat v < 2 ^ 62"
        by (simp add: VARINT_MAX_def word_le_nat_alt)
      have "push out v = Inr (out @ to_be_bytes 8 ?w)"
        using ge6 ge14 False \<open>v \<le> VARINT_MAX\<close> by (simp add: push_def encoded_len_nat)
      moreover have "unat ?w = unat v + unat (0xC000000000000000 :: u64)"
        by (rule or_tag [of _ 62 _ 3]) (use less in \<open>simp_all add: push_bit_eq_mult\<close>)
      ultimately show ?thesis using eight False less assms by simp
    qed
  qed
qed

lemma decode_tagged:
  assumes "k < 8" and "unat (w :: 'a::len word) = unat (v :: u64) + t * (64 * 256 ^ k)"
    and "unat v < 64 * 256 ^ k" and "t < 4"
    and "Suc k = (if t = 0 then 1 else if t = 1 then 2 else if t = 2 then 4 else 8)"
  shows "decode (to_be_bytes (Suc k) w @ rest) = Some (v, Suc k)"
proof -
  have "unat w div 256 ^ k = unat v div 256 ^ k + t * 64"
    unfolding assms(2) by (simp flip: mult.assoc)
  moreover have "unat v div 256 ^ k < 64"
    using assms(3) by (simp add: less_mult_imp_div_less)
  ultimately have "64 * t \<le> unat w div 256 ^ k" and "unat w div 256 ^ k < 64 * t + 64"
    by simp_all
  then have "unat w div 256 ^ k mod 256 = unat w div 256 ^ k"
    using assms(4) by simp
  then have "len_from_first_byte (ucast (drop_bit (8 * k) w)) = Suc k"
    using \<open>64 * t \<le> _\<close> \<open>_ < 64 * t + 64\<close> assms(4,5)
    by (auto simp: len_from_first_byte_nat unat_of_be_byte power_mult split: if_splits)
  moreover have "unat w mod (64 * 256 ^ k) = unat v"
    using assms(3) by (simp add: assms(2))
  ultimately show ?thesis
    using decode_to_be_bytes [OF assms(1), of w rest] by simp
qed

lemma push_decode:
  assumes "push out v = Inr out'"
  shows "\<exists>bs. out' = out @ bs \<and> length bs = encoded_len v \<and>
           (\<forall>rest. decode (bs @ rest) = Some (v, encoded_len v))"
  using assms
proof (cases rule: push_cases)
  case (one w)
  then have "decode (to_be_bytes (Suc 0) w @ rest) = Some (v, Suc 0)" for rest
    by (intro decode_tagged [where t = 0]) simp_all
  with one show ?thesis
    by (intro exI [of _ "to_be_bytes 1 w"]) (simp add: encoded_len_nat)
next
  case (two w)
  then have "decode (to_be_bytes (Suc 1) w @ rest) = Some (v, Suc 1)" for rest
    by (intro decode_tagged [where t = 1]) simp_all
  with two show ?thesis
    by (intro exI [of _ "to_be_bytes 2 w"]) (simp add: encoded_len_nat numeral_2_eq_2)
next
  case (four w)
  then have "decode (to_be_bytes (Suc 3) w @ rest) = Some (v, Suc 3)" for rest
    by (intro decode_tagged [where t = 2]) simp_all
  with four show ?thesis
    by (intro exI [of _ "to_be_bytes 4 w"]) (simp add: encoded_len_nat)
next
  case (eight w)
  then have "decode (to_be_bytes (Suc 7) w @ rest) = Some (v, Suc 7)" for rest
    by (intro decode_tagged [where t = 3]) simp_all
  with eight show ?thesis
    by (intro exI [of _ "to_be_bytes 8 w"]) (simp add: encoded_len_nat)
qed

lemma push_ok_iff: "is_ok (push out v) \<longleftrightarrow> v \<le> VARINT_MAX"
proof -
  have "unat v < 2 ^ 30 \<Longrightarrow> v \<le> VARINT_MAX"
    by (simp add: VARINT_MAX_def word_le_nat_alt)
  then show ?thesis
    by (auto simp: push_def encoded_len_nat try_from_u64_def Let_def)
qed

lemma decode_Some_length:
  assumes "decode buf = Some (v, n)"
  shows "0 < n" "n \<le> 8" "n \<le> length buf"
    and "n = len_from_first_byte (hd buf)"
    and "decode (take n buf @ rest) = Some (v, n)"
proof -
  from assms obtain b bs where b: "buf = b # bs" "n = len_from_first_byte b" "n \<le> length buf"
    by (auto simp: decode_def slice_defs Let_def split: list.splits if_splits)
  then show n: "0 < n" "n \<le> 8" "n \<le> length buf" "n = len_from_first_byte (hd buf)"
    by (simp_all add: len_from_first_byte_nat)
  obtain k where k: "n = Suc k"
    using gr0_implies_Suc [OF n(1)] by blast
  then show "decode (take n buf @ rest) = Some (v, n)"
    using assms b n by (simp add: decode_def slice_defs Let_def)
qed

lemma decode_prefix_None:
  assumes "decode buf = Some (v, n)" and "m < n"
  shows "decode (take m buf) = None"
proof (cases m)
  case 0
  then show ?thesis by (simp add: decode_def)
next
  case (Suc k)
  obtain b bs where "buf = b # bs" "n = len_from_first_byte b"
    using decode_Some_length(3,4) [OF assms(1)] decode_Some_length(1) [OF assms(1)]
    by (cases buf) auto
  then show ?thesis
    using Suc assms(2) by (simp add: decode_def get_to_def Let_def)
qed

lemma fold_be_less:
  "a < m \<Longrightarrow> foldl (\<lambda>n b. 256 * n + unat b) a (bs :: bytes) < m * 256 ^ length bs"
proof (induction bs arbitrary: a m)
  case Nil
  then show ?case by simp
next
  case (Cons b bs)
  have "256 * a + unat b < 256 * m"
    using Cons.prems unat_byte_less [of b] by linarith
  then show ?case
    using Cons.IH [of "256 * a + unat b" "256 * m"] by (simp add: mult.commute mult.left_commute)
qed

lemma fold_be_mod:
  "foldl (\<lambda>n b. 256 * n + unat b) (a mod m) (bs :: bytes)
     = foldl (\<lambda>n b. 256 * n + unat b) a bs mod (m * 256 ^ length bs)"
proof (induction bs rule: rev_induct)
  case Nil
  then show ?case by simp
next
  case (snoc b bs)
  let ?f = "foldl (\<lambda>n b. 256 * n + unat b) a bs" and ?m = "m * 256 ^ length bs"
  have "256 * (?f mod ?m) + unat b = (256 * ?f + unat b) mod (256 * ?m)"
    using mod_mult2_eq [of "256 * ?f + unat b" 256 ?m] unat_byte_less [of b] by simp
  then show ?case
    using snoc by (simp add: mult.left_commute)
qed

lemma first_byte_tag: "len_from_first_byte b = 2 ^ (unat b div 64)"
proof -
  have "unat b div 64 =
      (if unat b < 64 then 0 else if unat b < 128 then 1 else if unat b < 192 then 2 else 3)"
    using unat_byte_less [of b] by (simp; linarith)
  then show ?thesis
    by (simp add: len_from_first_byte_nat)
qed

lemma decode_number:
  assumes "decode buf = Some (v, n)"
  shows "unat v = foldl (\<lambda>n b. 256 * n + unat b) 0 (take n buf) mod (64 * 256 ^ (n - 1))"
proof -
  obtain b bs where buf: "buf = b # bs" "n = len_from_first_byte b" "n \<le> length buf"
    using decode_Some_length(3,4) [OF assms] decode_Some_length(1) [OF assms] by (cases buf) auto
  have n: "0 < n" "n \<le> 8"
    by (rule decode_Some_length [OF assms])+
  define ds where "ds = take (n - 1) bs"
  have len: "length ds = n - 1" and take: "take n buf = b # ds"
    using buf n by (cases n; simp add: ds_def)+
  have v: "v = foldl (\<lambda>value byte. push_bit 8 value OR ucast byte) (ucast (b AND 0x3f)) ds"
    using assms buf take by (auto simp: decode_def get_to_def Let_def)
  have "unat v = foldl (\<lambda>n b. 256 * n + unat b) (unat (ucast (b AND 0x3f) :: u64)) ds"
    unfolding v by (rule unat_shift_in_fold [where k = 6]) (use len n in
      \<open>simp_all add: unat_first_payload\<close>)
  also have "\<dots> = foldl (\<lambda>n b. 256 * n + unat b) (unat b) ds mod (64 * 256 ^ length ds)"
    unfolding unat_first_payload by (rule fold_be_mod)
  finally show ?thesis
    by (simp add: len take)
qed

lemma decode_total:
  assumes "buf \<noteq> []" and "len_from_first_byte (hd buf) \<le> length buf"
  shows "\<exists>v. decode buf = Some (v, len_from_first_byte (hd buf))"
  using assms by (cases buf) (auto simp: decode_def get_to_def Let_def)

lemmas push_eval = push_def encoded_len_def try_from_u64_def to_be_bytes_eval Let_def
lemmas decode_eval = decode_def len_from_first_byte_def get_to_def Let_def MAX_LEN_def

text \<open>
  C26. Encoding and decoding of variable-length integers are inverse: what \<open>push\<close> appends is
  \<open>encoded_len\<close> bytes long, decodes to the value whatever follows it, and no proper prefix of
  it decodes, so a reader never stops early.
\<close>

theorem varint_roundtrip:
  assumes "push out v = Inr out'"
  shows "\<exists>bs. out' = out @ bs \<and> length bs = encoded_len v \<and>
           (\<forall>rest. decode (bs @ rest) = Some (v, length bs)) \<and>
           (\<forall>m < length bs. decode (take m bs) = None)"
proof -
  obtain bs where bs: "out' = out @ bs" "length bs = encoded_len v"
      "\<forall>rest. decode (bs @ rest) = Some (v, encoded_len v)"
    using push_decode [OF assms] by blast
  then have "decode bs = Some (v, length bs)"
    by (metis append_Nil2)
  then show ?thesis
    using bs decode_prefix_None [of bs] by (intro exI [of _ bs]) auto
qed

theorem varint_roundtrip_witness:
  "push [7] 15293 = Inr [7, 0x7b, 0xbd] \<and>
   (\<exists>bs. [7, 0x7b, 0xbd] = [7] @ bs \<and> length bs = encoded_len 15293 \<and>
      (\<forall>rest. decode (bs @ rest) = Some (15293, length bs)) \<and>
      (\<forall>m < length bs. decode (take m bs) = None))"
proof -
  have h: "push [7] 15293 = Inr [7, 0x7b, 0xbd]"
    by (simp add: push_eval)
  show ?thesis using h varint_roundtrip [OF h] by simp
qed

text \<open>
  C27. What \<open>decode\<close> accepts and what it returns, in numbers: the two top bits \<open>t\<close> of the
  first byte announce \<open>2^t\<close> bytes, decoding succeeds exactly when that many are there, and the
  value is the big-endian number they spell with those two bits taken off. It is within
  \<open>2^62 - 1\<close>, so re-encodable, and its minimal encoding is no longer than the bytes taken.
\<close>

theorem varint_decode_sound:
  "(decode buf = Some (v, n) \<longleftrightarrow>
      buf \<noteq> [] \<and> n = 2 ^ (unat (hd buf) div 64) \<and> n \<le> length buf \<and>
      unat v = foldl (\<lambda>a b. 256 * a + unat b) 0 (take n buf) mod 2 ^ (8 * n - 2)) \<and>
   (decode buf = Some (v, n) \<longrightarrow>
      v \<le> VARINT_MAX \<and> is_ok (push out v) \<and> encoded_len v \<le> n \<and> n \<in> {1, 2, 4, 8})"
  (is "(_ \<longleftrightarrow> ?spec v) \<and> (_ \<longrightarrow> ?bounds)")
proof
  have spec: "?spec w" if dec: "decode buf = Some (w, n)" for w
  proof -
    have n: "n = 2 ^ (unat (hd buf) div 64)" "0 < n" "n \<le> length buf"
      using decode_Some_length [OF dec] by (simp_all add: first_byte_tag)
    have "(64 :: nat) * 256 ^ (n - 1) = 2 ^ (8 * n - 2)"
      using n(2) by (cases n) (simp_all add: power_mult power_add)
    then show ?thesis
      using n decode_number [OF dec] by auto
  qed
  show "decode buf = Some (v, n) \<longleftrightarrow> ?spec v"
  proof
    assume s: "?spec v"
    then obtain w where w: "decode buf = Some (w, n)"
      using decode_total [of buf] by (auto simp: first_byte_tag)
    then have "unat w = unat v"
      using s spec [OF w] by simp
    then show "decode buf = Some (v, n)"
      using w by (simp add: word_unat_eq_iff)
  qed (rule spec)
  show "decode buf = Some (v, n) \<longrightarrow> ?bounds"
  proof
    assume dec: "decode buf = Some (v, n)"
    have n: "n \<in> {1, 2, 4, 8}"
      using decode_Some_length(4) [OF dec] by (simp add: len_from_first_byte_nat)
    have less: "unat v < 64 * 256 ^ (n - 1)"
      unfolding decode_number [OF dec] by simp
    then have "v \<le> VARINT_MAX"
      using n by (auto simp: VARINT_MAX_def word_le_nat_alt)
    then show ?bounds
      using n less by (auto simp: encoded_len_nat push_ok_iff)
  qed
qed

theorem varint_decode_sound_witness:
  "decode [0x40, 0x25, 9] = Some (37, 2) \<and>
   (2::nat) = 2 ^ (unat (0x40 :: byte) div 64) \<and>
   37 \<le> VARINT_MAX \<and> is_ok (push [] 37) \<and> encoded_len 37 \<le> 2"
proof -
  have h: "decode [0x40, 0x25, 9] = Some (37, 2)"
    by (simp add: decode_eval)
  show ?thesis
    using h varint_decode_sound [of "[0x40, 0x25, 9]" 37 2 "[]"] by simp
qed

end
