(* ===== verification/Wire.thy ===== *)
theory Wire
  imports Rpc_Status
begin

text \<open>
  The payloads of the wire format and their validation, \<open>wire.rs\<close>: metadata limits, method
  paths, the REQUEST, HEADERS, ANSWER and STATUS payloads and the kinds of a call. The payloads
  are records of the fields that \<open>prost\<close> encodes; the encoding itself is \<open>prost\<close>'s.
\<close>

subsection \<open>Kinds and payloads\<close>

datatype rpc_kind = Unary | ClientStreaming | ServerStreaming | BidirectionalStreaming

definition rpc_kind_try_from :: "int \<Rightarrow> rpc_kind option" where
  "rpc_kind_try_from i =
     (if i = 0 then Some Unary else if i = 1 then Some ClientStreaming
      else if i = 2 then Some ServerStreaming else if i = 3 then Some BidirectionalStreaming
      else None)"

fun i32_from_rpc_kind :: "rpc_kind \<Rightarrow> int" where
  "i32_from_rpc_kind Unary = 0"
| "i32_from_rpc_kind ClientStreaming = 1"
| "i32_from_rpc_kind ServerStreaming = 2"
| "i32_from_rpc_kind BidirectionalStreaming = 3"

datatype stream_compression = SC_None | SC_Enabled | SC_Optimistic

definition stream_compression_try_from :: "int \<Rightarrow> stream_compression option" where
  "stream_compression_try_from i =
     (if i = 0 then Some SC_None else if i = 1 then Some SC_Enabled
      else if i = 2 then Some SC_Optimistic else None)"

fun i32_from_stream_compression :: "stream_compression \<Rightarrow> int" where
  "i32_from_stream_compression SC_None = 0"
| "i32_from_stream_compression SC_Enabled = 1"
| "i32_from_stream_compression SC_Optimistic = 2"

record dictionary_info =
  di_id :: u32
  di_fingerprint :: bytes

record connection_metadata =
  cm_id :: u32
  cm_metadata :: metadata

record rpc_request =
  rq_method :: string
  rq_metadata :: metadata
  rq_kind :: int
  rq_timeout_nanos :: u64
  rq_datagram_flow :: u64
  rq_accept_dictionaries :: "u32 list"
  rq_dictionary_query :: "dictionary_info list"
  rq_stream_compression :: int
  rq_connection_metadata :: "connection_metadata option"

record rpc_headers =
  hd_metadata :: metadata

record rpc_answer =
  an_dictionaries :: "dictionary_info list"
  an_stream_compression :: bool
  an_connection_metadata :: u32

definition rpc_request_new :: "string \<Rightarrow> rpc_request" where
  "rpc_request_new method =
     \<lparr>rq_method = method, rq_metadata = [], rq_kind = i32_from_rpc_kind Unary,
      rq_timeout_nanos = 0, rq_datagram_flow = 0, rq_accept_dictionaries = [],
      rq_dictionary_query = [], rq_stream_compression = i32_from_stream_compression SC_None,
      rq_connection_metadata = None\<rparr>"

definition request_rpc_kind :: "rpc_request \<Rightarrow> rpc_kind" where
  "request_rpc_kind r = (case rpc_kind_try_from (rq_kind r) of None \<Rightarrow> Unary | Some k \<Rightarrow> k)"

definition with_kind :: "rpc_request \<Rightarrow> rpc_kind \<Rightarrow> rpc_request" where
  "with_kind r k = r\<lparr>rq_kind := i32_from_rpc_kind k\<rparr>"

definition with_timeout_nanos :: "rpc_request \<Rightarrow> u64 \<Rightarrow> rpc_request" where
  "with_timeout_nanos r timeout_nanos = r\<lparr>rq_timeout_nanos := timeout_nanos\<rparr>"

definition with_datagram_flow :: "rpc_request \<Rightarrow> u64 \<Rightarrow> rpc_request" where
  "with_datagram_flow r datagram_flow = r\<lparr>rq_datagram_flow := datagram_flow\<rparr>"

definition request_with_metadata :: "rpc_request \<Rightarrow> metadata \<Rightarrow> rpc_request" where
  "request_with_metadata r m = r\<lparr>rq_metadata := m\<rparr>"

text \<open>The accessor and setter that \<open>prost\<close> derives for the enumeration field, defaulting to
  the first variant.\<close>

definition request_stream_compression :: "rpc_request \<Rightarrow> stream_compression" where
  "request_stream_compression r =
     (case stream_compression_try_from (rq_stream_compression r) of None \<Rightarrow> SC_None | Some c \<Rightarrow> c)"

definition set_stream_compression :: "stream_compression \<Rightarrow> rpc_request \<Rightarrow> rpc_request" where
  "set_stream_compression c r = r\<lparr>rq_stream_compression := i32_from_stream_compression c\<rparr>"

definition has_single_request_message :: "rpc_kind \<Rightarrow> bool" where
  "has_single_request_message k \<longleftrightarrow> k = Unary \<or> k = ServerStreaming"

definition streams_requests :: "rpc_kind \<Rightarrow> bool" where
  "streams_requests k \<longleftrightarrow> k = ClientStreaming \<or> k = BidirectionalStreaming"

definition streams_responses :: "rpc_kind \<Rightarrow> bool" where
  "streams_responses k \<longleftrightarrow> k = ServerStreaming \<or> k = BidirectionalStreaming"

lemma rpc_kind_roundtrip [simp]: "rpc_kind_try_from (i32_from_rpc_kind k) = Some k"
  by (cases k) (simp_all add: rpc_kind_try_from_def)

lemma stream_compression_roundtrip [simp]:
  "stream_compression_try_from (i32_from_stream_compression c) = Some c"
  by (cases c) (simp_all add: stream_compression_try_from_def)

lemma request_set_stream_compression [simp]:
  "request_stream_compression (set_stream_compression c r) = c"
  by (simp add: request_stream_compression_def set_stream_compression_def)

lemma request_input_partition:
  "has_single_request_message k \<longleftrightarrow> \<not> streams_requests k"
  by (cases k) (simp_all add: has_single_request_message_def streams_requests_def)

subsection \<open>Metadata\<close>

definition MAX_METADATA_ENTRIES :: nat where
  "MAX_METADATA_ENTRIES = 64"

definition MAX_METADATA_KEY_LEN :: nat where
  "MAX_METADATA_KEY_LEN = 128"

definition MAX_METADATA_VALUE_LEN :: nat where
  "MAX_METADATA_VALUE_LEN = 8 * 1024"

definition MAX_METADATA_TOTAL_SIZE :: nat where
  "MAX_METADATA_TOTAL_SIZE = 64 * 1024"

definition RESERVED_METADATA_PREFIX :: string where
  "RESERVED_METADATA_PREFIX = ''trevrpc-''"

lemmas metadata_limits = MAX_METADATA_ENTRIES_def MAX_METADATA_KEY_LEN_def
  MAX_METADATA_VALUE_LEN_def MAX_METADATA_TOTAL_SIZE_def

text \<open>\<open>str::to_ascii_lowercase\<close> moves the bytes \<open>A\<close> to \<open>Z\<close> only.\<close>

definition to_ascii_lowercase :: "char \<Rightarrow> char" where
  "to_ascii_lowercase c =
     (let b = (of_char c :: nat) in if 65 \<le> b \<and> b \<le> 90 then char_of (b + 32) else c)"

definition normalize_metadata_key :: "string \<Rightarrow> string" where
  "normalize_metadata_key key = map to_ascii_lowercase key"

definition is_metadata_key_byte :: "char \<Rightarrow> bool" where
  "is_metadata_key_byte c \<longleftrightarrow>
     (let b = (of_char c :: nat) in
      (97 \<le> b \<and> b \<le> 122) \<or> (48 \<le> b \<and> b \<le> 57) \<or> b = 46 \<or> b = 95 \<or> b = 45)"

definition validate_metadata_key :: "string \<Rightarrow> status + unit" where
  "validate_metadata_key key =
     (if key = [] then Inl (invalid_argument ''metadata key is empty'')
      else if length key > MAX_METADATA_KEY_LEN then
        Inl (invalid_argument ''metadata key {} is {} bytes, maximum is {}'')
      else if starts_with key RESERVED_METADATA_PREFIX then
        Inl (invalid_argument ''metadata key {} uses reserved prefix {}'')
      else if \<not> list_all is_metadata_key_byte key then
        Inl (invalid_argument ''metadata key {} must use lowercase ASCII letters, digits, . _ or -'')
      else Inr ())"

fun validate_entries :: "usize \<Rightarrow> metadata \<Rightarrow> status + usize" where
  "validate_entries total_size [] = Inr total_size"
| "validate_entries total_size ((key, value) # m) =
     and_then (validate_metadata_key key) (\<lambda>_.
       if length value > MAX_METADATA_VALUE_LEN then
         Inl (invalid_argument ''metadata value {} is {} bytes, maximum is {}'')
       else validate_entries
              (saturating_add (saturating_add total_size (length key)) (length value)) m)"

definition validate_metadata :: "metadata \<Rightarrow> status + unit" where
  "validate_metadata m =
     (if length m > MAX_METADATA_ENTRIES then
        Inl (invalid_argument ''metadata has {} entries, maximum is {}'')
      else
        and_then (validate_entries 0 m) (\<lambda>total_size.
          if total_size > MAX_METADATA_TOTAL_SIZE then
            Inl (invalid_argument ''metadata is {} bytes, maximum is {}'')
          else Inr ()))"

subsection \<open>Method paths\<close>

text \<open>\<open>str::split_once\<close> at the first occurrence of a character.\<close>

fun split_once :: "char \<Rightarrow> string \<Rightarrow> (string \<times> string) option" where
  "split_once d [] = None"
| "split_once d (c # s) =
     (if c = d then Some ([], s)
      else (case split_once d s of None \<Rightarrow> None | Some (a, b) \<Rightarrow> Some (c # a, b)))"

definition strip_prefix :: "char \<Rightarrow> string \<Rightarrow> string option" where
  "strip_prefix d s = (case s of [] \<Rightarrow> None | c # r \<Rightarrow> if c = d then Some r else None)"

definition split_method_path :: "string \<Rightarrow> (string \<times> string) option" where
  "split_method_path path =
     Option.bind (strip_prefix (CHR ''/'') path) (\<lambda>r.
     Option.bind (split_once (CHR ''/'') r) (\<lambda>(service, method).
       if service \<noteq> [] \<and> method \<noteq> [] \<and> CHR ''/'' \<notin> set method
       then Some (service, method) else None))"

definition validate_method_path :: "string \<Rightarrow> status + unit" where
  "validate_method_path path =
     (if split_method_path path \<noteq> None then Inr ()
      else Inl (invalid_argument ''method {} is not of the form /<service>/<method>''))"

definition validate_protocol :: "rpc_request \<Rightarrow> status + unit" where
  "validate_protocol r =
     and_then (validate_method_path (rq_method r)) (\<lambda>_.
       if rpc_kind_try_from (rq_kind r) = None then
         Inl (invalid_argument ''unsupported TrevRPC RPC kind {}'')
       else if stream_compression_try_from (rq_stream_compression r) = None then
         Inl (invalid_argument ''unsupported TrevRPC stream compression {}'')
       else Inr ())"

subsection \<open>Properties\<close>

definition valid_key :: "string \<Rightarrow> bool" where
  "valid_key key \<longleftrightarrow> key \<noteq> [] \<and> length key \<le> 128 \<and> \<not> starts_with key ''trevrpc-'' \<and>
     list_all is_metadata_key_byte key"

definition metadata_size :: "metadata \<Rightarrow> nat" where
  "metadata_size m = sum_list (map (\<lambda>(key, value). length key + length value) m)"

lemma metadata_size_simps [simp]:
  "metadata_size [] = 0"
  "metadata_size ((k, v) # m) = length k + length v + metadata_size m"
  by (simp_all add: metadata_size_def)

lemma validate_metadata_key_iff: "validate_metadata_key key = Inr () \<longleftrightarrow> valid_key key"
  by (auto simp: validate_metadata_key_def valid_key_def metadata_limits
      RESERVED_METADATA_PREFIX_def)

lemma validate_entries_iff:
  assumes "n + length m * 8320 \<le> USIZE_MAX"
  shows "validate_entries n m = Inr t \<longleftrightarrow>
           (\<forall>(k, v) \<in> set m. valid_key k \<and> length v \<le> 8192) \<and> t = n + metadata_size m"
  using assms
proof (induction m arbitrary: n)
  case Nil
  then show ?case by auto
next
  case (Cons e m)
  obtain k v where e: "e = (k, v)" by force
  show ?case
  proof (cases "valid_key k \<and> length v \<le> 8192")
    case True
    then have "n + length k + length v + length m * 8320 \<le> USIZE_MAX"
      using Cons.prems by (auto simp: valid_key_def)
    moreover from this have
      "saturating_add (saturating_add n (length k)) (length v) = n + length k + length v"
      by (simp add: saturating_add_exact)
    ultimately show ?thesis
      using Cons.IH [of "n + length k + length v"] True
      by (auto simp: e MAX_METADATA_VALUE_LEN_def validate_metadata_key_iff and_then_Inr_iff)
  next
    case False
    then show ?thesis
      by (auto simp: e MAX_METADATA_VALUE_LEN_def validate_metadata_key_iff and_then_Inr_iff)
  qed
qed

lemma validate_entries_code: "validate_entries t m = Inl e \<Longrightarrow> st_code e = InvalidArgument"
proof (induction t m rule: validate_entries.induct)
  case (1 t)
  then show ?case by simp
next
  case (2 t k v m)
  show ?case
  proof (cases "validate_metadata_key k")
    case (Inl d)
    then have "st_code d = InvalidArgument"
      by (auto simp: validate_metadata_key_def split: if_splits)
    then show ?thesis using Inl "2.prems" by auto
  next
    case (Inr u)
    then show ?thesis using "2.prems" "2.IH" by (auto split: if_splits)
  qed
qed

lemma validate_metadata_ok_iff:
  "validate_metadata m = Inr () \<longleftrightarrow>
     length m \<le> 64 \<and> (\<forall>(k, v) \<in> set m. valid_key k \<and> length v \<le> 8192) \<and>
     metadata_size m \<le> 65536"
proof (cases "length m \<le> 64")
  case True
  then have "0 + length m * 8320 \<le> USIZE_MAX"
    by (simp add: USIZE_MAX_def)
  from validate_entries_iff [OF this] True show ?thesis
    by (auto simp: validate_metadata_def metadata_limits and_then_Inr_iff split: if_splits)
next
  case False
  then show ?thesis by (simp add: validate_metadata_def metadata_limits)
qed

text \<open>
  C28. \<open>validate_metadata\<close> accepts exactly the metadata within the documented limits: at most 64
  entries, lowercase keys of 1 to 128 bytes outside the reserved prefix, values of at most 8 KiB
  and 64 KiB in all. The saturating sum never loses a byte, the verdict does not depend on the
  order in which the entries are visited, and a refusal is always \<open>InvalidArgument\<close>.
\<close>

theorem validate_metadata_exact:
  "(validate_metadata m = Inr () \<longleftrightarrow>
      length m \<le> 64 \<and> (\<forall>(k, v) \<in> set m. valid_key k \<and> length v \<le> 8192) \<and>
      metadata_size m \<le> 65536) \<and>
   (mset m = mset m' \<longrightarrow> is_ok (validate_metadata m) = is_ok (validate_metadata m')) \<and>
   (\<forall>e. validate_metadata m = Inl e \<longrightarrow> st_code e = InvalidArgument)"
proof (intro conjI impI allI)
  assume perm: "mset m = mset m'"
  then have "set m = set m'" "length m = length m'"
    using mset_eq_setD mset_eq_length by blast+
  moreover have "metadata_size x =
      sum_mset (image_mset (\<lambda>(key, value). length key + length value) (mset x))" for x
    by (simp add: metadata_size_def flip: sum_mset_sum_list)
  then have "metadata_size m = metadata_size m'"
    by (simp add: perm)
  ultimately show "is_ok (validate_metadata m) = is_ok (validate_metadata m')"
    by (simp add: is_ok_iff validate_metadata_ok_iff)
next
  fix e assume "validate_metadata m = Inl e"
  then show "st_code e = InvalidArgument"
    by (auto simp: validate_metadata_def and_then_Inl_iff dest: validate_entries_code
        split: if_splits)
qed (rule validate_metadata_ok_iff)

lemma example_keys_valid: "valid_key ''authorization''" "valid_key ''x''"
  by code_simp+

theorem validate_metadata_exact_witness:
  "validate_metadata [(''authorization'', [1, 2]), (''x'', [])] = Inr () \<and>
   is_ok (validate_metadata [(''x'', []), (''authorization'', [1, 2])]) \<and>
   (\<exists>e. validate_metadata (replicate 65 (''x'', [])) = Inl e \<and> st_code e = InvalidArgument)"
proof -
  let ?m = "[(''authorization'', [1, 2 :: byte]), (''x'', [])]"
  let ?m' = "[(''x'', []), (''authorization'', [1, 2 :: byte])]"
  have "validate_metadata ?m = Inr ()"
    using validate_metadata_exact [of ?m ?m] by (simp add: example_keys_valid)
  moreover have "is_ok (validate_metadata ?m) = is_ok (validate_metadata ?m')"
    using validate_metadata_exact [of ?m ?m'] by simp
  moreover have "validate_metadata (replicate 65 (''x'', [])) \<noteq> Inr ()"
    using validate_metadata_exact [of "replicate 65 (''x'', [])" "[]"] by simp
  then obtain e where "validate_metadata (replicate 65 (''x'', [])) = Inl e"
    by (cases "validate_metadata (replicate 65 (''x'', []))") auto
  moreover from this have "st_code e = InvalidArgument"
    using validate_metadata_exact [of "replicate 65 (''x'', [])" "[]"] by blast
  ultimately show ?thesis by simp
qed

lemma split_once_iff:
  "split_once d s = Some (a, b) \<longleftrightarrow> s = a @ d # b \<and> d \<notin> set a"
proof (induction s arbitrary: a)
  case Nil
  then show ?case by simp
next
  case (Cons c s)
  note IH = Cons.IH
  show ?case
  proof (cases a)
    case Nil
    then show ?thesis by (auto split: option.splits)
  next
    case (Cons x a')
    then show ?thesis
      using IH [of a'] by (auto split: option.splits)
  qed
qed

text \<open>
  A method path is accepted exactly when it is a slash, a non-empty service, a slash and a
  non-empty method, with no further slash, and the split is the inverse of joining the two.
\<close>

theorem split_method_path_exact:
  "split_method_path path = Some (service, method) \<longleftrightarrow>
     path = ''/'' @ service @ ''/'' @ method \<and> service \<noteq> [] \<and> method \<noteq> [] \<and>
     CHR ''/'' \<notin> set service \<and> CHR ''/'' \<notin> set method"
  by (cases path) (auto simp: split_method_path_def strip_prefix_def split_once_iff
      bind_eq_Some_conv)

lemma normalize_valid_key: "valid_key key \<Longrightarrow> normalize_metadata_key key = key"
  by (auto simp: valid_key_def normalize_metadata_key_def is_metadata_key_byte_def
      to_ascii_lowercase_def list_all_iff Let_def intro!: map_idI)

lemma validate_protocol_ok_iff:
  "validate_protocol r = Inr () \<longleftrightarrow>
     (\<exists>s m. split_method_path (rq_method r) = Some (s, m)) \<and>
     0 \<le> rq_kind r \<and> rq_kind r \<le> 3 \<and> 0 \<le> rq_stream_compression r \<and> rq_stream_compression r \<le> 2"
  by (auto simp: validate_protocol_def validate_method_path_def and_then_Inr_iff
      rpc_kind_try_from_def stream_compression_try_from_def split: if_splits)

end
