(* ===== verification/Framing.thy ===== *)
theory Framing
  imports Varint Wire
begin

unbundle bit_operations_syntax

text \<open>
  Frames, \<open>framing.rs\<close>: a variable-length type, a variable-length payload length and the
  payload, and the preflight that checks the protobuf wire types of a payload before \<open>prost\<close>
  decodes it. \<open>prost\<close>'s own encoder and decoder are the parameters \<open>enc\<close> and \<open>dec\<close>.
\<close>

subsection \<open>Frame types and response frames\<close>

definition DEFAULT_MAX_FRAME_SIZE :: nat where
  "DEFAULT_MAX_FRAME_SIZE = 4 * 1024 * 1024"

definition MAX_FRAME_HEADER_LEN :: nat where
  "MAX_FRAME_HEADER_LEN = 2 * MAX_LEN"

definition MESSAGE :: u64 where "MESSAGE = 0"
definition REQUEST :: u64 where "REQUEST = 1"
definition HEADERS :: u64 where "HEADERS = 2"
definition STATUS :: u64 where "STATUS = 3"
definition ZSTD_MESSAGE :: u64 where "ZSTD_MESSAGE = 4"
definition ZSTD_STREAM_MESSAGE :: u64 where "ZSTD_STREAM_MESSAGE = 5"
definition ANSWER :: u64 where "ANSWER = 6"

lemmas frame_type_defs = MESSAGE_def REQUEST_def HEADERS_def STATUS_def ZSTD_MESSAGE_def
  ZSTD_STREAM_MESSAGE_def ANSWER_def

definition is_known_frame_type :: "u64 \<Rightarrow> bool" where
  "is_known_frame_type frame_type \<longleftrightarrow> frame_type \<le> ANSWER"

datatype response_frame = Headers metadata | Message bytes | Status status

fun is_status :: "response_frame \<Rightarrow> bool" where
  "is_status (Status _) = True"
| "is_status _ = False"

subsection \<open>Encoding\<close>

definition validate_payload_len :: "usize \<Rightarrow> usize \<Rightarrow> unit result" where
  "validate_payload_len len max_frame_size =
     (if len > max_frame_size then Inl (FrameTooLarge len max_frame_size) else Inr ())"

text \<open>\<open>u64::try_from(usize)\<close> never fails on the 64-bit target.\<close>

definition put_frame_header :: "bytes \<Rightarrow> u64 \<Rightarrow> usize \<Rightarrow> usize \<Rightarrow> bytes result" where
  "put_frame_header out frame_type payload_len max_frame_size =
     and_then (validate_payload_len payload_len max_frame_size) (\<lambda>_.
     and_then (push out frame_type) (\<lambda>out.
       push out (of_nat payload_len)))"

definition put_protobuf_frame ::
  "('m \<Rightarrow> bytes) \<Rightarrow> bytes \<Rightarrow> u64 \<Rightarrow> 'm \<Rightarrow> usize \<Rightarrow> bytes result" where
  "put_protobuf_frame enc out frame_type message max_frame_size =
     and_then (put_frame_header out frame_type (length (enc message)) max_frame_size) (\<lambda>out.
       Inr (out @ enc message))"

definition encode_frame :: "u64 \<Rightarrow> bytes \<Rightarrow> usize \<Rightarrow> bytes result" where
  "encode_frame frame_type payload max_frame_size =
     and_then (put_frame_header [] frame_type (length payload) max_frame_size) (\<lambda>frame.
       Inr (frame @ payload))"

definition encode_message_frame :: "bytes \<Rightarrow> usize \<Rightarrow> bytes result" where
  "encode_message_frame body max_frame_size = encode_frame MESSAGE body max_frame_size"

definition encode_protobuf_frame :: "('m \<Rightarrow> bytes) \<Rightarrow> u64 \<Rightarrow> 'm \<Rightarrow> usize \<Rightarrow> bytes result" where
  "encode_protobuf_frame enc frame_type message max_frame_size =
     put_protobuf_frame enc [] frame_type message max_frame_size"

subsection \<open>The protobuf preflight\<close>

definition malformed_protobuf :: "string \<Rightarrow> error" where
  "malformed_protobuf message = EStatus (invalid_argument message)"

datatype varint_decode_error = Truncated | Overflow

text \<open>
  An offset into a slice is below the slice's length, which Rust bounds by \<open>isize::MAX\<close>, so the
  source's \<open>offset.saturating_add(1)\<close> never saturates.
\<close>

function consume_u64_varint_loop ::
  "bytes \<Rightarrow> nat \<Rightarrow> u64 \<Rightarrow> usize \<Rightarrow> varint_decode_error + (u64 \<times> usize)" where
  "consume_u64_varint_loop data index value offset =
     (if index < 10 then
        (if offset < length data then
           (let byte = data ! offset; offset = offset + 1 in
            if index = 9 \<and> byte > 1 then Inl Overflow
            else
              (let value = value OR push_bit (index * 7) (ucast (byte AND 0x7f)) in
               if byte < 0x80 then Inr (value, offset)
               else consume_u64_varint_loop data (index + 1) value offset))
         else Inl Truncated)
      else Inl Overflow)"
  by pat_completeness auto
termination
  by (relation "measure (\<lambda>(_, index, _, _). 10 - index)") auto

declare consume_u64_varint_loop.simps [simp del]

definition consume_u64_varint :: "bytes \<Rightarrow> usize \<Rightarrow> varint_decode_error + (u64 \<times> usize)" where
  "consume_u64_varint data offset = consume_u64_varint_loop data 0 0 offset"

definition consume_proto_varint :: "bytes \<Rightarrow> usize \<Rightarrow> (u64 \<times> usize) result" where
  "consume_proto_varint data offset =
     map_err (\<lambda>e. case e of
         Truncated \<Rightarrow> malformed_protobuf ''truncated protobuf varint''
       | Overflow \<Rightarrow> malformed_protobuf ''protobuf varint exceeded 64 bits'')
       (consume_u64_varint data offset)"

definition consume_proto_bytes :: "bytes \<Rightarrow> usize \<Rightarrow> (bytes \<times> usize) result" where
  "consume_proto_bytes data offset =
     and_then (consume_proto_varint data offset) (\<lambda>(len, start).
     and_then (ok_or (checked_add start (unat len))
                (malformed_protobuf ''protobuf field length overflowed'')) (\<lambda>stop.
     and_then (ok_or (get_range data start stop)
                (malformed_protobuf ''truncated protobuf field'')) (\<lambda>bs.
       Inr (bs, stop))))"

definition skip_proto_fixed :: "bytes \<Rightarrow> usize \<Rightarrow> usize \<Rightarrow> usize result" where
  "skip_proto_fixed data offset len =
     and_then (ok_or (checked_add offset len)
                (malformed_protobuf ''protobuf fixed field length overflowed'')) (\<lambda>stop.
       if stop > length data then Inl (malformed_protobuf ''truncated protobuf fixed field'')
       else Inr stop)"

lemma consume_u64_varint_loop_offset:
  "consume_u64_varint_loop data index val offset = Inr (v, offset') \<Longrightarrow>
     offset < offset' \<and> offset' \<le> length data"
proof (induction data index val offset rule: consume_u64_varint_loop.induct)
  case (1 data index val offset)
  from "1.prems" show ?case
    unfolding consume_u64_varint_loop.simps [of data index val offset]
    by (auto simp: Let_def split: if_splits dest!: "1.IH" [OF _ _ refl refl _ refl])
qed

lemma consume_proto_varint_offset:
  "consume_proto_varint data offset = Inr (v, offset') \<Longrightarrow> offset < offset' \<and> offset' \<le> length data"
  by (auto simp: consume_proto_varint_def consume_u64_varint_def
      dest: consume_u64_varint_loop_offset)

lemma consume_proto_bytes_offset:
  "consume_proto_bytes data offset = Inr (bs, offset') \<Longrightarrow>
     offset < offset' \<and> offset' \<le> length data \<and> length bs < length data - offset"
  by (auto simp: consume_proto_bytes_def and_then_Inr_iff get_range_def split: if_splits
      dest!: consume_proto_varint_offset)

lemma skip_proto_fixed_offset:
  "skip_proto_fixed data offset len = Inr offset' \<Longrightarrow>
     offset' = offset + len \<and> offset' \<le> length data"
  by (auto simp: skip_proto_fixed_def and_then_Inr_iff split: if_splits)

text \<open>
  \<open>skip_proto_value\<close> and, as \<open>skip_proto_group\<close>, the loop of its group case. The loop reads the
  next tag after the value it skipped, so its termination rests on values being skipped forwards.
\<close>

function (sequential) skip_proto_value :: "bytes \<Rightarrow> usize \<Rightarrow> u64 \<Rightarrow> u64 \<Rightarrow> usize result"
  and skip_proto_group :: "bytes \<Rightarrow> usize \<Rightarrow> u64 \<Rightarrow> usize result" where
  "skip_proto_value data offset field wire_type =
     (if wire_type = 0 then
        and_then (consume_proto_varint data offset) (\<lambda>(_, offset). Inr offset)
      else if wire_type = 1 then skip_proto_fixed data offset 8
      else if wire_type = 2 then
        and_then (consume_proto_bytes data offset) (\<lambda>(_, offset). Inr offset)
      else if wire_type = 3 then skip_proto_group data offset field
      else if wire_type = 4 then Inl (malformed_protobuf ''unexpected protobuf end group'')
      else if wire_type = 5 then skip_proto_fixed data offset 4
      else Inl (malformed_protobuf ''unsupported protobuf wire type''))"
| "skip_proto_group data offset field =
     and_then (consume_proto_varint data offset) (\<lambda>(tag, offset).
       if tag = 0 then Inl (malformed_protobuf ''invalid protobuf group tag'')
       else
         (let nested_field = drop_bit 3 tag; nested_wire_type = tag AND 7 in
          if nested_wire_type = 4 then
            (if nested_field \<noteq> field then
               Inl (malformed_protobuf ''mismatched protobuf end group'')
             else Inr offset)
          else
            and_then (skip_proto_value data offset nested_field nested_wire_type) (\<lambda>offset.
              skip_proto_group data offset field)))"
  by pat_completeness auto

lemma skip_proto_offset_partial:
  "skip_proto_value_skip_proto_group_dom (Inl (data, offset, field, wire_type)) \<Longrightarrow>
     skip_proto_value data offset field wire_type = Inr offset' \<Longrightarrow> offset \<le> offset'"
  "skip_proto_value_skip_proto_group_dom (Inr (data, offset, field)) \<Longrightarrow>
     skip_proto_group data offset field = Inr offset'' \<Longrightarrow> offset \<le> offset''"
proof (induction data offset field wire_type and data offset field arbitrary: offset' and offset''
    rule: skip_proto_value_skip_proto_group.pinduct)
  case (1 data offset field wire_type)
  show ?case
  proof (cases "wire_type = 3")
    case True
    with "1.prems" have "skip_proto_group data offset field = Inr offset'"
      unfolding skip_proto_value.psimps [OF "1.hyps"] by simp
    with True show ?thesis by (intro "1.IH") simp_all
  next
    case False
    with "1.prems" show ?thesis
      by (auto simp: skip_proto_value.psimps [OF "1.hyps"] and_then_Inr_iff split: if_splits
          dest: consume_proto_varint_offset consume_proto_bytes_offset skip_proto_fixed_offset)
  qed
next
  case (2 data offset field)
  from "2.prems" obtain tag o1 where tag: "consume_proto_varint data offset = Inr (tag, o1)"
      "tag \<noteq> 0"
    and rest: "offset'' = o1 \<or> (tag AND 7 \<noteq> 4 \<and> (\<exists>o2.
        skip_proto_value data o1 (drop_bit 3 tag) (tag AND 7) = Inr o2 \<and>
        skip_proto_group data o2 field = Inr offset''))"
    unfolding skip_proto_group.psimps [OF "2.hyps"]
    by (auto simp: Let_def and_then_Inr_iff split: if_splits)
  from consume_proto_varint_offset [OF tag(1)] have "offset < o1" by simp
  with rest show ?case
    using "2.IH" [OF tag(1) refl tag(2) refl refl] by fastforce
qed

termination skip_proto_value
proof (relation "measures [\<lambda>x. case x of Inl (data, offset, _, _) \<Rightarrow> length data - offset
                               | Inr (data, offset, _) \<Rightarrow> length data - offset,
                            \<lambda>x. case x of Inl _ \<Rightarrow> 1 | Inr _ \<Rightarrow> 0]", goal_cases)
  case 1
  then show ?case by simp
next
  case (2 data offset field wire_type)
  then show ?case by simp
next
  case (3 data offset field x tag o1 nested_field nested_wire_type)
  then show ?case by (auto dest!: consume_proto_varint_offset)
next
  case (4 data offset field x tag o1 nested_field nested_wire_type o2)
  then show ?case
    by (auto dest!: consume_proto_varint_offset skip_proto_offset_partial(1))
qed

declare skip_proto_value.simps [simp del] skip_proto_group.simps [simp del]

lemma skip_proto_offset:
  "skip_proto_value data offset field wire_type = Inr offset' \<Longrightarrow>
     offset < offset' \<and> offset' \<le> length data"
  "skip_proto_group data offset field = Inr offset'' \<Longrightarrow>
     offset < offset'' \<and> offset'' \<le> length data"
proof (induction data offset field wire_type and data offset field arbitrary: offset' and offset''
    rule: skip_proto_value_skip_proto_group.induct)
  case (1 data offset field wire_type)
  from "1.prems" "1.IH" show ?case
    unfolding skip_proto_value.simps [of data offset]
    by (auto simp: and_then_Inr_iff split: if_splits
        dest: consume_proto_varint_offset consume_proto_bytes_offset skip_proto_fixed_offset)
next
  case (2 data offset field)
  from "2.prems" obtain tag o1 where tag: "consume_proto_varint data offset = Inr (tag, o1)"
      "tag \<noteq> 0"
    and rest: "offset'' = o1 \<or> (tag AND 7 \<noteq> 4 \<and> (\<exists>o2.
        skip_proto_value data o1 (drop_bit 3 tag) (tag AND 7) = Inr o2 \<and>
        skip_proto_group data o2 field = Inr offset''))"
    unfolding skip_proto_group.simps [of data offset]
    by (auto simp: Let_def and_then_Inr_iff split: if_splits)
  from consume_proto_varint_offset [OF tag(1)] rest show ?case
    using "2.IH" [OF tag(1) refl tag(2) refl refl] by fastforce
qed

lemmas skip_proto_value_offset = skip_proto_offset(1)

type_synonym wire_fields = "(u64 \<times> u64) list"
type_synonym wire_nested = "(u64 \<times> wire_fields) list"

definition known_field :: "(u64 \<times> 'a) list \<Rightarrow> u64 \<Rightarrow> 'a option" where
  "known_field flds field = map_option snd (List.find (\<lambda>(known, _). known = field) flds)"

text \<open>The loop of \<open>preflight_wire_message\<close>, from \<open>offset\<close> on.\<close>

function preflight_wire_loop ::
  "bytes \<Rightarrow> wire_fields \<Rightarrow> wire_nested \<Rightarrow> usize \<Rightarrow> unit result" where
  "preflight_wire_loop data flds nested offset =
     (if offset < length data then
        and_then (consume_proto_varint data offset) (\<lambda>(tag, offset).
          if tag = 0 then Inl (malformed_protobuf ''invalid protobuf field tag'')
          else
            (let field = drop_bit 3 tag; wire_type = tag AND 7 in
             if (case known_field flds field of
                   Some expected \<Rightarrow> wire_type \<noteq> expected
                 | None \<Rightarrow> False)
             then Inl (malformed_protobuf ''known protobuf field used the wrong wire type'')
             else
               (case known_field nested field of
                  Some nested_fields \<Rightarrow>
                    and_then (consume_proto_bytes data offset) (\<lambda>(entry, offset).
                    and_then (preflight_wire_loop entry nested_fields [] 0) (\<lambda>_.
                      preflight_wire_loop data flds nested offset))
                | None \<Rightarrow>
                    and_then (skip_proto_value data offset field wire_type) (\<lambda>offset.
                      preflight_wire_loop data flds nested offset))))
      else Inr ())"
  by pat_completeness auto
termination
  by (relation "measure (\<lambda>(data, _, _, offset). length data - offset)")
    (auto dest!: consume_proto_varint_offset consume_proto_bytes_offset skip_proto_value_offset)

declare preflight_wire_loop.simps [simp del]

definition preflight_wire_message :: "bytes \<Rightarrow> wire_fields \<Rightarrow> wire_nested \<Rightarrow> unit result" where
  "preflight_wire_message data flds nested = preflight_wire_loop data flds nested 0"

definition METADATA_ENTRY :: wire_fields where "METADATA_ENTRY = [(1, 2), (2, 2)]"
definition DICTIONARY_INFO :: wire_fields where "DICTIONARY_INFO = [(1, 0), (2, 2)]"

text \<open>The message types \<open>preflight_known_wire\<close> tells apart by their \<open>TypeId\<close>.\<close>

datatype payload_type = RpcRequest_type | RpcHeaders_type | RpcAnswer_type | RpcStatus_type
  | Other_type

fun known_wire :: "payload_type \<Rightarrow> (wire_fields \<times> wire_nested) option" where
  "known_wire RpcRequest_type =
     Some ([(1, 2), (2, 2), (3, 0), (4, 0), (5, 0), (7, 2), (8, 0)],
           [(2, METADATA_ENTRY), (7, DICTIONARY_INFO)])"
| "known_wire RpcHeaders_type = Some ([(1, 2)], [(1, METADATA_ENTRY)])"
| "known_wire RpcAnswer_type = Some ([(1, 2), (2, 0), (3, 0)], [(1, DICTIONARY_INFO)])"
| "known_wire RpcStatus_type = Some ([(1, 0), (2, 2), (3, 2)], [(3, METADATA_ENTRY)])"
| "known_wire Other_type = None"

definition preflight_known_wire :: "payload_type \<Rightarrow> bytes \<Rightarrow> unit result" where
  "preflight_known_wire ty body =
     (case known_wire ty of
        Some (flds, nested) \<Rightarrow> preflight_wire_message body flds nested
      | None \<Rightarrow> Inr ())"

definition decode_payload :: "(bytes \<Rightarrow> string + 'm) \<Rightarrow> payload_type \<Rightarrow> bytes \<Rightarrow> 'm result" where
  "decode_payload dec ty payload =
     and_then (preflight_known_wire ty payload) (\<lambda>_. map_err EDecode (dec payload))"

subsection \<open>Protobuf integers\<close>

text \<open>A base-128 number at the head of a list: its value and how many bytes it takes.\<close>

fun leb128 :: "bytes \<Rightarrow> (nat \<times> nat) option" where
  "leb128 [] = None"
| "leb128 (b # bs) =
     (if b < 0x80 then Some (unat b, 1)
      else map_option (\<lambda>(v, n). (unat (b AND 0x7f) + 128 * v, n + 1)) (leb128 bs))"

lemma leb128_pos: "leb128 bs = Some (v, n) \<Longrightarrow> 0 < n"
  by (cases bs) (auto split: if_splits)

lemma unat_and_127: "unat (b AND 0x7f :: byte) = unat b mod 128"
proof -
  have "b AND 0x7f = take_bit 7 b"
    by (simp add: take_bit_eq_mask mask_eq_exp_minus_1)
  then show ?thesis by (simp add: take_bit_eq_mod unat_mod_distrib)
qed

lemma and_127_less: "unat (b AND 0x7f :: byte) < 128"
  by (simp add: unat_and_127)

lemma unat_small_and_127: "b < 0x80 \<Longrightarrow> unat (b AND 0x7f :: byte) = unat b"
  by (simp add: unat_and_127 word_less_nat_alt)

lemma unat_leb_digit:
  assumes "unat (acc :: u64) < 2 ^ k" "unat acc + 2 ^ k * unat (b AND 0x7f :: byte) < 2 ^ 64"
  shows "unat (acc OR push_bit k (ucast (b AND 0x7f))) = unat acc + 2 ^ k * unat (b AND 0x7f)"
proof -
  let ?d = "unat (b AND 0x7f)"
  have d: "unat (ucast (b AND 0x7f) :: u64) = ?d"
    by (simp add: unsigned_ucast_eq take_bit_nat_eq_self less_trans [OF unat_byte_less])
  have push: "unat (push_bit k (ucast (b AND 0x7f)) :: u64) = 2 ^ k * ?d"
    using assms(2) d by (simp add: unsigned_push_bit_eq push_bit_eq_mult [where 'a = nat]
        take_bit_nat_eq_self mult.commute)
  have "unat (drop_bit k acc) = 0"
    using assms(1) by (simp add: unat_drop_bit_div)
  then have "drop_bit k acc = 0" by (simp add: unat_eq_0)
  then have low: "\<not> bit acc i" if "k \<le> i" for i
    using that bit_drop_bit_eq [of k acc] by (metis add_diff_inverse_nat bit_0_eq bot_apply comp_apply leD bot_bool_def)
  have disj: "acc AND push_bit k (ucast (b AND 0x7f)) = 0"
    by (rule bit_word_eqI) (auto simp: bit_simps low)
  then show ?thesis
    using assms(2) push by (simp add: disjunctive_add_eq_or [symmetric] unat_plus_if')
qed
lemma leb_bound:
  assumes "unat (acc :: u64) < 2 ^ (7 * i)" "d < 128"
  shows "unat acc + 2 ^ (7 * i) * d < 2 ^ (7 * Suc i)"
proof -
  have "unat acc + 2 ^ (7 * i) * d < 2 ^ (7 * i) * Suc d" using assms(1) by simp
  also have "\<dots> \<le> 2 ^ (7 * i) * 128" using assms(2) by (intro mult_le_mono2) simp
  finally show ?thesis by (simp add: power_add)
qed

lemma leb_bound_64: 
  assumes "unat (acc :: u64) < 2 ^ (7 * i)" "d < 128" "i < 9"
  shows "unat acc + 2 ^ (7 * i) * d < 2 ^ 64"
proof -
  have "(2::nat) ^ (7 * Suc i) \<le> 2 ^ 64" using assms(3) by (intro power_increasing) auto
  with leb_bound [OF assms(1,2)] show ?thesis by linarith
qed

text \<open>The byte at index 9 is the last that may carry a bit of a 64-bit value, and only one.\<close>

lemma consume_u64_varint_loop_last:
  assumes "unat acc < 2 ^ 63" "offset < length data"
  shows "consume_u64_varint_loop data 9 acc offset =
    (if data ! offset > 1 then Inl Overflow
     else Inr (of_nat (unat acc + 2 ^ 63 * unat (data ! offset)), Suc offset))"
proof -
  let ?b = "data ! offset"
  have rec: "consume_u64_varint_loop data 9 acc offset =
      (if ?b > 1 then Inl Overflow
       else Inr (acc OR push_bit 63 (ucast (?b AND 0x7f)), Suc offset))"
    using assms(2) by (subst consume_u64_varint_loop.simps) (auto simp: Let_def word_less_nat_alt)
  show ?thesis
  proof (cases "?b > 1")
    case False
    then have b: "?b < 0x80" "unat ?b \<le> 1" by (simp_all add: word_less_nat_alt)
    then have "2 ^ 63 * unat ?b \<le> 2 ^ 63" by simp
    with assms(1) have "unat acc + 2 ^ 63 * unat ?b < 2 ^ 64" by simp
    then have "unat (acc OR push_bit 63 (ucast (?b AND 0x7f))) = unat acc + 2 ^ 63 * unat ?b"
      using unat_leb_digit [of acc 63 ?b] assms(1) by (simp add: unat_small_and_127 b)
    then show ?thesis using False rec by (simp add: of_nat_eq_word del: of_nat_add of_nat_mult)
  qed (simp add: rec)
qed

lemma consume_u64_varint_loop_step:
  assumes "unat acc < 2 ^ (7 * index)" "index < 9" "offset < length data"
  defines "b \<equiv> data ! offset"
  defines "n \<equiv> unat acc + 2 ^ (7 * index) * unat (b AND 0x7f)"
  shows "n < 2 ^ (7 * Suc index)" "unat (of_nat n :: u64) = n"
    and "consume_u64_varint_loop data index acc offset =
      (if b < 0x80 then Inr (of_nat n, Suc offset)
       else consume_u64_varint_loop data (Suc index) (of_nat n) (Suc offset))"
proof -
  let ?acc = "acc OR push_bit (7 * index) (ucast (b AND 0x7f))"
  have n: "unat ?acc = n"
    unfolding n_def using assms(1,2)
    by (intro unat_leb_digit leb_bound_64 and_127_less) simp_all
  show "n < 2 ^ (7 * Suc index)"
    unfolding n_def by (intro leb_bound and_127_less assms(1))
  show "unat (of_nat n :: u64) = n"
    by (simp add: of_nat_eq_word [OF n] n)
  show "consume_u64_varint_loop data index acc offset =
      (if b < 0x80 then Inr (of_nat n, Suc offset)
       else consume_u64_varint_loop data (Suc index) (of_nat n) (Suc offset))"
    unfolding of_nat_eq_word [OF n] using assms(2,3)
    by (subst consume_u64_varint_loop.simps) (simp add: Let_def b_def mult.commute)
qed

lemma consume_u64_varint_loop_leb128:
  "index \<le> 9 \<Longrightarrow> unat acc < 2 ^ (7 * index) \<Longrightarrow>
   consume_u64_varint_loop data index acc offset =
     (case leb128 (drop offset data) of
        Some (v, n) \<Rightarrow>
          if n + index \<le> 10 \<and> unat acc + 2 ^ (7 * index) * v < 2 ^ 64
          then Inr (of_nat (unat acc + 2 ^ (7 * index) * v), offset + n)
          else Inl Overflow
      | None \<Rightarrow> if length data - offset + index < 10 then Inl Truncated else Inl Overflow)"
proof (induction "9 - index" arbitrary: index acc offset)
  case 0
  then have i: "index = 9" by simp
  show ?case
  proof (cases "offset < length data")
    case True
    then have split: "drop offset data = data ! offset # drop (Suc offset) data"
      by (simp add: Cons_nth_drop_Suc)
    have "2 ^ 64 \<le> unat acc + 2 ^ 63 * unat (data ! offset) \<longleftrightarrow> data ! offset > 1"
      using 0 i by (auto simp: word_less_nat_alt)
    with True i 0 show ?thesis
      by (auto simp: consume_u64_varint_loop_last split word_less_nat_alt not_less dest: leb128_pos
          split: option.split)
  qed (use i in \<open>simp add: consume_u64_varint_loop.simps\<close>)
next
  case (Suc k)
  then have i: "index < 9" by simp
  show ?case
  proof (cases "offset < length data")
    case True
    define b where "b = data ! offset"
    define m where "m = unat acc + 2 ^ (7 * index) * unat (b AND 0x7f)"
    note step = consume_u64_varint_loop_step [OF Suc.prems(2) i True, folded b_def, folded m_def]
    have split: "drop offset data = b # drop (Suc offset) data"
      using True by (simp add: b_def Cons_nth_drop_Suc)
    show ?thesis
    proof (cases "b < 0x80")
      case True
      with leb_bound_64 [OF Suc.prems(2) and_127_less i, of b] show ?thesis
        using i split unfolding step(3)
        by (simp add: m_def unat_small_and_127 del: of_nat_add of_nat_mult)
    next
      case False
      have "m + 2 ^ (7 * Suc index) * v = unat acc + 2 ^ (7 * index) * (unat (b AND 0x7f) + 128 * v)"
        for v unfolding m_def by (simp add: power_add algebra_simps)
      moreover note Suc.hyps(1) [of "Suc index" "of_nat m" "Suc offset"]
      ultimately show ?thesis
        using False True split Suc.hyps(2) Suc.prems(1) step(1,2) i unfolding step(3)
        by (auto split: option.split simp del: of_nat_add of_nat_mult)
    qed
  qed (use i in \<open>simp add: consume_u64_varint_loop.simps\<close>)
qed

text \<open>
  C29. The protobuf integer reader computes exactly the base-128 number at the offset, little digit
  first. It succeeds if and only if that number is complete, takes at most ten bytes and fits 64
  bits, and then leaves the offset right behind it; a number cut short within ten bytes is
  \<open>Truncated\<close> and every other failure is \<open>Overflow\<close>.
\<close>

theorem consume_u64_varint_exact:
  "consume_u64_varint data offset =
     (case leb128 (drop offset data) of
        Some (v, n) \<Rightarrow> if n \<le> 10 \<and> v < 2 ^ 64 then Inr (of_nat v, offset + n) else Inl Overflow
      | None \<Rightarrow> if length data - offset < 10 then Inl Truncated else Inl Overflow)"
  unfolding consume_u64_varint_def
  by (subst consume_u64_varint_loop_leb128) (simp_all split: option.split)

subsection \<open>What the preflight accepts\<close>

text \<open>
  What the preflight promises, stated without it: the payload read as a list of fields, each with
  its wire type and its bytes, and the wire types a table demands of such a list.
\<close>

definition wire_value :: "bytes \<Rightarrow> usize \<Rightarrow> u64 \<Rightarrow> usize \<Rightarrow> bytes" where
  "wire_value data start wire_type stop =
     (if wire_type = 2
      then case consume_proto_bytes data start of Inr (bs, _) \<Rightarrow> bs | Inl _ \<Rightarrow> []
      else take (stop - start) (drop start data))"

inductive wire_parse :: "bytes \<Rightarrow> usize \<Rightarrow> (u64 \<times> u64 \<times> bytes) list \<Rightarrow> bool" where
  parse_end: "length data \<le> offset \<Longrightarrow> wire_parse data offset []"
| parse_field: "offset < length data \<Longrightarrow>
    consume_proto_varint data offset = Inr (tag, start) \<Longrightarrow> tag \<noteq> 0 \<Longrightarrow>
    skip_proto_value data start (drop_bit 3 tag) (tag AND 7) = Inr stop \<Longrightarrow>
    wire_parse data stop fs \<Longrightarrow>
    wire_parse data offset
      ((drop_bit 3 tag, tag AND 7, wire_value data start (tag AND 7) stop) # fs)"

definition conforms :: "wire_fields \<Rightarrow> (u64 \<times> u64 \<times> bytes) list \<Rightarrow> bool" where
  "conforms flds = list_all (\<lambda>(f, w, _).
     case known_field flds f of Some expected \<Rightarrow> w = expected | None \<Rightarrow> True)"

definition entry_conforms :: "wire_fields \<Rightarrow> bytes \<Rightarrow> bool" where
  "entry_conforms flds entry \<longleftrightarrow> (\<exists>gs. wire_parse entry 0 gs \<and> conforms flds gs)"

definition nested_conforms :: "wire_nested \<Rightarrow> (u64 \<times> u64 \<times> bytes) list \<Rightarrow> bool" where
  "nested_conforms nested fs \<longleftrightarrow> (\<forall>(f, _, v) \<in> set fs.
     case known_field nested f of
       Some nested_flds \<Rightarrow> entry_conforms nested_flds v
     | None \<Rightarrow> True)"

inductive_cases wire_parse_elim: "wire_parse data offset fs"

lemma wire_parse_done: "length data \<le> offset \<Longrightarrow> wire_parse data offset fs \<longleftrightarrow> fs = []"
  by (auto elim: wire_parse_elim intro: parse_end)

lemma known_field_Nil [simp]: "known_field [] f = None"
  by (simp add: known_field_def)

lemma skip_bytes:
  "skip_proto_value data start field 2 =
     and_then (consume_proto_bytes data start) (\<lambda>(_, offset). Inr offset)"
  by (simp add: skip_proto_value.simps)

lemma conforms_Cons: "conforms flds ((f, w, v) # fs) \<longleftrightarrow>
   (case known_field flds f of Some expected \<Rightarrow> w = expected | None \<Rightarrow> True) \<and> conforms flds fs"
  by (simp add: conforms_def)

lemma nested_conforms_Cons: "nested_conforms nested ((f, w, v) # fs) \<longleftrightarrow>
   (case known_field nested f of
      Some nested_flds \<Rightarrow> entry_conforms nested_flds v
    | None \<Rightarrow> True) \<and> nested_conforms nested fs"
  by (simp add: nested_conforms_def)

lemma nested_conforms_Nil [simp]: "nested_conforms [] fs" "nested_conforms nested []"
  by (auto simp: nested_conforms_def)

lemma conforms_Nil [simp]: "conforms flds []"
  by (simp add: conforms_def)

lemma wire_parse_step:
  assumes "offset < length data" "consume_proto_varint data offset = Inr (tag, start)" "tag \<noteq> 0"
  shows "(\<exists>fs. wire_parse data offset fs \<and> accept fs) \<longleftrightarrow> (\<exists>stop.
     skip_proto_value data start (drop_bit 3 tag) (tag AND 7) = Inr stop \<and>
     (\<exists>fs. wire_parse data stop fs \<and>
       accept ((drop_bit 3 tag, tag AND 7, wire_value data start (tag AND 7) stop) # fs)))"
  using assms by (subst wire_parse.simps) auto

text \<open>One turn of the loop, for a field without and with a nested table.\<close>

lemma preflight_step_plain:
  assumes "offset < length data" "consume_proto_varint data offset = Inr (tag, start)" "tag \<noteq> 0"
    and "known_field nested (drop_bit 3 tag) = None"
  shows "preflight_wire_loop data flds nested offset = Inr () \<longleftrightarrow>
     (case known_field flds (drop_bit 3 tag) of Some e \<Rightarrow> tag AND 7 = e | None \<Rightarrow> True) \<and>
     (\<exists>stop. skip_proto_value data start (drop_bit 3 tag) (tag AND 7) = Inr stop \<and>
        preflight_wire_loop data flds nested stop = Inr ())"
  using assms by (auto simp: preflight_wire_loop.simps [of data _ _ offset] Let_def and_then_Inr_iff
      split: option.splits)

lemma preflight_step_nested:
  assumes "offset < length data" "consume_proto_varint data offset = Inr (tag, start)" "tag \<noteq> 0"
    and "known_field nested (drop_bit 3 tag) = Some nf" "known_field flds (drop_bit 3 tag) = Some 2"
  shows "preflight_wire_loop data flds nested offset = Inr () \<longleftrightarrow> tag AND 7 = 2 \<and>
     (\<exists>entry stop. consume_proto_bytes data start = Inr (entry, stop) \<and>
        preflight_wire_loop entry nf [] 0 = Inr () \<and>
        preflight_wire_loop data flds nested stop = Inr ())"
  using assms by (auto simp: preflight_wire_loop.simps [of data _ _ offset] Let_def and_then_Inr_iff)

lemma preflight_wire_loop_exact:
  assumes "\<And>f nf. known_field nested f = Some nf \<Longrightarrow> known_field flds f = Some 2"
  shows "preflight_wire_loop data flds nested offset = Inr () \<longleftrightarrow>
     (\<exists>fs. wire_parse data offset fs \<and> conforms flds fs \<and> nested_conforms nested fs)"
  using assms
proof (induction data flds nested offset rule: preflight_wire_loop.induct)
  case (1 data flds nested offset)
  consider (stop) "length data \<le> offset"
    | (bad) "offset < length data"
        "\<And>tag start. consume_proto_varint data offset = Inr (tag, start) \<Longrightarrow> tag = 0"
    | (tag) tag start where "offset < length data"
        "consume_proto_varint data offset = Inr (tag, start)" "tag \<noteq> 0"
    by fastforce
  then show ?case
  proof cases
    case stop
    then show ?thesis
      by (simp add: preflight_wire_loop.simps [of data] wire_parse_done)
  next
    case bad
    then show ?thesis
      by (auto simp: preflight_wire_loop.simps [of data _ _ offset] and_then_Inr_iff
          elim: wire_parse_elim split: if_splits)
  next
    case tag
    let ?f = "drop_bit 3 tag" and ?w = "tag AND 7"
    note IH = "1.IH" [OF tag(1,2) refl tag(3) refl refl]
    show ?thesis
    proof (cases "known_field nested ?f")
      case None
      have "preflight_wire_loop data flds nested stop = Inr () \<longleftrightarrow>
          (\<exists>fs. wire_parse data stop fs \<and> conforms flds fs \<and> nested_conforms nested fs)"
        if "skip_proto_value data start ?f ?w = Inr stop"
          "case known_field flds ?f of Some e \<Rightarrow> ?w = e | None \<Rightarrow> True" for stop
        using that None by (intro IH(1) "1.prems") (auto split: option.splits)
      with None show ?thesis
        unfolding wire_parse_step [OF tag] preflight_step_plain [OF tag None]
        by (auto simp: conforms_Cons nested_conforms_Cons)
    next
      case (Some nf)
      with "1.prems" have two: "known_field flds ?f = Some 2" by blast
      have "preflight_wire_loop entry nf [] 0 = Inr () \<longleftrightarrow> entry_conforms nf entry"
        if "consume_proto_bytes data start = Inr (entry, stop)" "?w = 2" for entry stop
        using IH(2) [OF _ Some that(1) refl] that(2) two by (simp add: entry_conforms_def)
      moreover have "preflight_wire_loop data flds nested stop = Inr () \<longleftrightarrow>
          (\<exists>fs. wire_parse data stop fs \<and> conforms flds fs \<and> nested_conforms nested fs)"
        if "consume_proto_bytes data start = Inr (entry, stop)" "?w = 2"
          "preflight_wire_loop entry nf [] 0 = Inr ()" for entry stop
        using that two by (intro IH(3) [OF _ Some that(1) refl that(3)] "1.prems") auto
      ultimately show ?thesis
        unfolding wire_parse_step [OF tag] preflight_step_nested [OF tag Some two] using Some two
        by (auto simp: conforms_Cons nested_conforms_Cons wire_value_def skip_bytes and_then_Inr_iff)
    qed
  qed
qed

lemma known_wire_nested_pinned:
  "known_wire ty = Some (flds, nested) \<Longrightarrow> known_field nested f = Some nf \<Longrightarrow>
     known_field flds f = Some 2"
  by (cases ty) (auto simp: known_field_def split: if_splits)


subsection \<open>Nested groups\<close>

lemma consume_proto_varint_byte:
  assumes "offset < length data" "data ! offset < 0x80"
  shows "consume_proto_varint data offset = Inr (ucast (data ! offset), Suc offset)"
proof -
  have "data ! offset AND 0x7f = data ! offset"
    using assms(2) by (intro word_unat_eq_iff [THEN iffD2]) (simp add: unat_and_127 word_less_nat_alt)
  with assms show ?thesis
    by (simp add: consume_proto_varint_def consume_u64_varint_def consume_u64_varint_loop.simps
        Let_def)
qed

definition nested_groups :: "nat \<Rightarrow> bytes" where
  "nested_groups d = replicate d 0x7b @ replicate d 0x7c"

lemma nested_groups_nth:
  "i < 2 * d \<Longrightarrow> nested_groups d ! i = (if i < d then 0x7b else 0x7c)"
  "length (nested_groups d) = 2 * d"
  by (auto simp: nested_groups_def nth_append)

lemma group_tag:
  "i < 2 * d \<Longrightarrow>
   consume_proto_varint (nested_groups d) i = Inr (if i < d then 0x7b else 0x7c, Suc i)"
  by (subst consume_proto_varint_byte) (simp_all add: nested_groups_nth)

lemma skip_nested_groups:
  assumes "0 < i" "i \<le> d"
  shows "skip_proto_group (nested_groups d) i 15 = Inr (Suc (2 * d - i))"
  using assms
proof (induction "d - i" arbitrary: i)
  case 0
  then show ?case
    by (subst skip_proto_group.simps) (simp add: group_tag Let_def)
next
  case (Suc k)
  then have "skip_proto_group (nested_groups d) (Suc i) 15 = Inr (Suc (2 * d - Suc i))"
    by (intro Suc.hyps) auto
  moreover have "\<not> 2 * d - i < d" "2 * d - i < 2 * d" using Suc by auto
  then have "skip_proto_group (nested_groups d) (2 * d - i) 15 = Inr (Suc (2 * d - i))"
    by (subst skip_proto_group.simps) (simp add: group_tag Let_def)
  ultimately show ?case
    using Suc by (subst skip_proto_group.simps)
      (simp add: group_tag Let_def skip_proto_value.simps Suc_diff_Suc)
qed

text \<open>
  C31. The preflight has no bound on how deeply groups nest: a request payload of \<open>d\<close> start-group
  tags of the unknown field 15 and their \<open>d\<close> end-group tags passes for every \<open>d\<close>, and
  \<open>skip_proto_value\<close> calls itself once per level, two bytes of payload each.
\<close>

theorem preflight_accepts_nested_groups:
  "preflight_known_wire RpcRequest_type (nested_groups d) = Inr ()"
proof (cases d)
  case 0
  then show ?thesis
    by (simp add: preflight_known_wire_def preflight_wire_message_def preflight_wire_loop.simps nested_groups_def)
next
  case (Suc k)
  then have "skip_proto_value (nested_groups d) 1 15 3 = Inr (2 * d)"
    by (simp add: skip_proto_value.simps skip_nested_groups)
  moreover have "preflight_wire_loop (nested_groups d) flds nested (2 * d) = Inr ()" for flds nested
    by (simp add: preflight_wire_loop.simps nested_groups_nth)
  ultimately show ?thesis
    using Suc
    by (simp add: preflight_known_wire_def preflight_wire_message_def
        preflight_wire_loop.simps [of _ _ _ 0] group_tag nested_groups_nth Let_def known_field_def)
qed

end
