(* ===== verification/Response_State.thy ===== *)
theory Response_State
  imports Framing
begin

text \<open>
  The response grammar, \<open>response_state.rs\<close>: \<open>ResponseState\<close> checks \<open>[HEADERS] MESSAGE* STATUS\<close>
  frame by frame and commits the terminal status at the clean end of the stream, and
  \<open>UnaryResponse\<close> collects the one message of a unary call into the envelope of \<open>response.rs\<close>.
\<close>

subsection \<open>The state machine\<close>

datatype failure_kind = InvalidMetadata | MalformedProtobuf | MisplacedHeaders
  | MissingTerminalStatus | RemoteStatus | TrailingFrame

fun category :: "failure_kind \<Rightarrow> string" where
  "category InvalidMetadata = ''invalid_metadata''"
| "category MalformedProtobuf = ''malformed_protobuf''"
| "category MisplacedHeaders = ''misplaced_headers''"
| "category MissingTerminalStatus = ''missing_terminal_status''"
| "category RemoteStatus = ''remote_status''"
| "category TrailingFrame = ''trailing_frame''"

record failure =
  fl_kind :: failure_kind
  fl_status :: status

definition failure_new :: "failure_kind \<Rightarrow> status \<Rightarrow> failure" where
  "failure_new kind s = \<lparr>fl_kind = kind, fl_status = s\<rparr>"

definition malformed_protobuf_failure :: failure where
  "malformed_protobuf_failure = failure_new MalformedProtobuf
     (internal ''response stream contained a malformed protobuf payload'')"

datatype response_event = HeadersEvent metadata | MessageEvent bytes | Terminal

record response_state =
  first_frame_seen :: bool
  pending_terminal_status :: "status option"
  terminal_status :: "status option"
  finished :: bool

definition response_state_default :: response_state where
  "response_state_default =
     \<lparr>first_frame_seen = False, pending_terminal_status = None, terminal_status = None,
      finished = False\<rparr>"

definition ensure_open :: "response_state \<Rightarrow> failure + unit" where
  "ensure_open s =
     (if finished s \<or> pending_terminal_status s \<noteq> None \<or> terminal_status s \<noteq> None then
        Inl (failure_new TrailingFrame
          (internal ''response stream continued after terminal status''))
      else Inr ())"

definition validate_response_metadata :: "metadata \<Rightarrow> failure + unit" where
  "validate_response_metadata m =
     map_err (\<lambda>_. failure_new InvalidMetadata
       (internal ''response stream contained invalid metadata'')) (validate_metadata m)"

definition response_accept ::
  "response_state \<Rightarrow> response_frame \<Rightarrow> (failure + response_event) \<times> response_state" where
  "response_accept s frame =
     (case ensure_open s of
        Inl f \<Rightarrow> (Inl f, s)
      | Inr _ \<Rightarrow>
          (let first_frame = \<not> first_frame_seen s; s = s\<lparr>first_frame_seen := True\<rparr> in
           case frame of
             Headers m \<Rightarrow>
               if \<not> first_frame then
                 (Inl (failure_new MisplacedHeaders
                    (internal ''response stream sent HEADERS after another response frame'')), s)
               else
                 (and_then (validate_response_metadata m) (\<lambda>_. Inr (HeadersEvent m)), s)
           | Message body \<Rightarrow> (Inr (MessageEvent body), s)
           | Status st \<Rightarrow>
               (case validate_response_metadata (st_metadata st) of
                  Inl f \<Rightarrow> (Inl f, s)
                | Inr _ \<Rightarrow> (Inr Terminal, s\<lparr>pending_terminal_status := Some st\<rparr>))))"

definition response_finish :: "response_state \<Rightarrow> (failure + unit) \<times> response_state" where
  "response_finish s =
     (if finished s then (Inr (), s)
      else
        (let s = s\<lparr>finished := True\<rparr> in
         case pending_terminal_status s of
           None \<Rightarrow>
             (Inl (failure_new MissingTerminalStatus
                (internal ''response stream ended before final status'')), s)
         | Some st \<Rightarrow>
             (let s = s\<lparr>pending_terminal_status := None, terminal_status := Some st\<rparr> in
              if st_code st \<noteq> Ok then (Inl (failure_new RemoteStatus st), s) else (Inr (), s))))"

definition response_abort :: "response_state \<Rightarrow> response_state" where
  "response_abort s = s\<lparr>pending_terminal_status := None, finished := True\<rparr>"

subsection \<open>Unary responses\<close>

record response_envelope =
  re_message :: bytes
  re_headers :: metadata
  re_metadata :: metadata

definition response_envelope_new :: "bytes \<Rightarrow> response_envelope" where
  "response_envelope_new message = \<lparr>re_message = message, re_headers = [], re_metadata = []\<rparr>"

record unary_response =
  ur_state :: response_state
  ur_headers :: metadata
  ur_message :: "bytes option"

definition unary_response_default :: unary_response where
  "unary_response_default =
     \<lparr>ur_state = response_state_default, ur_headers = [], ur_message = None\<rparr>"

definition unary_accept ::
  "unary_response \<Rightarrow> response_frame \<Rightarrow> (status + bool) \<times> unary_response" where
  "unary_accept u frame =
     (case response_accept (ur_state u) frame of
        (Inl f, s) \<Rightarrow> (Inl (fl_status f), u\<lparr>ur_state := s\<rparr>)
      | (Inr (HeadersEvent m), s) \<Rightarrow> (Inr False, u\<lparr>ur_state := s, ur_headers := m\<rparr>)
      | (Inr (MessageEvent body), s) \<Rightarrow>
          (if ur_message u \<noteq> None
           then Inl (internal ''unary response contained more than one message'') else Inr False,
           u\<lparr>ur_state := s, ur_message := Some body\<rparr>)
      | (Inr Terminal, s) \<Rightarrow> (Inr True, u\<lparr>ur_state := s\<rparr>))"

definition unary_finish :: "unary_response \<Rightarrow> status + response_envelope" where
  "unary_finish u =
     (let (r, s) = response_finish (ur_state u) in
      and_then (map_err fl_status r) (\<lambda>_.
      let m = (case terminal_status s of Some st \<Rightarrow> st_metadata st | None \<Rightarrow> []) in
      and_then (ok_or (ur_message u) (internal ''unary response contained no message'')) (\<lambda>message.
        Inr ((response_envelope_new message)\<lparr>re_headers := ur_headers u, re_metadata := m\<rparr>))))"

subsection \<open>The grammar\<close>

text \<open>Feeding a sequence of frames, up to the first that is refused.\<close>

fun feed :: "response_state \<Rightarrow> response_frame list \<Rightarrow> failure + (response_event list \<times> response_state)" where
  "feed s [] = Inr ([], s)"
| "feed s (frame # frames) =
     (case response_accept s frame of
        (Inl f, _) \<Rightarrow> Inl f
      | (Inr ev, s) \<Rightarrow> and_then (feed s frames) (\<lambda>(evs, s). Inr (ev # evs, s)))"

definition sound_metadata :: "metadata \<Rightarrow> bool" where
  "sound_metadata m \<longleftrightarrow> is_ok (validate_metadata m)"

text \<open>\<open>[HEADERS] MESSAGE* STATUS\<close> as a predicate on frame sequences.\<close>

fun messages_then_status :: "response_frame list \<Rightarrow> bool" where
  "messages_then_status [Status st] \<longleftrightarrow> sound_metadata (st_metadata st)"
| "messages_then_status (Message _ # frames) \<longleftrightarrow> messages_then_status frames"
| "messages_then_status _ \<longleftrightarrow> False"

fun response_grammar :: "response_frame list \<Rightarrow> bool" where
  "response_grammar (Headers m # frames) \<longleftrightarrow> sound_metadata m \<and> messages_then_status frames"
| "response_grammar frames \<longleftrightarrow> messages_then_status frames"

fun event_of :: "response_frame \<Rightarrow> response_event" where
  "event_of (Headers m) = HeadersEvent m"
| "event_of (Message body) = MessageEvent body"
| "event_of (Status _) = Terminal"

definition final_status :: "response_frame list \<Rightarrow> status" where
  "final_status frames = (case last frames of Status st \<Rightarrow> st | _ \<Rightarrow> status_ok)"

definition run_response :: "response_frame list \<Rightarrow> failure + (response_event list \<times> status option)" where
  "run_response frames =
     and_then (feed response_state_default frames) (\<lambda>(evs, s).
       case response_finish s of
         (Inl f, _) \<Rightarrow> Inl f
       | (Inr _, s) \<Rightarrow> Inr (evs, terminal_status s))"

fun feed_unary :: "unary_response \<Rightarrow> response_frame list \<Rightarrow> status + unary_response" where
  "feed_unary u [] = Inr u"
| "feed_unary u (frame # frames) =
     (case unary_accept u frame of (Inl st, _) \<Rightarrow> Inl st | (Inr _, u) \<Rightarrow> feed_unary u frames)"

definition run_unary :: "response_frame list \<Rightarrow> status + response_envelope" where
  "run_unary frames = and_then (feed_unary unary_response_default frames) unary_finish"

subsection \<open>How the states evolve\<close>

definition open_state :: response_state where
  "open_state = response_state_default\<lparr>first_frame_seen := True\<rparr>"

definition pending_state :: "status \<Rightarrow> response_state" where
  "pending_state st = open_state\<lparr>pending_terminal_status := Some st\<rparr>"

lemmas state_defs = open_state_def pending_state_def response_state_default_def

lemma validate_response_metadata_simps:
  "sound_metadata m \<Longrightarrow> validate_response_metadata m = Inr ()"
  "\<not> sound_metadata m \<Longrightarrow> validate_response_metadata m =
     Inl (failure_new InvalidMetadata (internal ''response stream contained invalid metadata''))"
  by (cases "validate_metadata m", simp_all add: sound_metadata_def validate_response_metadata_def)+

lemma accept_open:
  "response_accept open_state (Message body) = (Inr (MessageEvent body), open_state)"
  "response_accept open_state (Headers m) = (Inl (failure_new MisplacedHeaders
     (internal ''response stream sent HEADERS after another response frame'')), open_state)"
  "sound_metadata (st_metadata st) \<Longrightarrow>
     response_accept open_state (Status st) = (Inr Terminal, pending_state st)"
  "\<not> sound_metadata (st_metadata st) \<Longrightarrow>
     response_accept open_state (Status st) = (Inl (failure_new InvalidMetadata
       (internal ''response stream contained invalid metadata'')), open_state)"
  by (simp_all add: response_accept_def ensure_open_def state_defs
      validate_response_metadata_simps Let_def)

lemma accept_default:
  "response_accept response_state_default frame =
     (case frame of
        Headers m \<Rightarrow> (and_then (validate_response_metadata m) (\<lambda>_. Inr (HeadersEvent m)), open_state)
      | _ \<Rightarrow> response_accept open_state frame)"
  by (simp add: response_accept_def ensure_open_def state_defs Let_def split: response_frame.split)

lemma accept_pending:
  "response_accept (pending_state st) frame =
     (Inl (failure_new TrailingFrame
        (internal ''response stream continued after terminal status'')), pending_state st)"
  by (simp add: response_accept_def ensure_open_def state_defs)

lemma finish_simps:
  "response_finish (pending_state st) =
     (if st_code st = Ok then Inr () else Inl (failure_new RemoteStatus st),
      open_state\<lparr>terminal_status := Some st, finished := True\<rparr>)"
  "response_finish open_state = (Inl (failure_new MissingTerminalStatus
     (internal ''response stream ended before final status'')), open_state\<lparr>finished := True\<rparr>)"
  "response_finish response_state_default = (Inl (failure_new MissingTerminalStatus
     (internal ''response stream ended before final status'')),
     response_state_default\<lparr>finished := True\<rparr>)"
  by (simp_all add: response_finish_def state_defs Let_def)

lemma feed_pending: "feed (pending_state st) frames =
    (if frames = [] then Inr ([], pending_state st)
     else Inl (failure_new TrailingFrame
       (internal ''response stream continued after terminal status'')))"
  by (cases frames) (simp_all add: accept_pending)

text \<open>Failures of the grammar itself, as opposed to a status of the server.\<close>

definition grammar_failure :: "failure \<Rightarrow> bool" where
  "grammar_failure f \<longleftrightarrow>
     fl_kind f \<in> {InvalidMetadata, MisplacedHeaders, MissingTerminalStatus, TrailingFrame}"

definition finish_feed ::
  "failure + (response_event list \<times> response_state) \<Rightarrow> failure + (response_event list \<times> status option)" where
  "finish_feed r = and_then r (\<lambda>(evs, s).
     case response_finish s of (Inl f, _) \<Rightarrow> Inl f | (Inr _, s) \<Rightarrow> Inr (evs, terminal_status s))"

lemma finish_feed_Inl [simp]: "finish_feed (Inl f) = Inl f"
  by (simp add: finish_feed_def)

lemma finish_feed_Cons:
  "finish_feed (and_then (feed s frames) (\<lambda>(evs, s). Inr (ev # evs, s))) =
     and_then (finish_feed (feed s frames)) (\<lambda>(evs, st). Inr (ev # evs, st))"
  by (cases "feed s frames") (auto simp: finish_feed_def split: sum.splits prod.splits)

lemma final_status_Cons: "frames \<noteq> [] \<Longrightarrow> final_status (frame # frames) = final_status frames"
  by (simp add: final_status_def)

lemma messages_then_status_nonempty: "messages_then_status frames \<Longrightarrow> frames \<noteq> []"
  by auto

lemma grammar_failure_new [simp]:
  "grammar_failure (failure_new kind st) \<longleftrightarrow>
     kind \<in> {InvalidMetadata, MisplacedHeaders, MissingTerminalStatus, TrailingFrame}"
  by (simp add: grammar_failure_def failure_new_def)

lemma messages_then_status_Status:
  "messages_then_status (Status st # frames) \<longleftrightarrow> frames = [] \<and> sound_metadata (st_metadata st)"
  by (cases frames) simp_all

definition response_outcome ::
  "response_frame list \<Rightarrow> failure + (response_event list \<times> status option)" where
  "response_outcome frames =
     (if st_code (final_status frames) = Ok
      then Inr (map event_of frames, Some (final_status frames))
      else Inl (failure_new RemoteStatus (final_status frames)))"

lemma run_open:
  "(messages_then_status frames \<longrightarrow> finish_feed (feed open_state frames) = response_outcome frames) \<and>
   (\<not> messages_then_status frames \<longrightarrow>
     (\<exists>f. finish_feed (feed open_state frames) = Inl f \<and> grammar_failure f))"
proof (induction frames)
  case Nil
  show ?case by (simp add: finish_feed_def finish_simps)
next
  case (Cons frame frames)
  show ?case
  proof (cases frame)
    case (Headers m)
    then show ?thesis by (simp add: accept_open)
  next
    case (Message body)
    then have "finish_feed (feed open_state (frame # frames)) =
        and_then (finish_feed (feed open_state frames)) (\<lambda>(evs, st). Inr (MessageEvent body # evs, st))"
      by (simp add: accept_open finish_feed_Cons)
    then show ?thesis
      using Cons.IH Message messages_then_status_nonempty [of frames]
      by (auto simp: response_outcome_def final_status_Cons)
  next
    case (Status st)
    then show ?thesis
      by (cases "sound_metadata (st_metadata st)")
        (auto simp: accept_open feed_pending messages_then_status_Status finish_feed_def finish_simps
          response_outcome_def final_status_def)
  qed
qed

subsection \<open>Properties\<close>

text \<open>
  C7. The response state machine accepts exactly the grammar \<open>[HEADERS] MESSAGE* STATUS\<close> with sound
  metadata, ended by a clean end of stream. On such a sequence every frame is delivered as its
  event, in order, and the last one's status is committed: an \<open>OK\<close> completes the call and any
  other status is the call's failure. Every other sequence is refused with a failure of the
  grammar and never with a status the server did not send.
\<close>

theorem response_grammar_exact:
  "if response_grammar frames then run_response frames = response_outcome frames
   else \<exists>f. run_response frames = Inl f \<and> grammar_failure f"
proof (cases frames)
  case Nil
  then show ?thesis by (simp add: run_response_def finish_simps)
next
  case (Cons frame rest)
  have run: "run_response frames = finish_feed (feed response_state_default frames)"
    by (simp add: run_response_def finish_feed_def)
  show ?thesis
  proof (cases "\<exists>m. frame = Headers m")
    case True
    then obtain m where m: "frame = Headers m" by blast
    show ?thesis
    proof (cases "sound_metadata m")
      case True
      then have "run_response frames = and_then (finish_feed (feed open_state rest))
          (\<lambda>(evs, st). Inr (HeadersEvent m # evs, st))"
        unfolding run unfolding Cons m
        by (simp add: accept_default validate_response_metadata_simps finish_feed_Cons)
      then show ?thesis
        using run_open [of rest] True Cons m messages_then_status_nonempty [of rest]
        by (auto simp: response_outcome_def final_status_Cons)
    next
      case False
      then show ?thesis
        unfolding run unfolding Cons m
        by (simp add: accept_default validate_response_metadata_simps)
    qed
  next
    case False
    then have "feed response_state_default frames = feed open_state frames"
      "response_grammar frames \<longleftrightarrow> messages_then_status frames"
      by (cases frame; simp add: Cons accept_default)+
    then show ?thesis using run_open [of frames] by (simp add: run)
  qed
qed

text \<open>What a unary response is to be: one message, and a status that commits.\<close>

definition commits :: "status \<Rightarrow> bool" where
  "commits st \<longleftrightarrow> sound_metadata (st_metadata st) \<and> st_code st = Ok"

fun unary_shape :: "response_frame list \<Rightarrow> response_envelope option" where
  "unary_shape [Headers m, Message body, Status st] =
     (if sound_metadata m \<and> commits st
      then Some \<lparr>re_message = body, re_headers = m, re_metadata = st_metadata st\<rparr> else None)"
| "unary_shape [Message body, Status st] =
     (if commits st
      then Some \<lparr>re_message = body, re_headers = [], re_metadata = st_metadata st\<rparr> else None)"
| "unary_shape _ = None"

definition open_unary :: "metadata \<Rightarrow> bytes option \<Rightarrow> unary_response" where
  "open_unary h body = \<lparr>ur_state = open_state, ur_headers = h, ur_message = body\<rparr>"

definition finish_unary_feed :: "status + unary_response \<Rightarrow> response_envelope option" where
  "finish_unary_feed r = ok (and_then r unary_finish)"

lemma finish_unary_feed_Inl [simp]: "finish_unary_feed (Inl st) = None"
  by (simp add: finish_unary_feed_def)

lemma unary_finish_pending:
  "unary_finish (u\<lparr>ur_state := pending_state st\<rparr>) =
     (if st_code st \<noteq> Ok then Inl st
      else case ur_message u of
        None \<Rightarrow> Inl (internal ''unary response contained no message'')
      | Some body \<Rightarrow>
          Inr \<lparr>re_message = body, re_headers = ur_headers u, re_metadata = st_metadata st\<rparr>)"
  by (simp add: unary_finish_def finish_simps failure_new_def response_envelope_new_def
      split: option.split)

lemma feed_unary_pending:
  "feed_unary (u\<lparr>ur_state := pending_state st\<rparr>) frames =
     (if frames = [] then Inr (u\<lparr>ur_state := pending_state st\<rparr>)
      else Inl (internal ''response stream continued after terminal status''))"
  by (cases frames) (simp_all add: unary_accept_def accept_pending failure_new_def)

lemma unary_status:
  "finish_unary_feed (feed_unary (open_unary h body) (Status st # frames)) =
     (if frames = [] \<and> commits st
      then map_option (\<lambda>b. \<lparr>re_message = b, re_headers = h, re_metadata = st_metadata st\<rparr>) body
      else None)"
proof (cases "sound_metadata (st_metadata st)")
  case True
  then have "unary_accept (open_unary h body) (Status st) =
      (Inr True, (open_unary h body)\<lparr>ur_state := pending_state st\<rparr>)"
    by (simp add: unary_accept_def open_unary_def accept_open)
  with True show ?thesis
    by (simp add: feed_unary_pending finish_unary_feed_def unary_finish_pending commits_def)
      (simp add: open_unary_def split: option.split)
next
  case False
  then have "unary_accept (open_unary h body) (Status st) =
      (Inl (internal ''response stream contained invalid metadata''), open_unary h body)"
    by (simp add: unary_accept_def open_unary_def accept_open failure_new_def)
  with False show ?thesis
    by (simp add: commits_def)
qed

lemma unary_accept_open:
  "unary_accept (open_unary h body) (Message b) =
     (if body \<noteq> None then Inl (internal ''unary response contained more than one message'')
      else Inr False, open_unary h (Some b))"
  "unary_accept (open_unary h body) (Headers m) =
     (Inl (internal ''response stream sent HEADERS after another response frame''),
      open_unary h body)"
  by (simp_all add: unary_accept_def open_unary_def accept_open failure_new_def)

lemma unary_finish_open: "\<exists>st. unary_finish (open_unary h body) = Inl st"
  by (simp add: unary_finish_def open_unary_def finish_simps)

lemma unary_open_some:
  "finish_unary_feed (feed_unary (open_unary h (Some body)) frames) =
     (case frames of
        [Status st] \<Rightarrow>
          if commits st
          then Some \<lparr>re_message = body, re_headers = h, re_metadata = st_metadata st\<rparr> else None
      | _ \<Rightarrow> None)"
proof (cases frames)
  case Nil
  then show ?thesis using unary_finish_open [of h "Some body"] by (auto simp: finish_unary_feed_def)
next
  case (Cons frame rest)
  show ?thesis
  proof (cases frame)
    case (Status st)
    with Cons show ?thesis using unary_status [of h "Some body" st rest]
      by (simp del: feed_unary.simps split: list.split)
  qed (simp_all add: Cons unary_accept_open split: list.split)
qed

lemma unary_open_none:
  "finish_unary_feed (feed_unary (open_unary h None) frames) =
     (case frames of
        Message body # rest \<Rightarrow> finish_unary_feed (feed_unary (open_unary h (Some body)) rest)
      | _ \<Rightarrow> None)"
proof (cases frames)
  case Nil
  then show ?thesis using unary_finish_open [of h None] by (auto simp: finish_unary_feed_def)
next
  case (Cons frame rest)
  show ?thesis
  proof (cases frame)
    case (Status st)
    with Cons show ?thesis using unary_status [of h None st rest]
      by (simp del: feed_unary.simps)
  qed (simp_all add: Cons unary_accept_open)
qed

text \<open>
  C33. A unary response is accepted exactly when it is \<open>[HEADERS] MESSAGE STATUS\<close> with sound metadata
  and an \<open>OK\<close> status, and then the envelope holds that message, those headers (none without a
  HEADERS frame) and the metadata of that status.
\<close>

theorem unary_response_exact: "ok (run_unary frames) = unary_shape frames"
proof (cases frames)
  case Nil
  then show ?thesis
    by (simp add: run_unary_def unary_finish_def unary_response_default_def finish_simps)
next
  case (Cons frame rest)
  have run: "ok (run_unary frames) = finish_unary_feed (feed_unary unary_response_default frames)"
    by (simp add: run_unary_def finish_unary_feed_def)
  show ?thesis
  proof (cases "\<exists>m. frame = Headers m")
    case True
    then obtain m where m: "frame = Headers m" by blast
    have "ok (run_unary frames) =
        (if sound_metadata m then finish_unary_feed (feed_unary (open_unary m None) rest) else None)"
      unfolding run unfolding Cons m
      by (simp add: unary_accept_def unary_response_default_def accept_default open_unary_def
          validate_response_metadata_simps)
    then show ?thesis
      by (simp add: Cons m unary_open_some unary_open_none split: list.split response_frame.split)
  next
    case False
    then have "unary_accept unary_response_default frame = unary_accept (open_unary [] None) frame"
      by (cases frame) (simp_all add: unary_accept_def unary_response_default_def accept_default
          open_unary_def split: prod.split sum.split response_event.split)
    then have "feed_unary unary_response_default frames = feed_unary (open_unary [] None) frames"
      by (simp add: Cons)
    then have "ok (run_unary frames) = finish_unary_feed (feed_unary (open_unary [] None) frames)"
      by (simp add: run)
    then show ?thesis
      unfolding unary_open_none using False
      by (simp add: Cons unary_open_some split: list.split response_frame.split)
  qed
qed

end
