(* ===== verification/Response_Metadata.thy ===== *)
theory Response_Metadata
  imports Response_State "HOL-Library.AList"
begin

text \<open>
  The response metadata a handler sets, \<open>response.rs\<close>: headers and trailing metadata, each checked
  when it is set and closed when the server takes it. Metadata maps are association lists with
  distinct keys, so \<open>HashMap::insert\<close> is \<open>AList.update\<close> and \<open>HashMap::remove\<close> is
  \<open>AList.delete\<close>.
\<close>

record response_metadata_state =
  rm_headers :: metadata
  rm_metadata :: metadata
  rm_headers_sent :: bool
  rm_metadata_sent :: bool

datatype response_metadata_kind = KHeaders | KTrailers

definition response_metadata_default :: response_metadata_state where
  "response_metadata_default =
     \<lparr>rm_headers = [], rm_metadata = [], rm_headers_sent = False, rm_metadata_sent = False\<rparr>"

text \<open>The mutable borrow of the chosen map: reading it, and writing it back.\<close>

fun rm_target :: "response_metadata_kind \<Rightarrow> response_metadata_state \<Rightarrow> metadata" where
  "rm_target KHeaders s = rm_headers s"
| "rm_target KTrailers s = rm_metadata s"

fun rm_sent :: "response_metadata_kind \<Rightarrow> response_metadata_state \<Rightarrow> bool" where
  "rm_sent KHeaders s = rm_headers_sent s"
| "rm_sent KTrailers s = rm_metadata_sent s"

fun rm_put :: "response_metadata_kind \<Rightarrow> metadata \<Rightarrow> response_metadata_state \<Rightarrow> response_metadata_state" where
  "rm_put KHeaders m s = s\<lparr>rm_headers := m\<rparr>"
| "rm_put KTrailers m s = s\<lparr>rm_metadata := m\<rparr>"

fun rm_what :: "response_metadata_kind \<Rightarrow> string" where
  "rm_what KHeaders = ''response headers''"
| "rm_what KTrailers = ''response metadata''"

definition state_set ::
  "response_metadata_state \<Rightarrow> response_metadata_kind \<Rightarrow> string \<Rightarrow> bytes \<Rightarrow>
     (status + unit) \<times> response_metadata_state" where
  "state_set s kind key val =
     (if rm_sent kind s then (Inl (internal (rm_what kind @ '' already sent'')), s)
      else
        (let target = rm_target kind s;
             previous = map_of target key;
             target = AList.update key val target in
         case validate_metadata target of
           Inl st \<Rightarrow>
             (Inl (internal (''invalid '' @ rm_what kind @ '': '' @ st_message st)),
              rm_put kind
                (case previous of
                   Some p \<Rightarrow> AList.update key p target
                 | None \<Rightarrow> AList.delete key target) s)
         | Inr _ \<Rightarrow> (Inr (), rm_put kind target s)))"

definition metadata_set ::
  "response_metadata_state \<Rightarrow> response_metadata_kind \<Rightarrow> string \<Rightarrow> bytes \<Rightarrow>
     (status + unit) \<times> response_metadata_state" where
  "metadata_set s kind key val = state_set s kind (normalize_metadata_key key) val"

definition set_header ::
  "response_metadata_state \<Rightarrow> string \<Rightarrow> bytes \<Rightarrow> (status + unit) \<times> response_metadata_state" where
  "set_header s key val = metadata_set s KHeaders key val"

definition set_metadata ::
  "response_metadata_state \<Rightarrow> string \<Rightarrow> bytes \<Rightarrow> (status + unit) \<times> response_metadata_state" where
  "set_metadata s key val = metadata_set s KTrailers key val"

definition take_headers :: "response_metadata_state \<Rightarrow> metadata \<times> response_metadata_state" where
  "take_headers s = (rm_headers s, s\<lparr>rm_headers_sent := True, rm_headers := []\<rparr>)"

definition take_metadata :: "response_metadata_state \<Rightarrow> metadata \<times> response_metadata_state" where
  "take_metadata s =
     (rm_metadata s, s\<lparr>rm_headers_sent := True, rm_metadata_sent := True, rm_metadata := []\<rparr>)"

subsection \<open>Reachable states\<close>

inductive handler_run :: "response_metadata_state \<Rightarrow> response_metadata_state \<Rightarrow> bool"
  for s0 where
  start: "handler_run s0 s0"
| header: "handler_run s0 s \<Longrightarrow> handler_run s0 (snd (set_header s key val))"
| trailer: "handler_run s0 s \<Longrightarrow> handler_run s0 (snd (set_metadata s key val))"
| headers_taken: "handler_run s0 s \<Longrightarrow> handler_run s0 (snd (take_headers s))"
| metadata_taken: "handler_run s0 s \<Longrightarrow> handler_run s0 (snd (take_metadata s))"

definition handler_reach :: "response_metadata_state \<Rightarrow> bool" where
  "handler_reach s \<longleftrightarrow> handler_run response_metadata_default s"

definition headers_closed :: "response_metadata_state \<Rightarrow> bool" where
  "headers_closed s \<longleftrightarrow> take_headers s = ([], s) \<and>
     (\<forall>key val. set_header s key val = (Inl (internal ''response headers already sent''), s))"

definition trailers_closed :: "response_metadata_state \<Rightarrow> bool" where
  "trailers_closed s \<longleftrightarrow> fst (take_metadata s) = [] \<and>
     (\<forall>key val. set_metadata s key val = (Inl (internal ''response metadata already sent''), s))"

definition handler_inv :: "response_metadata_state \<Rightarrow> bool" where
  "handler_inv s \<longleftrightarrow> sound_metadata (rm_headers s) \<and> sound_metadata (rm_metadata s) \<and>
     distinct (map fst (rm_headers s)) \<and> distinct (map fst (rm_metadata s)) \<and>
     (rm_metadata_sent s \<longrightarrow> rm_headers_sent s \<and> rm_metadata s = [])"

lemma update_restore: "map_of m key = Some p \<Longrightarrow> AList.update key p m = m"
  by (induction m) auto

lemma delete_update: "map_of m key = None \<Longrightarrow> AList.delete key (AList.update key v m) = m"
  by (induction m) (auto simp: AList.delete_eq)

lemma sound_metadata_Nil [simp]: "sound_metadata []"
  by (simp add: sound_metadata_def validate_metadata_def)

lemma rm_put_same: "rm_put kind (rm_target kind s) s = s"
  by (cases kind) simp_all

text \<open>A refused value leaves the state as it was.\<close>

lemma state_set_refused: "fst (state_set s kind key val) = Inl st \<Longrightarrow> snd (state_set s kind key val) = s"
  by (auto simp: state_set_def Let_def update_restore delete_update rm_put_same
      split: if_splits option.split sum.splits)

lemma state_set_accepted:
  assumes "fst (state_set s kind key val) = Inr ()"
  shows "\<not> rm_sent kind s" "sound_metadata (AList.update key val (rm_target kind s))"
    and "snd (state_set s kind key val) = rm_put kind (AList.update key val (rm_target kind s)) s"
  using assms
  by (auto simp: state_set_def Let_def sound_metadata_def split: if_splits sum.splits)

lemma state_set_inv: "handler_inv s \<Longrightarrow> handler_inv (snd (state_set s kind key val))"
proof (cases "fst (state_set s kind key val)")
  case (Inl st)
  then show "handler_inv s \<Longrightarrow> ?thesis" by (simp add: state_set_refused)
next
  case (Inr u)
  then have "fst (state_set s kind key val) = Inr ()" by simp
  from state_set_accepted [OF this] show "handler_inv s \<Longrightarrow> ?thesis"
    by (cases kind) (auto simp: handler_inv_def distinct_update)
qed

lemma handler_reach_inv: "handler_reach s \<Longrightarrow> handler_inv s"
  unfolding handler_reach_def
  by (induction rule: handler_run.induct)
    (simp_all add: set_header_def set_metadata_def metadata_set_def state_set_inv,
     simp_all add: handler_inv_def response_metadata_default_def take_headers_def take_metadata_def)

text \<open>What was taken stays closed, whatever is called afterwards.\<close>

lemma headers_closedI: "rm_headers_sent s \<Longrightarrow> rm_headers s = [] \<Longrightarrow> headers_closed s"
  by (cases s) (simp add: headers_closed_def take_headers_def set_header_def metadata_set_def state_set_def)

lemma trailers_closedI: "rm_metadata_sent s \<Longrightarrow> rm_metadata s = [] \<Longrightarrow> trailers_closed s"
  by (simp add: trailers_closed_def take_metadata_def set_metadata_def metadata_set_def state_set_def)

lemma state_set_sent:
  "rm_sent kind (snd (state_set s kind' key val)) = rm_sent kind s"
  "rm_sent kind s \<Longrightarrow> rm_target kind (snd (state_set s kind' key val)) = rm_target kind s"
  by (cases kind; cases kind'; simp add: state_set_def Let_def split: sum.split option.split)+

lemma sent_stays:
  "handler_run s0 s \<Longrightarrow> rm_sent kind s0 \<Longrightarrow>
     rm_sent kind s \<and> (rm_target kind s0 = [] \<longrightarrow> rm_target kind s = [])"
  by (induction rule: handler_run.induct)
    (auto simp: set_header_def set_metadata_def metadata_set_def state_set_sent,
     (cases kind; simp add: take_headers_def take_metadata_def)+)

lemma set_accepted_iff:
  "is_ok (fst (state_set s kind key val)) \<longleftrightarrow>
     \<not> rm_sent kind s \<and> sound_metadata (AList.update key val (rm_target kind s))"
  by (auto simp: state_set_def Let_def sound_metadata_def is_ok_iff split: sum.split)

text \<open>
  C34. Whatever a handler sets and in whatever order, the headers and the trailing metadata the
  server takes are sound, so the client's state machine accepts the HEADERS frame and the STATUS
  frame that carry them. A value is accepted exactly when its kind was not sent yet and the
  metadata stays sound with it, and then it is what the server takes; a value that is refused
  changes nothing. Once the headers are taken, whatever is called afterwards, every header is
  refused as already sent and there are no more headers to take; once the trailing metadata is
  taken, the same is so of every header and of all trailing metadata.
\<close>

theorem handler_metadata_sendable:
  assumes "handler_reach s"
  shows "fst (response_accept response_state_default (Headers (fst (take_headers s)))) =
      Inr (HeadersEvent (rm_headers s)) \<and>
    response_grammar [Headers (fst (take_headers s)),
      Status (with_metadata status_ok (fst (take_metadata s)))] \<and>
    (\<forall>key val st. fst (set_header s key val) = Inl st \<longrightarrow> snd (set_header s key val) = s) \<and>
    (\<forall>key val st. fst (set_metadata s key val) = Inl st \<longrightarrow> snd (set_metadata s key val) = s) \<and>
    (\<forall>key val. is_ok (fst (set_header s key val)) \<longleftrightarrow>
       \<not> rm_headers_sent s \<and> sound_metadata (AList.update (normalize_metadata_key key) val (rm_headers s))) \<and>
    (\<forall>key val. is_ok (fst (set_metadata s key val)) \<longleftrightarrow>
       \<not> rm_metadata_sent s \<and> sound_metadata (AList.update (normalize_metadata_key key) val (rm_metadata s))) \<and>
    (\<forall>key val. is_ok (fst (set_header s key val)) \<longrightarrow>
       fst (take_headers (snd (set_header s key val))) =
         AList.update (normalize_metadata_key key) val (rm_headers s)) \<and>
    (\<forall>key val. is_ok (fst (set_metadata s key val)) \<longrightarrow>
       fst (take_metadata (snd (set_metadata s key val))) =
         AList.update (normalize_metadata_key key) val (rm_metadata s)) \<and>
    (\<forall>s'. handler_run (snd (take_headers s)) s' \<longrightarrow> headers_closed s') \<and>
    (\<forall>s'. handler_run (snd (take_metadata s)) s' \<longrightarrow> trailers_closed s' \<and>
       (\<forall>key val. set_header s' key val = (Inl (internal ''response headers already sent''), s')))"
proof -
  note inv = handler_reach_inv [OF assms]
  note set_defs = set_header_def set_metadata_def metadata_set_def
  have sent: "fst (response_accept response_state_default (Headers (fst (take_headers s)))) =
      Inr (HeadersEvent (rm_headers s))"
    "response_grammar [Headers (fst (take_headers s)),
      Status (with_metadata status_ok (fst (take_metadata s)))]"
    using inv by (simp_all add: handler_inv_def take_headers_def take_metadata_def accept_default
        validate_response_metadata_simps with_metadata_def)
  have refused: "fst (set_header s key val) = Inl st \<Longrightarrow> snd (set_header s key val) = s"
    "fst (set_metadata s key val) = Inl st \<Longrightarrow> snd (set_metadata s key val) = s" for key val st
    by (simp_all add: set_defs state_set_refused)
  have accepted: "is_ok (fst (set_header s key val)) \<Longrightarrow>
      fst (take_headers (snd (set_header s key val))) =
        AList.update (normalize_metadata_key key) val (rm_headers s)"
    "is_ok (fst (set_metadata s key val)) \<Longrightarrow>
      fst (take_metadata (snd (set_metadata s key val))) =
        AList.update (normalize_metadata_key key) val (rm_metadata s)" for key val
    by (auto simp: set_defs is_ok_iff take_headers_def take_metadata_def dest!: state_set_accepted(3))
  have headers: "headers_closed s'" if "handler_run (snd (take_headers s)) s'" for s'
    using sent_stays [OF that, of KHeaders] by (simp add: headers_closedI take_headers_def)
  have trailers: "trailers_closed s'"
    "set_header s' key val = (Inl (internal ''response headers already sent''), s')"
    if "handler_run (snd (take_metadata s)) s'" for s' key val
    using sent_stays [OF that, of KTrailers] sent_stays [OF that, of KHeaders]
    by (simp_all add: trailers_closedI take_metadata_def set_defs state_set_def)
  show ?thesis
    using sent refused accepted headers trailers
    by (simp add: set_defs set_accepted_iff)
qed

theorem handler_metadata_sendable_witness:
  "fst (take_headers (snd (set_header response_metadata_default ''X-Id'' [7]))) = [(''x-id'', [7])] \<and>
   response_grammar [Headers [(''x-id'', [7])], Status status_ok] \<and>
   headers_closed (snd (take_headers (snd (set_header response_metadata_default ''X-Id'' [7]))))"
proof -
  let ?s = "snd (set_header response_metadata_default ''X-Id'' [7])"
  have "normalize_metadata_key ''X-Id'' = ''x-id''" "valid_key ''x-id''"
    by code_simp+
  moreover from this have "validate_metadata [(''x-id'', [7])] = Inr ()"
    by (simp add: validate_metadata_ok_iff metadata_size_def)
  ultimately have "?s = response_metadata_default\<lparr>rm_headers := [(''x-id'', [7])]\<rparr>"
    by (simp add: set_header_def metadata_set_def state_set_def response_metadata_default_def
        Let_def)
  moreover have "handler_reach ?s" unfolding handler_reach_def by (intro handler_run.intros)
  moreover have "with_metadata status_ok [] = status_ok"
    by (simp add: with_metadata_def status_ok_def status_new_def)
  ultimately show ?thesis
    using handler_metadata_sendable [of ?s] handler_run.start [of "snd (take_headers ?s)"]
    by (simp add: take_headers_def take_metadata_def response_metadata_default_def)
qed

end
