(* ===== verification/Compression.thy ===== *)
theory Compression
  imports Framing
begin

unbundle bit_operations_syntax

text \<open>
  Per-message compression, \<open>compression.rs\<close>: dictionaries, the configuration, the header check of
  \<open>ZSTD_MESSAGE\<close> payloads and the negotiation between client and server. The zstd library and
  SHA-256 are the record \<open>Z\<close> of functions; the pools of library contexts, which only save their
  setup, are left out. Hash maps are association lists, and \<open>Arc\<close>s the values they share.
\<close>

subsection \<open>Dictionaries\<close>

text \<open>
  The library: compressing and decompressing with a dictionary's bytes (empty without one) at a
  level, decompressing into a buffer of the announced size, whether it accepts a dictionary, and
  the SHA-256 digest.
\<close>

record zstd_lib =
  z_compress :: "bytes \<Rightarrow> int \<Rightarrow> bytes \<Rightarrow> string + bytes"
  z_decompress :: "bytes \<Rightarrow> nat \<Rightarrow> bytes \<Rightarrow> string + bytes"
  z_accepts :: "bytes \<Rightarrow> string + unit"
  z_sha256 :: "bytes \<Rightarrow> bytes"

record dictionary =
  dc_data :: bytes
  dc_messages :: "string list"

definition dictionary_new :: "bytes \<Rightarrow> dictionary" where
  "dictionary_new data = \<lparr>dc_data = data, dc_messages = []\<rparr>"

definition with_messages :: "dictionary \<Rightarrow> string list \<Rightarrow> dictionary" where
  "with_messages d names = d\<lparr>dc_messages := dc_messages d @ names\<rparr>"

record compression =
  co_dictionaries :: "dictionary list"
  co_level :: int

definition compression_new :: compression where
  "compression_new = \<lparr>co_dictionaries = [], co_level = 0\<rparr>"

definition with_dictionary :: "compression \<Rightarrow> dictionary \<Rightarrow> compression" where
  "with_dictionary c d = c\<lparr>co_dictionaries := co_dictionaries c @ [d]\<rparr>"

definition with_level :: "compression \<Rightarrow> int \<Rightarrow> compression" where
  "with_level c level = c\<lparr>co_level := level\<rparr>"

record compress_messages =
  cmp_requests :: bool
  cmp_responses :: bool

definition compress_none :: compress_messages where
  "compress_none = \<lparr>cmp_requests = False, cmp_responses = False\<rparr>"

definition compress_any :: "compress_messages \<Rightarrow> bool" where
  "compress_any c \<longleftrightarrow> cmp_requests c \<or> cmp_responses c"

definition PLAIN_MIN_SIZE :: nat where
  "PLAIN_MIN_SIZE = 256"

definition PLAIN_ID :: u32 where
  "PLAIN_ID = 0"

definition DICTIONARY_MAGIC :: u32 where
  "DICTIONARY_MAGIC = 0xEC30A437"

record dict =
  d_id :: u32
  d_info :: dictionary_info
  d_data :: bytes
  d_level :: int

text \<open>\<open>PartialEq\<close>: dictionaries are the same when their IDs and fingerprints are.\<close>

definition same_dict :: "dict \<Rightarrow> dict \<Rightarrow> bool" where
  "same_dict d d' \<longleftrightarrow> d_info d = d_info d'"

definition dict_in :: "dict \<Rightarrow> dict list \<Rightarrow> bool" where
  "dict_in d ds = list_ex (\<lambda>d'. same_dict d' d) ds"

definition u32_from_le_bytes :: "bytes \<Rightarrow> u32" where
  "u32_from_le_bytes bs = of_nat (from_le_bytes bs)"

definition dictionary_id :: "bytes \<Rightarrow> u32 option" where
  "dictionary_id data =
     Option.bind (get_to data 4) (\<lambda>magic.
     Option.bind (get_range data 4 8) (\<lambda>id.
       if u32_from_le_bytes magic \<noteq> DICTIONARY_MAGIC then None
       else (let id = u32_from_le_bytes id in if id \<noteq> 0 then Some id else None)))"

definition fingerprint :: "zstd_lib \<Rightarrow> bytes \<Rightarrow> bytes" where
  "fingerprint Z data = (case get_to (z_sha256 Z data) 8 of Some bs \<Rightarrow> bs | None \<Rightarrow> [])"

definition zstd_error :: "string \<Rightarrow> error" where
  "zstd_error name = EStatus (internal (''zstd: '' @ name))"

definition dict_new :: "zstd_lib \<Rightarrow> bytes \<Rightarrow> int \<Rightarrow> dict result" where
  "dict_new Z data level =
     and_then (ok_or (dictionary_id data) (EStatus (invalid_argument
         ''compression dictionary is not a zstd-format dictionary with an ID''))) (\<lambda>id.
     and_then (map_err zstd_error (z_accepts Z data)) (\<lambda>_.
       Inr \<lparr>d_id = id, d_info = \<lparr>di_id = id, di_fingerprint = fingerprint Z data\<rparr>,
            d_data = data, d_level = level\<rparr>))"

definition dict_plain :: "int \<Rightarrow> dict" where
  "dict_plain level =
     \<lparr>d_id = PLAIN_ID, d_info = \<lparr>di_id = PLAIN_ID, di_fingerprint = []\<rparr>, d_data = [],
      d_level = level\<rparr>"

definition is_plain :: "dict \<Rightarrow> bool" where
  "is_plain d \<longleftrightarrow> d_id d = PLAIN_ID"

definition dict_compress :: "zstd_lib \<Rightarrow> dict \<Rightarrow> bytes \<Rightarrow> bytes option" where
  "dict_compress Z d message =
     (if is_plain d \<and> length message < PLAIN_MIN_SIZE then None
      else
        (case z_compress Z (d_data d) (d_level d) message of
           Inr payload \<Rightarrow> if length payload < length message then Some payload else None
         | Inl _ \<Rightarrow> None))"

record zstd_header =
  zh_dict_id :: u32
  zh_content_size :: u64

definition dict_decompress :: "zstd_lib \<Rightarrow> dict \<Rightarrow> bytes \<Rightarrow> zstd_header \<Rightarrow> string + bytes" where
  "dict_decompress Z d payload header =
     (let sz = unat (zh_content_size header) in
      case z_decompress Z (d_data d) sz payload of
        Inr message \<Rightarrow>
          if length message = sz then Inr message
          else Inl ''compressed message decompressed to the wrong size''
      | Inl name \<Rightarrow> Inl (''compressed message is corrupt: '' @ name))"

subsection \<open>The configuration\<close>

record compression_config =
  cf_by_id :: "(u32 \<times> dict) list"
  cf_by_type :: "(string \<times> dict) list"
  cf_plain :: dict
  cf_query :: "dictionary_info list"
  cf_level :: int

definition without_dictionaries :: "int \<Rightarrow> compression_config" where
  "without_dictionaries level =
     (let plain = dict_plain level in
      \<lparr>cf_by_id = [(PLAIN_ID, plain)], cf_by_type = [], cf_plain = plain, cf_query = [d_info plain],
       cf_level = level\<rparr>)"

definition plain_only :: compression_config where
  "plain_only = without_dictionaries 1"

text \<open>\<open>str::split\<close> at a character: the parts between its occurrences.\<close>

fun split_on :: "char \<Rightarrow> string \<Rightarrow> string list" where
  "split_on d [] = [[]]"
| "split_on d (c # s) =
     (if c = d then [] # split_on d s
      else (case split_on d s of [] \<Rightarrow> [[c]] | p # ps \<Rightarrow> (c # p) # ps))"

definition is_ascii_alphabetic :: "char \<Rightarrow> bool" where
  "is_ascii_alphabetic c \<longleftrightarrow>
     (let b = (of_char c :: nat) in (65 \<le> b \<and> b \<le> 90) \<or> (97 \<le> b \<and> b \<le> 122))"

definition is_ascii_digit :: "char \<Rightarrow> bool" where
  "is_ascii_digit c \<longleftrightarrow> (let b = (of_char c :: nat) in 48 \<le> b \<and> b \<le> 57)"

definition is_ascii_alphanumeric :: "char \<Rightarrow> bool" where
  "is_ascii_alphanumeric c \<longleftrightarrow> is_ascii_alphabetic c \<or> is_ascii_digit c"

definition valid_full_name :: "string \<Rightarrow> bool" where
  "valid_full_name name \<longleftrightarrow>
     name \<noteq> [] \<and>
     list_all (\<lambda>part.
       case part of
         [] \<Rightarrow> False
       | first # chars \<Rightarrow>
           (is_ascii_alphabetic first \<or> first = CHR ''_'') \<and>
           list_all (\<lambda>c. is_ascii_alphanumeric c \<or> c = CHR ''_'') chars)
       (split_on (CHR ''.'') name)"

fun add_types :: "dict \<Rightarrow> string list \<Rightarrow> compression_config \<Rightarrow> compression_config result" where
  "add_types d [] cfg = Inr cfg"
| "add_types d (name # names) cfg =
     (if \<not> valid_full_name name then
        Inl (EStatus (invalid_argument ''invalid message type {} in compression dictionary {}''))
      else if map_of (cf_by_type cfg) name \<noteq> None then
        Inl (EStatus (invalid_argument ''message type {} is in two compression dictionaries''))
      else add_types d names (cfg\<lparr>cf_by_type := (name, d) # cf_by_type cfg\<rparr>))"

fun add_dictionaries ::
  "zstd_lib \<Rightarrow> int \<Rightarrow> dictionary list \<Rightarrow> compression_config \<Rightarrow> compression_config result" where
  "add_dictionaries Z level [] cfg = Inr cfg"
| "add_dictionaries Z level (dictionary # ds) cfg =
     and_then (dict_new Z (dc_data dictionary) level) (\<lambda>d.
       if map_of (cf_by_id cfg) (d_id d) \<noteq> None then
         Inl (EStatus (invalid_argument ''compression dictionaries share ID {}''))
       else
         and_then (add_types d (dc_messages dictionary) (cfg\<lparr>cf_query := cf_query cfg @ [d_info d]\<rparr>))
           (\<lambda>cfg. add_dictionaries Z level ds (cfg\<lparr>cf_by_id := (d_id d, d) # cf_by_id cfg\<rparr>)))"

definition config_new :: "zstd_lib \<Rightarrow> compression \<Rightarrow> compression_config result" where
  "config_new Z c =
     (let level = (if co_level c = 0 then 1 else co_level c);
          cfg = (without_dictionaries level)\<lparr>cf_query := []\<rparr> in
      and_then (add_dictionaries Z level (co_dictionaries c) cfg) (\<lambda>cfg.
        Inr (cfg\<lparr>cf_query := cf_query cfg @ [d_info (cf_plain cfg)]\<rparr>)))"

definition stream_dictionaries :: "compression_config \<Rightarrow> dict list" where
  "stream_dictionaries cfg = filter (\<lambda>d. \<not> is_plain d) (map snd (cf_by_id cfg))"

definition config_dict :: "compression_config \<Rightarrow> u32 \<Rightarrow> dict option" where
  "config_dict cfg dict_id = map_of (cf_by_id cfg) dict_id"

definition config_level :: "compression_config option \<Rightarrow> int" where
  "config_level cfg = (case cfg of None \<Rightarrow> 1 | Some cfg \<Rightarrow> cf_level cfg)"

definition dict_for_type :: "compression_config \<Rightarrow> string option \<Rightarrow> dict option" where
  "dict_for_type cfg name = Option.bind name (map_of (cf_by_type cfg))"

definition option_filter :: "('a \<Rightarrow> bool) \<Rightarrow> 'a option \<Rightarrow> 'a option" where
  "option_filter p x = (case x of Some a \<Rightarrow> if p a then Some a else None | None \<Rightarrow> None)"

definition dict_for ::
  "compression_config \<Rightarrow> string option \<Rightarrow> bool \<Rightarrow> (dict \<Rightarrow> bool) \<Rightarrow> dict option" where
  "dict_for cfg name plain usable =
     (case option_filter usable (dict_for_type cfg name) of
        Some d \<Rightarrow> Some d
      | None \<Rightarrow> if plain then option_filter usable (Some (cf_plain cfg)) else None)"

definition config_matches :: "compression_config \<Rightarrow> dictionary_info \<Rightarrow> dict option" where
  "config_matches cfg info = option_filter (\<lambda>d. d_info d = info) (config_dict cfg (di_id info))"

subsection \<open>Receiving compressed messages\<close>

text \<open>\<open>MessageCount\<close>: a counter, or none, that wraps like the atomic it is.\<close>

type_synonym message_count = "u64 option"

definition message_count_new :: message_count where
  "message_count_new = Some 0"

definition message_count_add :: "message_count \<Rightarrow> message_count" where
  "message_count_add c = map_option (\<lambda>n. n + 1) c"

definition message_count_get :: "message_count \<Rightarrow> u64" where
  "message_count_get c = (case c of None \<Rightarrow> 0 | Some n \<Rightarrow> n)"

datatype accept =
  AcceptNone | AcceptOne dict | AcceptAll compression_config message_count

definition config_or_plain :: "compression_config option \<Rightarrow> compression_config" where
  "config_or_plain cfg = (case cfg of None \<Rightarrow> plain_only | Some cfg \<Rightarrow> cfg)"

definition accept_server :: "compression_config option \<Rightarrow> accept" where
  "accept_server cfg = AcceptAll (config_or_plain cfg) message_count_new"

fun accept_lookup :: "accept \<Rightarrow> u32 \<Rightarrow> dict option" where
  "accept_lookup AcceptNone dict_id = None"
| "accept_lookup (AcceptOne d) dict_id = (if d_id d = dict_id then Some d else None)"
| "accept_lookup (AcceptAll cfg _) dict_id = config_dict cfg dict_id"

fun plain_count :: "accept \<Rightarrow> message_count" where
  "plain_count (AcceptAll _ counter) = counter"
| "plain_count AcceptNone = None"
| "plain_count (AcceptOne _) = None"

text \<open>Counting through the shared counter of an \<open>Accept\<close>.\<close>

fun count_plain :: "accept \<Rightarrow> accept" where
  "count_plain (AcceptAll cfg counter) = AcceptAll cfg (message_count_add counter)"
| "count_plain AcceptNone = AcceptNone"
| "count_plain (AcceptOne d) = AcceptOne d"

definition little_endian :: "bytes \<Rightarrow> u64 option" where
  "little_endian bs = (if length bs \<le> 8 then Some (of_nat (from_le_bytes bs)) else None)"

text \<open>The loop of \<open>parse_header\<close> over the block headers: what follows the last block.\<close>

function skip_blocks :: "bytes \<Rightarrow> bytes option" where
  "skip_blocks rest =
     (case split_at_checked rest 3 of
        None \<Rightarrow> None
      | Some (header, after) \<Rightarrow>
          (let block_header = u32_from_le_bytes (header @ [0]);
               sz = unat (drop_bit 3 block_header);
               kind = drop_bit 1 block_header AND 0x03;
               content_len = (if kind = 0 \<or> kind = 2 then Some sz
                              else if kind = 1 then Some 1 else None) in
           case Option.bind content_len (get_from after) of
             None \<Rightarrow> None
           | Some rest \<Rightarrow> if block_header AND 1 \<noteq> 0 then Some rest else skip_blocks rest))"
  by pat_completeness auto
termination
  by (relation "measure length")
    (auto simp: split_at_checked_def get_from_def bind_eq_Some_conv split: if_splits)

declare skip_blocks.simps [simp del]

definition parse_header :: "bytes \<Rightarrow> zstd_header option" where
  "parse_header payload =
     (case payload of
        [] \<Rightarrow> None
      | descriptor # rest \<Rightarrow>
          (let single_segment = (descriptor AND 0x20 \<noteq> 0);
               checksum = (descriptor AND 0x04 \<noteq> 0);
               dict_id_len = (if descriptor AND 0x03 = 0 then 0
                              else if descriptor AND 0x03 = 1 then 1
                              else if descriptor AND 0x03 = 2 then 2 else 4);
               content_size_len = (if drop_bit 6 descriptor = 0 then if single_segment then 1 else 0
                                   else if drop_bit 6 descriptor = 1 then 2
                                   else if drop_bit 6 descriptor = 2 then 4 else (8 :: nat)) in
           if descriptor AND 0x08 \<noteq> 0 then None
           else if content_size_len = 0 then None
           else
             Option.bind (if single_segment then Some rest else get_from rest 1) (\<lambda>rest.
             Option.bind (split_at_checked rest dict_id_len) (\<lambda>(dict_id, after).
             Option.bind (split_at_checked after content_size_len) (\<lambda>(content_size, rest).
             Option.bind (Option.bind (little_endian dict_id)
                            (\<lambda>v. if unat v < 2 ^ 32 then Some (ucast v :: u32) else None)) (\<lambda>dict_id.
             Option.bind (little_endian content_size) (\<lambda>content_size.
             Option.bind (if content_size_len = 2
                          then if unat content_size + 256 < 2 ^ 64 then Some (content_size + 256) else None
                          else Some content_size) (\<lambda>content_size.
             Option.bind (skip_blocks rest) (\<lambda>rest.
             Option.bind (if checksum then get_from rest 4 else Some rest) (\<lambda>rest.
               if rest = [] then Some \<lparr>zh_dict_id = dict_id, zh_content_size = content_size\<rparr>
               else None))))))))))"

datatype rejected = TooLarge usize usize | Invalid string

fun rejected_into_error :: "(string \<Rightarrow> status) \<Rightarrow> rejected \<Rightarrow> error" where
  "rejected_into_error invalid (TooLarge len limit) = FrameTooLarge len limit"
| "rejected_into_error invalid (Invalid message) = EStatus (invalid message)"

definition inflate :: "zstd_lib \<Rightarrow> accept \<Rightarrow> bytes \<Rightarrow> usize \<Rightarrow> (rejected + bytes) \<times> accept" where
  "inflate Z accept payload max_size =
     (if accept = AcceptNone
      then (Inl (Invalid ''compressed message where no dictionary is accepted''), accept)
      else
        (case parse_header payload of
           None \<Rightarrow> (Inl (Invalid ''invalid ZSTD_MESSAGE payload''), accept)
         | Some header \<Rightarrow>
             (let len = unat (zh_content_size header) in
              if max_size < len then (Inl (TooLarge len max_size), accept)
              else
                (case accept_lookup accept (zh_dict_id header) of
                   None \<Rightarrow>
                     (Inl (Invalid
                        (if zh_dict_id header = PLAIN_ID
                         then ''compressed message without a dictionary, which is not accepted''
                         else ''compressed message uses dictionary {}, which is not accepted'')), accept)
                 | Some d \<Rightarrow>
                     (case dict_decompress Z d payload header of
                        Inl message \<Rightarrow> (Inl (Invalid message), accept)
                      | Inr message \<Rightarrow>
                          (Inr message, if is_plain d then count_plain accept else accept))))))"

subsection \<open>Negotiation\<close>

record client_compression =
  cl_config :: compression_config
  cl_shared :: "dict list option"

text \<open>\<open>CallDict\<close>: a pending dictionary belongs to the connection the call runs on.\<close>

datatype call_dict = NoDict | KnownDict dict | PendingDict dict

fun call_dict_get :: "client_compression \<Rightarrow> call_dict \<Rightarrow> dict option" where
  "call_dict_get connection NoDict = None"
| "call_dict_get connection (KnownDict d) = Some d"
| "call_dict_get connection (PendingDict d) =
     map_option (\<lambda>_. d) (option_filter (dict_in d) (cl_shared connection))"

definition call_dict_from :: "dict option \<Rightarrow> call_dict" where
  "call_dict_from d = (case d of None \<Rightarrow> NoDict | Some d \<Rightarrow> KnownDict d)"

text \<open>\<open>ClientCall\<close>: \<open>learn\<close> says whether the connection is taught the call's answer.\<close>

record client_call =
  cc_accept :: accept
  cc_requests :: call_dict
  cc_learn :: bool

definition client_call_default :: client_call where
  "client_call_default = \<lparr>cc_accept = AcceptNone, cc_requests = NoDict, cc_learn = False\<rparr>"

record message_types =
  mt_request :: string
  mt_response :: string

definition client_compression_new :: "compression_config \<Rightarrow> client_compression" where
  "client_compression_new cfg = \<lparr>cl_config = cfg, cl_shared = None\<rparr>"

definition shared_usable :: "dict list option \<Rightarrow> dict \<Rightarrow> bool" where
  "shared_usable shared d = (case shared of None \<Rightarrow> True | Some ds \<Rightarrow> dict_in d ds)"

definition prepare ::
  "client_compression \<Rightarrow> message_types option \<Rightarrow> compress_messages \<Rightarrow> rpc_request \<Rightarrow>
   client_call \<times> rpc_request" where
  "prepare c types plain request =
     (let shared = cl_shared c;
          cfg = cl_config c;
          usable = shared_usable shared;
          call = client_call_default;
          (call, request) =
            (if shared = None
             then (call\<lparr>cc_learn := True\<rparr>, request\<lparr>rq_dictionary_query := cf_query cfg\<rparr>)
             else (call, request));
          (call, request) =
            (case dict_for cfg (map_option mt_response types) (cmp_responses plain) usable of
               Some d \<Rightarrow>
                 (call\<lparr>cc_accept := AcceptOne d\<rparr>, request\<lparr>rq_accept_dictionaries := [d_id d]\<rparr>)
             | None \<Rightarrow> (call, request));
          call =
            (case dict_for cfg (map_option mt_request types) (cmp_requests plain) usable of
               Some d \<Rightarrow>
                 call\<lparr>cc_requests :=
                   (case shared of
                      Some ds \<Rightarrow> if dict_in d ds then KnownDict d else NoDict
                    | None \<Rightarrow> PendingDict d)\<rparr>
             | None \<Rightarrow> call) in
      (call, request))"

fun learn_set :: "compression_config \<Rightarrow> dict list \<Rightarrow> dictionary_info list \<Rightarrow> dict list" where
  "learn_set cfg shared [] = shared"
| "learn_set cfg shared (info # answer) =
     (case config_matches cfg info of
        Some d \<Rightarrow> learn_set cfg (if dict_in d shared then shared else shared @ [d]) answer
      | None \<Rightarrow> learn_set cfg shared answer)"

text \<open>\<open>OnceLock::set\<close>: the first answer wins.\<close>

definition learn :: "client_compression \<Rightarrow> dictionary_info list \<Rightarrow> client_compression" where
  "learn c answer =
     (case cl_shared c of
        None \<Rightarrow> c\<lparr>cl_shared := Some (learn_set (cl_config c) [] answer)\<rparr>
      | Some _ \<Rightarrow> c)"

record server_call =
  sv_answer :: "dictionary_info list option"
  sv_responses :: "dict option"

fun answer_query ::
  "compression_config \<Rightarrow> dictionary_info list \<Rightarrow> dictionary_info list \<Rightarrow> dictionary_info list" where
  "answer_query cfg answer [] = answer"
| "answer_query cfg answer (info # query) =
     (case config_matches cfg info of
        Some d \<Rightarrow>
          answer_query cfg (if d_info d \<in> set answer then answer else answer @ [d_info d]) query
      | None \<Rightarrow> answer_query cfg answer query)"

definition negotiate ::
  "compression_config option \<Rightarrow> rpc_request \<Rightarrow> string option \<Rightarrow> compress_messages \<Rightarrow> server_call" where
  "negotiate cfg request response_type plain =
     (let cfg = config_or_plain cfg;
          answer = (if rq_dictionary_query request \<noteq> []
                    then Some (answer_query cfg [] (rq_dictionary_query request)) else None) in
      \<lparr>sv_answer = answer,
       sv_responses =
         dict_for cfg response_type (cmp_responses plain) (\<lambda>d.
           d_id d \<in> set (rq_accept_dictionaries request) \<and>
           (case answer of None \<Rightarrow> True | Some answer \<Rightarrow> d_info d \<in> set answer))\<rparr>)"

subsection \<open>The layout of a frame\<close>

text \<open>
  RFC 8878 in terms of numbers. A block is a three-byte little-endian header, whose lowest bit marks
  the last block, the next two bits its type and the others its size, and a content whose length
  follows from them; type 3 is reserved. The frame header is a descriptor byte followed by the fields
  whose lengths the descriptor gives.
\<close>

definition block_content_len :: "bytes \<Rightarrow> nat option" where
  "block_content_len header =
    (if from_le_bytes header div 2 mod 4 = 3 then None
     else if from_le_bytes header div 2 mod 4 = 1 then Some 1 else Some (from_le_bytes header div 8))"

inductive zstd_blocks :: "bytes \<Rightarrow> bool" where
  last_block: "zstd_blocks (header @ content)"
    if "length header = 3" "odd (from_le_bytes header)" "block_content_len header = Some (length content)"
| more_blocks: "zstd_blocks (header @ content @ blocks)"
    if "length header = 3" "even (from_le_bytes header)" "block_content_len header = Some (length content)"
      "zstd_blocks blocks"

definition dict_id_len :: "nat \<Rightarrow> nat" where
  "dict_id_len d = [0, 1, 2, 4] ! (d mod 4)"

definition content_size_len :: "nat \<Rightarrow> nat" where
  "content_size_len d = (if d div 64 = 0 then if odd (d div 32) then 1 else 0 else 2 ^ (d div 64))"

definition frame_fields :: "nat \<Rightarrow> bytes \<Rightarrow> bytes \<Rightarrow> bytes \<Rightarrow> bytes \<Rightarrow> bool" where
  "frame_fields d window did fcs checksum \<longleftrightarrow>
     even (d div 8) \<and>
     length window = (if odd (d div 32) then 0 else 1) \<and>
     length did = dict_id_len d \<and>
     length fcs = content_size_len d \<and> 0 < content_size_len d \<and>
     length checksum = (if odd (d div 4) then 4 else 0)"

definition frame_header_of :: "bytes \<Rightarrow> bytes \<Rightarrow> zstd_header" where
  "frame_header_of did fcs =
     \<lparr>zh_dict_id = of_nat (from_le_bytes did),
      zh_content_size = of_nat (from_le_bytes fcs + (if length fcs = 2 then 256 else 0))\<rparr>"

lemma and_single_bit:
  "w AND 0x20 \<noteq> 0 \<longleftrightarrow> odd (unat (w :: u8) div 32)"
  "w AND 0x08 \<noteq> 0 \<longleftrightarrow> odd (unat w div 8)"
  "w AND 0x04 \<noteq> 0 \<longleftrightarrow> odd (unat w div 4)"
  "v AND 1 \<noteq> 0 \<longleftrightarrow> odd (unat (v :: u32))"
  using and_power_odd [of w 5] and_power_odd [of w 3] and_power_odd [of w 2] and_power_odd [of v 0]
  by simp_all

lemma unat_block_header:
  assumes "length header = 3"
  shows "unat (u32_from_le_bytes (header @ [0])) = from_le_bytes header"
  using from_le_bytes_less [of header] assms
  by (simp add: u32_from_le_bytes_def unat_of_nat_less)

lemma block_header_fields:
  assumes "length header = 3" and "v = u32_from_le_bytes (header @ [0])"
  shows "(if drop_bit 1 v AND 3 = 0 \<or> drop_bit 1 v AND 3 = 2 then Some (unat (drop_bit 3 v))
     else if drop_bit 1 v AND 3 = 1 then Some 1 else None) = block_content_len header"
    and "v AND 1 \<noteq> 0 \<longleftrightarrow> odd (from_le_bytes header)"
proof -
  have v: "unat v = from_le_bytes header"
    using unat_block_header [OF assms(1)] by (simp add: assms(2))
  have kind: "unat (drop_bit 1 v AND 3) = from_le_bytes header div 2 mod 4"
    by (simp add: and_three unat_drop_bit_div v)
  have k: "drop_bit 1 v AND 3 = of_nat (from_le_bytes header div 2 mod 4)"
    using of_nat_eq_word [OF kind] by simp
  consider "from_le_bytes header div 2 mod 4 = 0" | "from_le_bytes header div 2 mod 4 = 1"
    | "from_le_bytes header div 2 mod 4 = 2" | "from_le_bytes header div 2 mod 4 = 3"
    by linarith
  then show "(if drop_bit 1 v AND 3 = 0 \<or> drop_bit 1 v AND 3 = 2 then Some (unat (drop_bit 3 v))
      else if drop_bit 1 v AND 3 = 1 then Some 1 else None) = block_content_len header"
    by cases (simp_all add: k block_content_len_def unat_drop_bit_div v del: One_nat_def)
  show "v AND 1 \<noteq> 0 \<longleftrightarrow> odd (from_le_bytes header)"
    using and_single_bit(4) [of v] by (simp only: v)
qed

lemma skip_blocks_step:
  assumes "length header = 3"
  shows "skip_blocks (header @ after) =
    (case Option.bind (block_content_len header) (get_from after) of
       None \<Rightarrow> None
     | Some rest \<Rightarrow> if odd (from_le_bytes header) then Some rest else skip_blocks rest)"
proof -
  have parts: "split_at_checked (header @ after) 3 = Some (header, after)"
    using assms by (simp add: split_at_checked_def)
  show ?thesis
    unfolding skip_blocks.simps [of "header @ after"] parts option.case prod.case Let_def
      block_header_fields [OF assms refl] ..
qed

lemma skip_blocks_short: "length bs < 3 \<Longrightarrow> skip_blocks bs = None"
  by (subst skip_blocks.simps) (simp add: split_at_checked_def)

lemma skip_blocks_sound:
  "skip_blocks bs = Some rest \<Longrightarrow> \<exists>blocks. bs = blocks @ rest \<and> zstd_blocks blocks"
proof (induction bs rule: length_induct)
  case (1 bs)
  have "\<not> length bs < 3" using skip_blocks_short [of bs] 1(2) by auto
  then obtain header after where bs: "bs = header @ after" and len: "length header = 3"
    by (metis append_take_drop_id length_take min.absorb2 not_less)
  from 1(2) obtain n tail where n: "block_content_len header = Some n" and tail: "get_from after n = Some tail"
    and final: "if odd (from_le_bytes header) then tail = rest else skip_blocks tail = Some rest"
    unfolding bs skip_blocks_step [OF len]
    by (auto simp: bind_eq_Some_conv split: option.splits if_splits)
  from tail obtain content where after: "after = content @ tail" and "length content = n"
    by (auto simp: get_from_iff)
  with n have content: "block_content_len header = Some (length content)" by simp
  show ?case
  proof (cases "odd (from_le_bytes header)")
    case True
    then show ?thesis
      using final last_block [OF len True content] by (auto simp: bs after)
  next
    case False
    have "length tail < length bs" using len by (simp add: bs after)
    then obtain blocks where "tail = blocks @ rest" "zstd_blocks blocks"
      using 1(1) [rule_format, of tail] final False by auto
    with more_blocks [OF len _ content] False show ?thesis
      by (intro exI [of _ "header @ content @ blocks"]) (auto simp: bs after)
  qed
qed

lemma skip_blocks_complete: "zstd_blocks blocks \<Longrightarrow> skip_blocks (blocks @ rest) = Some rest"
proof (induction rule: zstd_blocks.induct)
  case (last_block header content)
  then show ?case by (simp add: skip_blocks_step get_from_def)
next
  case (more_blocks header content blocks)
  then show ?case by (simp add: skip_blocks_step get_from_def)
qed

lemma skip_blocks_iff:
  "skip_blocks bs = Some rest \<longleftrightarrow> (\<exists>blocks. bs = blocks @ rest \<and> zstd_blocks blocks)"
  using skip_blocks_sound skip_blocks_complete by blast

lemma dict_id_len_eq:
  "(if d AND 3 = 0 then 0 else if d AND 3 = 1 then 1 else if d AND 3 = 2 then 2 else 4) =
   dict_id_len (unat (d :: u8))"
proof -
  have k: "d AND 3 = of_nat (unat d mod 4)"
    using of_nat_eq_word [OF and_three [of d]] by simp
  consider "unat d mod 4 = 0" | "unat d mod 4 = 1" | "unat d mod 4 = 2" | "unat d mod 4 = 3"
    by linarith
  then show ?thesis by cases (simp_all add: k dict_id_len_def)
qed

lemma content_size_len_eq:
  "(if drop_bit 6 d = 0 then if odd (unat d div 32) then 1 else 0
    else if drop_bit 6 d = 1 then 2 else if drop_bit 6 d = 2 then 4 else 8) =
   content_size_len (unat (d :: u8))"
proof -
  have "unat (drop_bit 6 d) = unat d div 64" by (simp add: unat_drop_bit_div)
  from of_nat_eq_word [OF this] have k: "drop_bit 6 d = of_nat (unat d div 64)" by simp
  have "unat d div 64 < 4" using unat_byte_less [of d] by linarith
  then consider "unat d div 64 = 0" | "unat d div 64 = 1" | "unat d div 64 = 2" | "unat d div 64 = 3"
    by linarith
  then show ?thesis by cases (simp_all add: k content_size_len_def)
qed

lemma dict_id_len_le: "dict_id_len d \<le> 4"
proof -
  consider "d mod 4 = 0" | "d mod 4 = 1" | "d mod 4 = 2" | "d mod 4 = 3" by linarith
  then show ?thesis by cases (simp_all add: dict_id_len_def)
qed

lemma content_size_len_le: "d < 256 \<Longrightarrow> content_size_len d \<le> 8"
proof -
  assume "d < 256"
  then have "d div 64 \<le> 3" by linarith
  then have "(2 :: nat) ^ (d div 64) \<le> 2 ^ 3" by (intro power_increasing) simp_all
  then show ?thesis by (simp add: content_size_len_def)
qed

lemma ucast_of_nat_narrow: "(ucast (of_nat n :: u64) :: u32) = of_nat n"
  by transfer (simp add: take_bit_take_bit)

lemma parse_header_cons:
  "parse_header (d # rest) =
     (if odd (unat d div 8) \<or> content_size_len (unat d) = 0 then None
      else
        Option.bind (if odd (unat d div 32) then Some rest else get_from rest 1) (\<lambda>rest.
        Option.bind (split_at_checked rest (dict_id_len (unat d))) (\<lambda>(did, after).
        Option.bind (split_at_checked after (content_size_len (unat d))) (\<lambda>(fcs, rest).
        Option.bind (skip_blocks rest) (\<lambda>rest.
        Option.bind (if odd (unat d div 4) then get_from rest 4 else Some rest) (\<lambda>rest.
          if rest = [] then Some (frame_header_of did fcs) else None))))))"
proof -
  have id: "Option.bind (little_endian did) (\<lambda>v.
      Option.bind (if unat v < 4294967296 then Some (ucast v :: u32) else None) k) =
      k (of_nat (from_le_bytes did))" if "length did = dict_id_len (unat d)" for did k
  proof -
    have "length did \<le> 4" using that dict_id_len_le by simp
    then have "from_le_bytes did < 2 ^ 32"
      using from_le_bytes_less [of did] power_increasing [of "length did" 4 "256 :: nat"] by simp
    then show ?thesis
      using \<open>length did \<le> 4\<close> by (simp add: little_endian_def unat_of_nat_less ucast_of_nat_narrow)
  qed
  have size: "Option.bind (little_endian fcs) (\<lambda>content_size.
      Option.bind (if content_size_len (unat d) = 2
                   then if unat content_size + 256 < 2 ^ 64 then Some (content_size + 256) else None
                   else Some content_size) k) =
      k (of_nat (from_le_bytes fcs + (if length fcs = 2 then 256 else 0)))"
    if "length fcs = content_size_len (unat d)" for fcs k
  proof -
    have "length fcs \<le> 8" using that content_size_len_le [of "unat d"] by simp
    moreover have "from_le_bytes fcs < 2 ^ 16" if "length fcs = 2"
      using from_le_bytes_less [of fcs] that by simp
    ultimately show ?thesis
      using that by (auto simp: little_endian_def unat_of_nat_less)
  qed
  show ?thesis 
    unfolding parse_header_def list.case Let_def and_single_bit dict_id_len_eq content_size_len_eq
    by (auto simp: id size frame_header_of_def split_at_checked_iff intro!: Option.bind_cong)
qed

lemma parse_header_sound:
  assumes "parse_header payload = Some h"
  shows "\<exists>d window did fcs blocks checksum.
    payload = d # window @ did @ fcs @ blocks @ checksum \<and>
    frame_fields (unat d) window did fcs checksum \<and> zstd_blocks blocks \<and> h = frame_header_of did fcs"
proof -
  obtain d rest where p: "payload = d # rest"
    using assms by (cases payload) (simp_all add: parse_header_def)
  from assms obtain r1 did after fcs r2 r3 where
    fields: "even (unat d div 8)" "content_size_len (unat d) \<noteq> 0"
    and window: "(if odd (unat d div 32) then Some rest else get_from rest 1) = Some r1"
    and did: "split_at_checked r1 (dict_id_len (unat d)) = Some (did, after)"
    and fcs: "split_at_checked after (content_size_len (unat d)) = Some (fcs, r2)"
    and blocks: "skip_blocks r2 = Some r3"
    and checksum: "(if odd (unat d div 4) then get_from r3 4 else Some r3) = Some []"
    and h: "h = frame_header_of did fcs"
    unfolding p parse_header_cons by (auto simp: bind_eq_Some_conv split: if_split_asm)
  from window obtain w where "rest = w @ r1" "length w = (if odd (unat d div 32) then 0 else 1)"
    by (auto simp: get_from_iff split: if_split_asm)
  moreover from did fcs have "r1 = did @ fcs @ r2" "length did = dict_id_len (unat d)"
    "length fcs = content_size_len (unat d)"
    by (simp_all add: split_at_checked_iff)
  moreover from blocks obtain bs where "r2 = bs @ r3" "zstd_blocks bs"
    by (auto simp: skip_blocks_iff)
  moreover from checksum have "length r3 = (if odd (unat d div 4) then 4 else 0)"
    by (cases "odd (unat d div 4)") (simp_all add: get_from_def split: if_split_asm)
  ultimately have "payload = d # w @ did @ fcs @ bs @ r3" "frame_fields (unat d) w did fcs r3"
    using fields by (simp_all add: p frame_fields_def)
  with \<open>zstd_blocks bs\<close> h show ?thesis by blast
qed

lemma parse_header_complete:
  assumes "frame_fields (unat d) window did fcs checksum" and "zstd_blocks blocks"
  shows "parse_header (d # window @ did @ fcs @ blocks @ checksum) = Some (frame_header_of did fcs)"
proof -
  let ?rest = "did @ fcs @ blocks @ checksum"
  have "(if odd (unat d div 32) then Some (window @ ?rest) else get_from (window @ ?rest) 1) = Some ?rest"
    using assms(1) by (auto simp: frame_fields_def get_from_def split: if_split_asm)
  moreover have "(if odd (unat d div 4) then get_from checksum 4 else Some checksum) = Some []"
    using assms(1) by (auto simp: frame_fields_def get_from_def)
  moreover have "split_at_checked ?rest (dict_id_len (unat d)) = Some (did, fcs @ blocks @ checksum)"
    "split_at_checked (fcs @ blocks @ checksum) (content_size_len (unat d)) = Some (fcs, blocks @ checksum)"
    using assms(1) by (simp_all add: frame_fields_def split_at_checked_iff)
  moreover have "even (unat d div 8)" "content_size_len (unat d) \<noteq> 0"
    using assms(1) by (auto simp: frame_fields_def)
  ultimately show ?thesis
    by (simp only: parse_header_cons skip_blocks_complete [OF assms(2)] bind.bind_lunit prod.case simp_thms if_True if_False)
qed

text \<open>
  C35. The header check accepts exactly the payloads that are one zstd frame: a descriptor without the
  reserved bit, the window, dictionary and content-size fields it announces (a content size among
  them), blocks up to and including the first one marked last, none of the reserved type, the
  checksum if announced, and nothing after it. It returns the dictionary ID and the content size
  those fields encode, with the offset of 256 of the two-byte size.
\<close>

theorem parse_header_exact:
  "parse_header payload = Some h \<longleftrightarrow>
     (\<exists>d window did fcs blocks checksum.
        payload = d # window @ did @ fcs @ blocks @ checksum \<and>
        frame_fields (unat d) window did fcs checksum \<and> zstd_blocks blocks \<and>
        h = frame_header_of did fcs)"
  using parse_header_sound parse_header_complete by blast

text \<open>
  C36. No message larger than the receiver's limit is ever produced, whatever the library returns: a
  message that is accepted has exactly the announced size, within the limit, and its dictionary is
  one the receiver accepts. A payload that announces more is refused for its size without calling
  the library.
\<close>

theorem inflate_bounded:
  "(\<forall>message accept'. inflate Z accept payload max_size = (Inr message, accept') \<longrightarrow>
      length message \<le> max_size \<and>
      (\<exists>header. parse_header payload = Some header \<and> unat (zh_content_size header) = length message \<and>
         accept_lookup accept (zh_dict_id header) \<noteq> None)) \<and>
   (\<forall>header. accept \<noteq> AcceptNone \<longrightarrow> parse_header payload = Some header \<longrightarrow>
      max_size < unat (zh_content_size header) \<longrightarrow>
      inflate Z accept payload max_size = (Inl (TooLarge (unat (zh_content_size header)) max_size), accept))"
  by (auto simp: inflate_def dict_decompress_def Let_def split: if_split_asm option.splits sum.splits)

text \<open>
  An instance of the library for examples: it compresses messages of 300 equal bytes to one run-length
  block and nothing else.
\<close>

definition rle_zstd :: zstd_lib where
  "rle_zstd =
     \<lparr>z_compress = (\<lambda>data level message.
        if data = [] \<and> message = replicate 300 (hd message)
        then Inr [0x60, 44, 0, 0x63, 9, 0, hd message] else Inl ''unsupported''),
      z_decompress = (\<lambda>data n payload.
        if data = [] \<and> payload \<noteq> [] then Inr (replicate n (last payload)) else Inl ''unsupported''),
      z_accepts = (\<lambda>_. Inl ''unsupported''),
      z_sha256 = (\<lambda>data. replicate 32 (of_nat (length data)))\<rparr>"

lemma rle_frame_header:
  "parse_header [0x60, 44, 0, 0x63, 9, 0, b] = Some \<lparr>zh_dict_id = 0, zh_content_size = 300\<rparr>"
proof -
  have "zstd_blocks ([0x63, 9, 0] @ [b])"
    by (rule last_block) (simp_all add: block_content_len_def)
  moreover have "frame_fields (unat (0x60 :: u8)) [] [] [44, 0] []"
    by (simp add: frame_fields_def dict_id_len_def content_size_len_def)
  ultimately show ?thesis
    using parse_header_complete [of "0x60" "[]" "[]" "[44, 0]" "[]" "[0x63, 9, 0, b]"]
    by (simp add: frame_header_of_def)
qed

theorem inflate_bounded_witness:
  "unat (zh_content_size \<lparr>zh_dict_id = 0, zh_content_size = 300\<rparr>) = 300 \<and>
   inflate rle_zstd (AcceptOne (dict_plain 1)) [0x60, 44, 0, 0x63, 9, 0, 7] 200 =
     (Inl (TooLarge 300 200), AcceptOne (dict_plain 1))"
  using inflate_bounded [of rle_zstd "AcceptOne (dict_plain 1)" "[0x60, 44, 0, 0x63, 9, 0, 7]" 200]
  by (simp add: rle_frame_header)

end
