(* ===== verification/Byte_Reader.thy ===== *)
theory Byte_Reader
  imports Framing
begin

text \<open>
  Reading frames off a byte stream, the reading half of \<open>framed.rs\<close> below the protocol, and the
  stream readers of \<open>varint.rs\<close>. The traits \<open>FrameRead\<close> and \<open>ChunkSource\<close> are records of their
  methods. A computation on a reader of state \<open>'s\<close> takes the state and returns a result and the
  state after it, or \<open>None\<close> if it never returns; awaiting the transport is part of the reader's
  methods.
\<close>

subsection \<open>Computations on a reader\<close>

type_synonym ('s, 'a) io = "'s \<Rightarrow> ('a result \<times> 's) option"

definition io_ret :: "'a \<Rightarrow> ('s, 'a) io" where
  "io_ret x s = Some (Inr x, s)"

definition io_err :: "error \<Rightarrow> ('s, 'a) io" where
  "io_err e s = Some (Inl e, s)"

definition io_bind :: "('s, 'a) io \<Rightarrow> ('a \<Rightarrow> ('s, 'b) io) \<Rightarrow> ('s, 'b) io" where
  "io_bind m k s =
     (case m s of
        None \<Rightarrow> None
      | Some (Inl e, s') \<Rightarrow> Some (Inl e, s')
      | Some (Inr x, s') \<Rightarrow> k x s')"

definition io_lift :: "'a result \<Rightarrow> ('s, 'a) io" where
  "io_lift r s = Some (r, s)"

lemmas io_defs = io_ret_def io_err_def io_bind_def io_lift_def

lemma io_bind_simps [simp]:
  "m s = None \<Longrightarrow> io_bind m k s = None"
  "m s = Some (Inl e, s') \<Longrightarrow> io_bind m k s = Some (Inl e, s')"
  "m s = Some (Inr x, s') \<Longrightarrow> io_bind m k s = k x s'"
  by (simp_all add: io_bind_def)

lemma io_bind_mono [partial_function_mono]:
  fixes m :: "('x \<Rightarrow> 'y option) \<Rightarrow> ('s, 'a) io" and k :: "('x \<Rightarrow> 'y option) \<Rightarrow> 'a \<Rightarrow> ('s, 'b) io"
  assumes "\<And>s. mono_option (\<lambda>f. m f s)" and "\<And>x s. mono_option (\<lambda>f. k f x s)"
  shows "mono_option (\<lambda>f. io_bind (m f) (k f) s)"
proof (rule monotoneI)
  fix f g :: "'x \<Rightarrow> 'y option"
  assume fg: "fun_ord option_ord f g"
  have m: "option_ord (m f s) (m g s)"
    by (rule assms(1) [THEN monotoneD, OF fg])
  have k: "option_ord (k f x s) (k g x s)" for x s
    by (rule assms(2) [THEN monotoneD, OF fg])
  show "option_ord (io_bind (m f) (k f) s) (io_bind (m g) (k g) s)"
  proof (cases "m f s")
    case None
    then show ?thesis by (simp add: flat_ord_def)
  next
    case (Some r)
    with m have "m g s = Some r" by (simp add: flat_ord_def)
    with Some k show ?thesis
      by (cases r) (auto simp: io_bind_def flat_ord_def split: sum.splits)
  qed
qed

lemma if_fun_mono [partial_function_mono]:
  "mono_option (\<lambda>f. m f s) \<Longrightarrow> mono_option (\<lambda>f. m' f s) \<Longrightarrow>
     mono_option (\<lambda>f. (if c then m f else m' f) s)"
  by (cases c) simp_all

subsection \<open>The reader traits and the chunked reader\<close>

text \<open>
  \<open>read_frame_bytes R n\<close> fills a buffer of \<open>n\<close> bytes from the front: \<open>Some bs\<close> are the bytes it
  wrote, \<open>None\<close> the end of the stream.
\<close>

record 's frame_read =
  read_frame_bytes :: "nat \<Rightarrow> ('s, bytes option) io"
  read_payload_bytes :: "nat \<Rightarrow> ('s, bytes) io"

record 's chunk_source =
  next_chunk :: "('s, bytes option) io"
  read_into :: "nat \<Rightarrow> ('s, bytes option) io"

definition unexpected_eof :: error where
  "unexpected_eof = ETransport UnexpectedEof"

text \<open>
  \<open>read_exact_or_eof\<close> on a buffer of \<open>n\<close> bytes: \<open>Some\<close> of its content where the source returns
  \<open>true\<close>, \<open>None\<close> where it returns \<open>false\<close>. The loop has filled \<open>filled\<close> of \<open>n\<close> bytes.
\<close>

partial_function (option) read_exact_loop ::
  "(nat \<Rightarrow> ('s, bytes option) io) \<Rightarrow> nat \<Rightarrow> bytes \<Rightarrow> 's \<Rightarrow> (bytes option result \<times> 's) option" where
  "read_exact_loop rd n filled s =
     (if length filled = n then io_ret (Some filled) s
      else
        io_bind (rd (n - length filled)) (\<lambda>r.
          case r of
            Some bs \<Rightarrow>
              if bs = [] then read_exact_loop rd n filled
              else read_exact_loop rd n (take n (filled @ bs))
          | None \<Rightarrow> if filled = [] then io_ret None else io_err unexpected_eof) s)"

definition read_exact_or_eof ::
  "(nat \<Rightarrow> ('s, bytes option) io) \<Rightarrow> nat \<Rightarrow> ('s, bytes option) io" where
  "read_exact_or_eof rd n = read_exact_loop rd n []"

definition read_exact_body :: "(nat \<Rightarrow> ('s, bytes option) io) \<Rightarrow> nat \<Rightarrow> ('s, bytes) io" where
  "read_exact_body rd n =
     io_bind (read_exact_or_eof rd n) (\<lambda>r.
       case r of Some bs \<Rightarrow> io_ret bs | None \<Rightarrow> io_err unexpected_eof)"

definition read_payload_copy :: "(nat \<Rightarrow> ('s, bytes option) io) \<Rightarrow> nat \<Rightarrow> ('s, bytes) io" where
  "read_payload_copy rd len = read_exact_body rd len"

definition BUFFERED_READ_MAX :: nat where
  "BUFFERED_READ_MAX = 16"

record 's chunked =
  ch_source :: 's
  ch_pending :: bytes

text \<open>A method of the source, run on the source inside a \<open>Chunked\<close>.\<close>

definition on_source :: "('s, 'a) io \<Rightarrow> ('s chunked, 'a) io" where
  "on_source m c =
     map_option (\<lambda>(r, s). (r, c\<lparr>ch_source := s\<rparr>)) (m (ch_source c))"

definition split_pending :: "nat \<Rightarrow> ('s chunked, bytes) io" where
  "split_pending len c =
     Some (Inr (take len (ch_pending c)), c\<lparr>ch_pending := drop len (ch_pending c)\<rparr>)"

definition chunked_read :: "'s chunk_source \<Rightarrow> nat \<Rightarrow> ('s chunked, bytes option) io" where
  "chunked_read S n c =
     (let serve = (\<lambda>c. io_bind (split_pending (min n (length (ch_pending c)))) (io_ret \<circ> Some) c) in
      if ch_pending c = [] then
        (if n > BUFFERED_READ_MAX then on_source (read_into S n) c
         else
           io_bind (on_source (next_chunk S)) (\<lambda>r.
             case r of
               Some chunk \<Rightarrow> \<lambda>c. serve (c\<lparr>ch_pending := chunk\<rparr>)
             | None \<Rightarrow> io_ret None) c)
      else serve c)"

definition chunked_read_payload :: "'s chunk_source \<Rightarrow> nat \<Rightarrow> ('s chunked, bytes) io" where
  "chunked_read_payload S len c =
     (if length (ch_pending c) \<ge> len then split_pending len c
      else read_payload_copy (chunked_read S) len c)"

definition chunked_reader :: "'s chunk_source \<Rightarrow> 's chunked frame_read" where
  "chunked_reader S =
     \<lparr>read_frame_bytes = chunked_read S, read_payload_bytes = chunked_read_payload S\<rparr>"

definition chunked_new :: "'s \<Rightarrow> 's chunked" where
  "chunked_new source = \<lparr>ch_source = source, ch_pending = []\<rparr>"

subsection \<open>Frame headers\<close>

definition invalid_varint_prefix :: error where
  "invalid_varint_prefix = EStatus (internal ''invalid varint prefix'')"

text \<open>
  \<open>varint::read_continued\<close>: the integer is decoded from a buffer of \<open>MAX_LEN\<close> zero bytes over
  which the prefix and the bytes read are copied.
\<close>

definition varint_buffer :: "bytes \<Rightarrow> bytes" where
  "varint_buffer bs = bs @ replicate (MAX_LEN - length bs) 0"

definition read_continued ::
  "(nat \<Rightarrow> ('s, bytes option) io) \<Rightarrow> bytes \<Rightarrow> ('s, u64 \<times> usize) io" where
  "read_continued rd prefix =
     (case prefix of
        [] \<Rightarrow> io_err invalid_varint_prefix
      | first # _ \<Rightarrow>
          (let len = len_from_first_byte first;
               finish = (\<lambda>bs. io_lift (ok_or (decode (varint_buffer bs)) invalid_varint_prefix)) in
           if length prefix > MAX_LEN then io_err invalid_varint_prefix
           else if length prefix < len then
             io_bind (read_exact_or_eof rd (len - length prefix)) (\<lambda>r.
               case r of Some rest \<Rightarrow> finish (prefix @ rest) | None \<Rightarrow> io_err unexpected_eof)
           else finish prefix))"

definition varint_read :: "(nat \<Rightarrow> ('s, bytes option) io) \<Rightarrow> ('s, (u64 \<times> usize) option) io" where
  "varint_read rd =
     io_bind (read_exact_or_eof rd 1) (\<lambda>r.
       case r of
         None \<Rightarrow> io_ret None
       | Some first \<Rightarrow> io_bind (read_continued rd first) (io_ret \<circ> Some))"

record frame_header =
  fh_frame_type :: u64
  fh_payload_len :: usize
  fh_header_len :: usize

definition wire_len :: "frame_header \<Rightarrow> usize" where
  "wire_len h = saturating_add (fh_header_len h) (fh_payload_len h)"

definition read_frame_header :: "'s frame_read \<Rightarrow> usize \<Rightarrow> ('s, frame_header option) io" where
  "read_frame_header R max_frame_size =
     (let rd = read_frame_bytes R;
          finish = (\<lambda>(frame_type, len, header_len).
            io_bind (io_lift (validate_payload_len (unat len) max_frame_size)) (\<lambda>_.
              io_ret (Some \<lparr>fh_frame_type = frame_type, fh_payload_len = unat (len :: u64),
                            fh_header_len = header_len\<rparr>))) in
      io_bind (read_exact_or_eof rd 2) (\<lambda>r.
        case r of
          None \<Rightarrow> io_ret None
        | Some head \<Rightarrow>
            (let first = head ! 0; second = head ! 1 in
             if len_from_first_byte first = 1 then
               io_bind
                 (if len_from_first_byte second = 1 then io_ret (ucast second, 1)
                  else read_continued rd [second]) (\<lambda>(len, length_len).
                   finish (ucast first, len, saturating_add length_len 1))
             else
               io_bind (read_continued rd head) (\<lambda>(frame_type, type_len).
               io_bind (varint_read rd) (\<lambda>r.
               io_bind (io_lift (ok_or r unexpected_eof)) (\<lambda>(len, length_len).
                 finish (frame_type, len, saturating_add type_len length_len)))))))"

definition DISCARD_CHUNK :: nat where
  "DISCARD_CHUNK = 4096"

partial_function (option) discard_loop ::
  "(nat \<Rightarrow> ('s, bytes option) io) \<Rightarrow> nat \<Rightarrow> nat \<Rightarrow> 's \<Rightarrow> (unit result \<times> 's) option" where
  "discard_loop rd buffer remaining s =
     (if remaining > 0 then
        (if min remaining DISCARD_CHUNK \<le> buffer then
           io_bind (rd (min remaining DISCARD_CHUNK)) (\<lambda>r.
             case r of
               Some bs \<Rightarrow> discard_loop rd buffer (remaining - length bs)
             | None \<Rightarrow> io_err unexpected_eof) s
         else io_err unexpected_eof s)
      else io_ret () s)"

definition discard_payload :: "'s frame_read \<Rightarrow> usize \<Rightarrow> ('s, unit) io" where
  "discard_payload R len = discard_loop (read_frame_bytes R) (min len DISCARD_CHUNK) len"

text \<open>
  The callback \<open>on_skipped\<close> is a function on a state of its own, which \<open>next_known_header\<close> returns
  along with the header.
\<close>

partial_function (option) next_known_header ::
  "'s frame_read \<Rightarrow> usize \<Rightarrow> ('c \<Rightarrow> usize \<Rightarrow> 'c result) \<Rightarrow> 'c \<Rightarrow> 's \<Rightarrow>
     ((frame_header option \<times> 'c) result \<times> 's) option" where
  "next_known_header R max_frame_size on_skipped c s =
     io_bind (read_frame_header R max_frame_size) (\<lambda>r.
       case r of
         None \<Rightarrow> io_ret (None, c)
       | Some header \<Rightarrow>
           if is_known_frame_type (fh_frame_type header) then io_ret (Some header, c)
           else
             io_bind (discard_payload R (fh_payload_len header)) (\<lambda>_.
             io_bind (io_lift (on_skipped c (wire_len header))) (\<lambda>c.
               next_known_header R max_frame_size on_skipped c))) s"

definition read_payload :: "'s frame_read \<Rightarrow> usize \<Rightarrow> ('s, bytes) io" where
  "read_payload R len = (if len = 0 then io_ret [] else read_payload_bytes R len)"

end
