(* ===== verification/Stream_Compression.thy ===== *)
theory Stream_Compression
  imports Compression Byte_Reader
begin

unbundle bit_operations_syntax

text \<open>
  Stream compression, \<open>compression/stream.rs\<close>: one zstd context per direction of a call, the memory
  budget its contexts are reserved from, the checks of a received chunk, and the negotiation of
  both peers. The streaming interface of zstd is the record \<open>L\<close>, over the library's compressing
  contexts \<open>'e\<close> and decompressing contexts \<open>'d\<close>; what a context costs in memory, which the code
  measures through the library, is part of it. Shared counters and flags (the budget's
  \<open>available\<close>, a direction's \<open>StreamEnable\<close>) are arguments and results of the operations.
\<close>

subsection \<open>The streaming library\<close>

text \<open>
  \<open>s_compress e input space fin\<close> is one call of \<open>compress_stream2\<close>, to flush or to end the frame:
  the bytes left to flush or an error, the output written to at most \<open>space\<close> bytes, the number of
  input bytes consumed and the context. \<open>s_decompress\<close> is one call of \<open>decompress_stream\<close>.
\<close>

record ('e, 'd) stream_lib =
  s_cctx :: "int \<Rightarrow> bytes option \<Rightarrow> string + 'e"
  s_bound :: "nat \<Rightarrow> nat"
  s_compress :: "'e \<Rightarrow> bytes \<Rightarrow> nat \<Rightarrow> bool \<Rightarrow> (string + nat) \<times> bytes \<times> nat \<times> 'e"
  s_dctx :: "bytes option \<Rightarrow> string + 'd"
  s_decompress :: "'d \<Rightarrow> bytes \<Rightarrow> nat \<Rightarrow> (string + unit) \<times> bytes \<times> nat \<times> 'd"
  s_encoder_cost :: "int \<Rightarrow> dict option \<Rightarrow> nat"
  s_decoder_cost :: "dict option \<Rightarrow> nat"

subsection \<open>Directions\<close>

record compress_stream =
  cs_requests :: bool
  cs_responses :: bool

definition compress_stream_none :: compress_stream where
  "compress_stream_none = \<lparr>cs_requests = False, cs_responses = False\<rparr>"

definition compress_stream_any :: "compress_stream \<Rightarrow> bool" where
  "compress_stream_any c \<longleftrightarrow> cs_requests c \<or> cs_responses c"

definition effective :: "compress_stream \<Rightarrow> rpc_kind \<Rightarrow> compress_stream" where
  "effective c kind =
     \<lparr>cs_requests = cs_requests c \<and> streams_requests kind,
      cs_responses = cs_responses c \<and> streams_responses kind\<rparr>"

text \<open>\<open>Unreliable\<close> of \<open>datagram.rs\<close>: the directions whose messages may travel as datagrams.\<close>

record unreliable =
  ur_requests :: bool
  ur_responses :: bool

definition without_unreliable :: "compress_stream \<Rightarrow> unreliable \<Rightarrow> compress_stream" where
  "without_unreliable c u =
     \<lparr>cs_requests = cs_requests c \<and> \<not> ur_requests u,
      cs_responses = cs_responses c \<and> \<not> ur_responses u\<rparr>"

definition STREAM_WINDOW_LOG :: nat where
  "STREAM_WINDOW_LOG = 16"

definition FIRST_STREAMED_MESSAGE :: nat where
  "FIRST_STREAMED_MESSAGE = 3"

subsection \<open>Memory\<close>

text \<open>A budget is its \<open>available\<close> bytes, a reservation its cost.\<close>

definition stream_budget_new :: "usize \<Rightarrow> usize option" where
  "stream_budget_new bytes = (if 0 < bytes then Some bytes else None)"

definition reserve :: "usize \<Rightarrow> usize \<Rightarrow> (usize \<times> usize) option" where
  "reserve cost available = (if cost \<le> available then Some (cost, available - cost) else None)"

definition absorb :: "usize \<Rightarrow> usize \<Rightarrow> usize" where
  "absorb cost other = saturating_add cost other"

definition drop_reservation :: "usize \<Rightarrow> usize \<Rightarrow> usize" where
  "drop_reservation cost available = (available + cost) mod (USIZE_MAX + 1)"

definition server_decoder_cost ::
  "('e, 'd) stream_lib \<Rightarrow> compression_config option \<Rightarrow> usize" where
  "server_decoder_cost L cfg =
     foldl max (s_decoder_cost L None)
       (map (\<lambda>d. s_decoder_cost L (Some d))
          (case cfg of None \<Rightarrow> [] | Some cfg \<Rightarrow> stream_dictionaries cfg))"

subsection \<open>Compressing\<close>

definition FRAME_LIMIT :: nat where
  "FRAME_LIMIT = 60 * 1024"

record 'e stream_encoder =
  se_context :: 'e
  se_in_frame :: usize
  se_reservation :: usize

text \<open>
  \<open>compress_chunk\<close>: a loop over \<open>compress_stream2\<close> with a vector \<open>out\<close> of capacity \<open>cap\<close>, which
  \<open>reserve\<close> at least doubles when it is full.
\<close>

partial_function (option) compress_chunk ::
  "('e, 'd) stream_lib \<Rightarrow> bytes \<Rightarrow> bool \<Rightarrow> nat \<Rightarrow> bytes \<Rightarrow> nat \<Rightarrow> 'e \<Rightarrow> (bytes result \<times> 'e) option" where
  "compress_chunk L message fin pos out cap e =
     (let cap = (if length out = cap then length out + max (length out) 64 else cap) in
      case s_compress L e (drop pos message) (cap - length out) fin of
        (r, produced, consumed, e) \<Rightarrow>
          (case r of
             Inl name \<Rightarrow> Some (Inl (zstd_error name), e)
           | Inr remaining \<Rightarrow>
               if remaining = 0 \<and> pos + consumed = length message then Some (Inr (out @ produced), e)
               else compress_chunk L message fin (pos + consumed) (out @ produced) cap e))"

definition stream_encode ::
  "('e, 'd) stream_lib \<Rightarrow> bytes \<Rightarrow> 'e stream_encoder \<Rightarrow> (bytes result \<times> 'e stream_encoder) option" where
  "stream_encode L message enc =
     (case push [] (of_nat (length message)) of
        Inl e \<Rightarrow> Some (Inl e, enc)
      | Inr payload \<Rightarrow>
          (let cap = saturating_add MAX_LEN (s_bound L (length message));
               in_frame = saturating_add (se_in_frame enc) (length message);
               fin = (FRAME_LIMIT \<le> in_frame);
               enc = enc\<lparr>se_in_frame := (if fin then 0 else in_frame)\<rparr> in
           map_option (\<lambda>(r, e). (r, enc\<lparr>se_context := e\<rparr>))
             (compress_chunk L message fin 0 payload cap (se_context enc))))"

datatype 'e sender_state = SenderWaiting | SenderActive "'e stream_encoder" | SenderOff

record 'e stream_sender =
  ss_level :: int
  ss_sent :: usize
  ss_state :: "'e sender_state"

definition stream_sender_new :: "int \<Rightarrow> 'e stream_sender" where
  "stream_sender_new level = \<lparr>ss_level = level, ss_sent = 0, ss_state = SenderWaiting\<rparr>"

text \<open>\<open>StreamSender::start\<close>: a context that cannot be created gives its reservation back.\<close>

definition sender_start ::
  "('e, 'd) stream_lib \<Rightarrow> int \<Rightarrow> dict option \<Rightarrow> usize \<Rightarrow> 'e stream_encoder option \<times> usize" where
  "sender_start L level d available =
     (case reserve (s_encoder_cost L level d) available of
        None \<Rightarrow> (None, available)
      | Some (reservation, available) \<Rightarrow>
          (case s_cctx L level (map_option d_data d) of
             Inl _ \<Rightarrow> (None, drop_reservation reservation available)
           | Inr e \<Rightarrow>
               (Some \<lparr>se_context = e, se_in_frame = 0, se_reservation = reservation\<rparr>, available)))"

definition sender_encode ::
  "('e, 'd) stream_lib \<Rightarrow> bool \<Rightarrow> dict option \<Rightarrow> bytes \<Rightarrow> usize \<Rightarrow> 'e stream_sender \<Rightarrow>
   (bytes option \<times> usize \<times> 'e stream_sender) option" where
  "sender_encode L enabled d message available s =
     (let s = s\<lparr>ss_sent := saturating_add (ss_sent s) 1\<rparr>;
          (available, s) =
            (if ss_state s = SenderWaiting \<and> FIRST_STREAMED_MESSAGE \<le> ss_sent s \<and> enabled
             then (case sender_start L (ss_level s) d available of
                     (None, available) \<Rightarrow> (available, s\<lparr>ss_state := SenderOff\<rparr>)
                   | (Some enc, available) \<Rightarrow> (available, s\<lparr>ss_state := SenderActive enc\<rparr>))
             else (available, s)) in
      case ss_state s of
        SenderActive enc \<Rightarrow>
          map_option (\<lambda>(r, enc).
            case r of
              Inr payload \<Rightarrow> (Some payload, available, s\<lparr>ss_state := SenderActive enc\<rparr>)
            | Inl _ \<Rightarrow>
                (None, drop_reservation (se_reservation enc) available, s\<lparr>ss_state := SenderOff\<rparr>))
            (stream_encode L message enc)
      | _ \<Rightarrow> Some (None, available, s))"

record 'e message_encoder =
  me_dict :: call_dict
  me_stream :: "'e stream_sender option"

definition message_encoder_new :: "call_dict \<Rightarrow> 'e message_encoder" where
  "message_encoder_new d = \<lparr>me_dict = d, me_stream = None\<rparr>"

definition with_stream :: "'e message_encoder \<Rightarrow> 'e stream_sender option \<Rightarrow> 'e message_encoder" where
  "with_stream m stream = m\<lparr>me_stream := stream\<rparr>"

definition message_encode ::
  "zstd_lib \<Rightarrow> ('e, 'd) stream_lib \<Rightarrow> client_compression \<Rightarrow> bool \<Rightarrow> bytes \<Rightarrow> usize \<Rightarrow> 'e message_encoder \<Rightarrow>
   ((u64 \<times> bytes) \<times> usize \<times> 'e message_encoder) option" where
  "message_encode Z L connection enabled body available m =
     (let d = call_dict_get connection (me_dict m);
          seed = option_filter (\<lambda>d. \<not> is_plain d) d;
          per_message =
            (case Option.bind d (\<lambda>d. dict_compress Z d body) of
               None \<Rightarrow> (MESSAGE, body)
             | Some compressed \<Rightarrow> (ZSTD_MESSAGE, compressed)) in
      case me_stream m of
        None \<Rightarrow> Some (per_message, available, m)
      | Some stream \<Rightarrow>
          map_option (\<lambda>(payload, available, stream).
            (case payload of Some payload \<Rightarrow> (ZSTD_STREAM_MESSAGE, payload) | None \<Rightarrow> per_message,
             available, m\<lparr>me_stream := Some stream\<rparr>))
            (sender_encode L enabled seed body available stream))"

subsection \<open>Decompressing\<close>

record stream_chunk =
  sc_starts_frame :: bool
  sc_dict_id :: u32
  sc_ends_frame :: bool

definition stream_chunk_default :: stream_chunk where
  "stream_chunk_default = \<lparr>sc_starts_frame = False, sc_dict_id = 0, sc_ends_frame = False\<rparr>"

definition next_block :: "bytes \<Rightarrow> usize \<Rightarrow> (usize \<times> bool) option" where
  "next_block data pos =
     Option.bind (checked_add pos 3) (\<lambda>stop.
     Option.bind (get_range data pos stop) (\<lambda>header.
       (let header = u32_from_le_bytes (header @ [0]);
            sz = unat (drop_bit 3 header);
            kind = drop_bit 1 header AND 0x03;
            content_len = (if kind = 0 \<or> kind = 2 then Some sz else if kind = 1 then Some 1 else None) in
        Option.bind content_len (\<lambda>content_len.
        Option.bind (checked_add stop content_len) (\<lambda>next.
          if next \<le> length data then Some (next, header AND 1 \<noteq> 0) else None)))))"

text \<open>
  The size of the window a descriptor announces. The checked operations of the source cannot fail:
  the exponent is at most 41.
\<close>

definition window_size :: "u8 \<Rightarrow> nat" where
  "window_size window =
     (let base = 2 ^ (unat (drop_bit 3 window) + 10) in base + base div 8 * unat (window AND 7))"

definition parse_frame_header :: "bytes \<Rightarrow> (usize \<times> u32) option" where
  "parse_frame_header chunk =
     (case chunk of
        [] \<Rightarrow> None
      | descriptor # rest \<Rightarrow>
          if descriptor AND 0xEC \<noteq> 0 then None
          else
            (case rest of
               [] \<Rightarrow> None
             | window # _ \<Rightarrow>
                 if 2 ^ STREAM_WINDOW_LOG < window_size window then None
                 else
                   (let dict_id_len = (if descriptor AND 0x03 = 0 then 0
                                       else if descriptor AND 0x03 = 1 then 1
                                       else if descriptor AND 0x03 = 2 then 2 else 4);
                        header_len = dict_id_len + 2 in
                    Option.bind (get_range chunk 2 header_len) (\<lambda>bs.
                    Option.bind (little_endian bs) (\<lambda>v.
                      if unat v < 2 ^ 32 then Some (header_len, ucast v :: u32) else None)))))"

text \<open>The loop over the blocks from \<open>pos\<close>: whether the last one ends the frame.\<close>

function walk_blocks :: "bytes \<Rightarrow> usize \<Rightarrow> bool \<Rightarrow> bool option" where
  "walk_blocks chunk pos ends =
     (if pos < length chunk then
        (case next_block chunk pos of
           None \<Rightarrow> None
         | Some (next, final) \<Rightarrow>
             if final \<and> next \<noteq> length chunk then None else walk_blocks chunk next final)
      else Some ends)"
  by pat_completeness auto
termination
  by (relation "measure (\<lambda>(chunk, pos, _). length chunk - pos)")
    (auto simp: next_block_def bind_eq_Some_conv checked_add_def get_range_def Let_def split: if_splits)

declare walk_blocks.simps [simp del]

definition parse_stream_chunk :: "bytes \<Rightarrow> bool \<Rightarrow> stream_chunk option" where
  "parse_stream_chunk chunk at_frame_start =
     (if chunk = [] then Some stream_chunk_default
      else
        Option.bind
          (if at_frame_start
           then map_option (\<lambda>(header_len, dict_id).
             (header_len, stream_chunk_default\<lparr>sc_dict_id := dict_id, sc_starts_frame := True\<rparr>))
             (parse_frame_header chunk)
           else Some (0, stream_chunk_default))
          (\<lambda>(pos, chunk_result).
             map_option (\<lambda>ends. chunk_result\<lparr>sc_ends_frame := ends\<rparr>)
               (walk_blocks chunk pos (sc_ends_frame chunk_result))))"

record 'd inflater =
  in_accept :: accept
  in_context :: "'d option"
  in_at_frame_start :: bool
  in_count :: message_count
  in_reservation :: "usize option"

definition inflater_new :: "accept \<Rightarrow> 'd inflater" where
  "inflater_new accept =
     \<lparr>in_accept = accept, in_context = None, in_at_frame_start = True, in_count = None,
      in_reservation = None\<rparr>"

definition with_reservation :: "'d inflater \<Rightarrow> usize \<Rightarrow> 'd inflater" where
  "with_reservation i reservation = i\<lparr>in_reservation := Some reservation\<rparr>"

definition with_count :: "'d inflater \<Rightarrow> message_count \<Rightarrow> 'd inflater" where
  "with_count i counter = i\<lparr>in_count := counter\<rparr>"

definition frame_context :: "('e, 'd) stream_lib \<Rightarrow> accept \<Rightarrow> u32 \<Rightarrow> rejected + 'd" where
  "frame_context L accept dict_id =
     and_then
       (if dict_id \<noteq> 0 then
          (case accept_lookup accept dict_id of
             None \<Rightarrow>
               Inl (Invalid ''stream-compressed frame uses dictionary {}, which is not accepted'')
           | Some d \<Rightarrow> Inr (Some (d_data d)))
        else Inr None)
       (\<lambda>data. map_err (\<lambda>name. Invalid (''zstd: '' @ name)) (s_dctx L data))"

text \<open>
  The loop over \<open>decompress_stream\<close>, into a vector of capacity \<open>cap\<close>: the message, or none for a
  corrupt chunk.
\<close>

partial_function (option) decompress_loop ::
  "('e, 'd) stream_lib \<Rightarrow> bytes \<Rightarrow> nat \<Rightarrow> nat \<Rightarrow> bytes \<Rightarrow> 'd \<Rightarrow> (bytes \<times> 'd) option option" where
  "decompress_loop L chunk cap pos message d =
     (if pos < length chunk then
        (case s_decompress L d (drop pos chunk) (cap - length message) of
           (r, produced, consumed, d) \<Rightarrow>
             if \<not> is_ok r \<or> (consumed = 0 \<and> produced = []) then Some None
             else decompress_loop L chunk cap (pos + consumed) (message @ produced) d)
      else Some (Some (message, d)))"

definition invalid_stream_payload :: rejected where
  "invalid_stream_payload = Invalid ''invalid ZSTD_STREAM_MESSAGE payload''"

text \<open>What \<open>decode\<close> does with a non-empty chunk once it has the frame's context.\<close>

definition decode_chunk ::
  "('e, 'd) stream_lib \<Rightarrow> bytes \<Rightarrow> nat \<Rightarrow> bool \<Rightarrow> 'd inflater \<Rightarrow> ((rejected + bytes) \<times> 'd inflater) option" where
  "decode_chunk L chunk len ends i =
     (case in_context i of
        None \<Rightarrow> Some (Inl invalid_stream_payload, i)
      | Some d \<Rightarrow>
          map_option (\<lambda>r.
            case r of
              None \<Rightarrow>
                (Inl (Invalid ''ZSTD_STREAM_MESSAGE chunk is corrupt''), i\<lparr>in_context := None\<rparr>)
            | Some (message, d) \<Rightarrow>
                if length message \<noteq> len
                then (Inl (Invalid ''ZSTD_STREAM_MESSAGE decompressed to the wrong size''),
                      i\<lparr>in_context := None\<rparr>)
                else (Inr message,
                      i\<lparr>in_context := Some d, in_at_frame_start := ends,
                        in_count := message_count_add (in_count i)\<rparr>))
            (decompress_loop L chunk (saturating_add len 1) 0 [] d))"

definition inflater_decode ::
  "('e, 'd) stream_lib \<Rightarrow> bytes \<Rightarrow> usize \<Rightarrow> 'd inflater \<Rightarrow> ((rejected + bytes) \<times> 'd inflater) option" where
  "inflater_decode L payload max_size i =
     (case decode payload of
        None \<Rightarrow> Some (Inl invalid_stream_payload, i)
      | Some (sz, size_len) \<Rightarrow>
          (let len = unat sz in
           if max_size < len then Some (Inl (TooLarge len max_size), i)
           else
             (case get_from payload size_len of
                None \<Rightarrow> Some (Inl invalid_stream_payload, i)
              | Some chunk \<Rightarrow>
                  (case parse_stream_chunk chunk (in_at_frame_start i) of
                     None \<Rightarrow> Some (Inl invalid_stream_payload, i)
                   | Some parsed \<Rightarrow>
                       if chunk = [] then
                         (if len = 0
                          then Some (Inr [], i\<lparr>in_count := message_count_add (in_count i)\<rparr>)
                          else Some (Inl invalid_stream_payload, i))
                       else if sc_starts_frame parsed then
                         (case frame_context L (in_accept i) (sc_dict_id parsed) of
                            Inl e \<Rightarrow> Some (Inl e, i)
                          | Inr d \<Rightarrow>
                              decode_chunk L chunk len (sc_ends_frame parsed)
                                (i\<lparr>in_context := Some d\<rparr>))
                       else decode_chunk L chunk len (sc_ends_frame parsed) i))))"

subsection \<open>Negotiation\<close>

text \<open>A server's and a client's side of a call. \<open>None\<close> for the budget disables stream compression.\<close>

record ('e, 'd) server_stream =
  svs_answer :: bool
  svs_requests :: "'d inflater option"
  svs_responses :: "'e stream_sender option"
  svs_count :: message_count

definition server_stream_default :: "('e, 'd) server_stream" where
  "server_stream_default =
     \<lparr>svs_answer = False, svs_requests = None, svs_responses = None, svs_count = None\<rparr>"

definition negotiate_stream ::
  "('e, 'd) stream_lib \<Rightarrow> rpc_request \<Rightarrow> compress_stream \<Rightarrow> usize option \<Rightarrow> compression_config option \<Rightarrow>
   ('e, 'd) server_stream \<times> usize option" where
  "negotiate_stream L request directions budget cfg =
     (case option_filter (\<lambda>_. request_stream_compression request \<noteq> SC_None) budget of
        None \<Rightarrow> (server_stream_default, budget)
      | Some available \<Rightarrow>
          (let stream = server_stream_default;
               stream =
                 (if cs_responses directions
                  then stream\<lparr>svs_responses := Some (stream_sender_new (config_level cfg))\<rparr>
                  else stream) in
           if cs_requests directions then
             (case reserve (server_decoder_cost L cfg) available of
                None \<Rightarrow> (stream, budget)
              | Some (reservation, available) \<Rightarrow>
                  (stream
                     \<lparr>svs_count := message_count_new,
                      svs_requests := Some (with_count (with_reservation
                        (inflater_new (accept_server cfg)) reservation) message_count_new),
                      svs_answer := True\<rparr>,
                   Some available))
           else (stream, budget)))"

definition refuses_optimistic :: "rpc_request \<Rightarrow> ('e, 'd) server_stream \<Rightarrow> bool" where
  "refuses_optimistic request stream \<longleftrightarrow>
     request_stream_compression request = SC_Optimistic \<and> svs_requests stream = None"

text \<open>\<open>ClientStream\<close>: \<open>enable_requests\<close> is the state of the shared \<open>StreamEnable\<close>.\<close>

record ('e, 'd) client_stream =
  cls_responses :: "'d inflater option"
  cls_requests :: "'e stream_sender option"
  cls_enable_requests :: "bool option"
  cls_optimistic :: bool

definition client_stream_default :: "('e, 'd) client_stream" where
  "client_stream_default =
     \<lparr>cls_responses = None, cls_requests = None, cls_enable_requests = None, cls_optimistic = False\<rparr>"

definition stream_enable :: "bool \<Rightarrow> bool \<Rightarrow> bool" where
  "stream_enable current enabled = (if enabled then True else current)"

fun response_dict :: "accept \<Rightarrow> dict option" where
  "response_dict (AcceptOne d) = (if \<not> is_plain d then Some d else None)"
| "response_dict AcceptNone = None"
| "response_dict (AcceptAll _ _) = None"

definition offer_requests ::
  "compress_stream \<Rightarrow> int \<Rightarrow> bool \<Rightarrow> rpc_request \<Rightarrow> ('e, 'd) client_stream \<Rightarrow>
   ('e, 'd) client_stream \<times> rpc_request" where
  "offer_requests directions level optimistic request stream =
     (if cs_requests directions then
        (stream\<lparr>cls_optimistic := optimistic, cls_requests := Some (stream_sender_new level),
           cls_enable_requests := Some optimistic\<rparr>,
         set_stream_compression (if optimistic then SC_Optimistic else SC_Enabled) request)
      else (stream, set_stream_compression SC_Enabled request))"

definition offer_stream ::
  "('e, 'd) stream_lib \<Rightarrow> rpc_request \<Rightarrow> compress_stream \<Rightarrow> usize option \<Rightarrow> accept \<Rightarrow> int \<Rightarrow> bool \<Rightarrow>
   (('e, 'd) client_stream \<times> rpc_request) \<times> usize option" where
  "offer_stream L request directions budget accept level optimistic =
     (case option_filter (\<lambda>_. compress_stream_any directions) budget of
        None \<Rightarrow> ((client_stream_default, request), budget)
      | Some available \<Rightarrow>
          if cs_responses directions then
            (case reserve (s_decoder_cost L (response_dict accept)) available of
               None \<Rightarrow> ((client_stream_default, request), budget)
             | Some (reservation, available) \<Rightarrow>
                 (offer_requests directions level optimistic request
                    (client_stream_default
                       \<lparr>cls_responses := Some (with_reservation (inflater_new accept) reservation)\<rparr>),
                  Some available))
          else (offer_requests directions level optimistic request client_stream_default, budget))"

subsection \<open>Reference layouts and contracts\<close>

text \<open>
  The budget with its live reservations, the layout of a chunk in terms of numbers, and the contract of
  \<open>decompress_stream\<close>: it consumes at most its input and writes at most the space it is given. The
  last definition is a library for examples, which decodes chunks of one raw block.
\<close>

inductive budget_run :: "usize \<Rightarrow> usize \<times> usize multiset \<Rightarrow> bool" for budget where
  budget_start: "budget_run budget (available, {#})"
    if "stream_budget_new budget = Some available"
| budget_reserve: "budget_run budget (available', add_mset reservation rs)"
    if "budget_run budget (available, rs)" and "reserve cost available = Some (reservation, available')"
| budget_absorb: "budget_run budget (available, add_mset (absorb a b) rs)"
    if "budget_run budget (available, add_mset a (add_mset b rs))"
| budget_drop: "budget_run budget (drop_reservation cost available, rs)"
    if "budget_run budget (available, add_mset cost rs)"

definition sender_held :: "'e stream_sender \<Rightarrow> usize" where
  "sender_held s = (case ss_state s of SenderActive enc \<Rightarrow> se_reservation enc | _ \<Rightarrow> 0)"

inductive stream_blocks :: "bytes \<Rightarrow> bool \<Rightarrow> bool" where
  no_blocks: "stream_blocks [] False"
| ending_block: "stream_blocks (header @ content) True"
    if "length header = 3" "odd (from_le_bytes header)" "block_content_len header = Some (length content)"
| open_block: "stream_blocks (header @ content @ blocks) ends"
    if "length header = 3" "even (from_le_bytes header)" "block_content_len header = Some (length content)"
      "stream_blocks blocks ends"

definition stream_frame_header :: "bytes \<Rightarrow> u32 \<Rightarrow> bool" where
  "stream_frame_header header dict_id \<longleftrightarrow>
     (\<exists>d window did. header = d # window # did \<and> unat d div 16 \<le> 1 \<and> unat d mod 16 < 4 \<and>
        unat window \<le> 48 \<and> length did = dict_id_len (unat d) \<and> dict_id = of_nat (from_le_bytes did))"

definition chunk_layout :: "bytes \<Rightarrow> bool \<Rightarrow> stream_chunk \<Rightarrow> bool" where
  "chunk_layout chunk at_frame_start c \<longleftrightarrow>
     (if chunk = [] then c = stream_chunk_default
      else \<exists>header blocks. chunk = header @ blocks \<and> sc_starts_frame c = at_frame_start \<and>
        (if at_frame_start then stream_frame_header header (sc_dict_id c)
         else header = [] \<and> sc_dict_id c = 0) \<and>
        stream_blocks blocks (sc_ends_frame c))"

definition decompress_within :: "('e, 'd) stream_lib \<Rightarrow> bool" where
  "decompress_within L \<longleftrightarrow>
     (\<forall>d input space r produced consumed d'.
        s_decompress L d input space = (r, produced, consumed, d') \<longrightarrow>
        consumed \<le> length input \<and> length produced \<le> space)"

definition raw_lib :: "(unit, unit) stream_lib" where
  "raw_lib =
     \<lparr>s_cctx = (\<lambda>_ _. Inl ''unsupported''), s_bound = (\<lambda>n. n + 5),
      s_compress = (\<lambda>e input space fin. (Inl ''unsupported'', [], 0, e)),
      s_dctx = (\<lambda>_. Inr ()),
      s_decompress = (\<lambda>d input space. (Inr (), take space (drop 5 input), length input, d)),
      s_encoder_cost = (\<lambda>_ _. 600), s_decoder_cost = (\<lambda>_. 360)\<rparr>"

subsection \<open>Properties\<close>

lemma budget_conserved:
  assumes "budget_run budget (available, rs)" and "budget \<le> USIZE_MAX"
  shows "available + sum_mset rs = budget"
  using assms(1)
proof (induction "(available, rs)" arbitrary: available rs rule: budget_run.induct)
  case (budget_absorb available a b rs)
  then have "a + b \<le> USIZE_MAX" using assms(2) by simp
  with budget_absorb show ?case by (simp add: absorb_def saturating_add_exact)
next
  case (budget_drop available cost rs)
  then have "available + cost < USIZE_MAX + 1" using assms(2) by simp
  with budget_drop show ?case by (simp add: drop_reservation_def)
qed (simp_all add: stream_budget_new_def reserve_def split: if_split_asm)

lemma stream_encode_reservation:
  "stream_encode L message enc = Some (r, enc') \<Longrightarrow> se_reservation enc' = se_reservation enc"
  by (auto simp: stream_encode_def Let_def split: sum.splits)

lemma drop_reservation_exact:
  "available + cost \<le> USIZE_MAX \<Longrightarrow> drop_reservation cost available = available + cost"
  by (simp add: drop_reservation_def)

lemma sender_start_conserves:
  assumes "sender_start L level d available = (enc, available')" and "available \<le> USIZE_MAX"
  shows "available' + (case enc of None \<Rightarrow> 0 | Some enc \<Rightarrow> se_reservation enc) = available"
  using assms
  by (auto simp: sender_start_def reserve_def drop_reservation_exact split: option.splits if_split_asm sum.splits)

lemma sender_encode_conserves:
  assumes "sender_encode L enabled d message available s = Some (payload, available', s')"
    and "available + sender_held s \<le> USIZE_MAX"
  shows "available' + sender_held s' = available + sender_held s"
proof -
  define s1 where "s1 = s\<lparr>ss_sent := saturating_add (ss_sent s) 1\<rparr>"
  define started where "started = (if ss_state s1 = SenderWaiting \<and> FIRST_STREAMED_MESSAGE \<le> ss_sent s1 \<and> enabled
             then (case sender_start L (ss_level s1) d available of
                     (None, available) \<Rightarrow> (available, s1\<lparr>ss_state := SenderOff\<rparr>)
                   | (Some enc, available) \<Rightarrow> (available, s1\<lparr>ss_state := SenderActive enc\<rparr>))
             else (available, s1))"
  obtain available2 s2 where s2: "started = (available2, s2)" by (rule prod.exhaust)
  have held: "available2 + sender_held s2 = available + sender_held s"
    using s2 sender_start_conserves [of L "ss_level s1" d available] assms(2)
    by (auto simp: started_def s1_def sender_held_def split: if_split_asm prod.splits option.splits)
  from assms(1) have "(case ss_state s2 of
        SenderActive enc \<Rightarrow>
          map_option (\<lambda>(r, enc).
            case r of
              Inr payload \<Rightarrow> (Some payload, available2, s2\<lparr>ss_state := SenderActive enc\<rparr>)
            | Inl _ \<Rightarrow>
                (None, drop_reservation (se_reservation enc) available2, s2\<lparr>ss_state := SenderOff\<rparr>))
            (stream_encode L message enc)
      | _ \<Rightarrow> Some (None, available2, s2)) = Some (payload, available', s')"
    unfolding sender_encode_def Let_def s1_def [symmetric] started_def [symmetric] s2 by simp
  then show ?thesis
    using held assms(2)
    by (auto simp: sender_held_def stream_encode_reservation drop_reservation_exact
        split: sender_state.splits sum.splits)
qed

lemma descriptor_mask: "(d :: u8) AND 0xEC = 0 \<longleftrightarrow> unat d div 16 \<le> 1 \<and> unat d mod 16 < 4"
proof -
  have "d AND 0xEC = (d AND 4) OR (d AND 8) OR (d AND 32) OR (d AND 64) OR (d AND 128)"
    by (simp flip: bit.conj_disj_distrib)
  then have "d AND 0xEC = 0 \<longleftrightarrow> even (unat d div 4) \<and> even (unat d div 8) \<and> even (unat d div 32) \<and>
      even (unat d div 64) \<and> even (unat d div 128)"
    using and_power_odd [of d 2] and_power_odd [of d 3] and_power_odd [of d 5] and_power_odd [of d 6]
      and_power_odd [of d 7] by (simp add: or_eq_0_iff)
  also have "\<dots> \<longleftrightarrow> unat d div 16 \<le> 1 \<and> unat d mod 16 < 4"
  proof -
    define q k where "q = unat d div 32" and "k = unat d div 4"
    have "q < 8" using unat_byte_less [of d] by (simp add: q_def less_mult_imp_div_less)
    then consider "q = 0" | "q = 1" | "q = 2" | "q = 3" | "q = 4" | "q = 5" | "q = 6" | "q = 7"
      by linarith
    then have hi: "even q \<and> even (q div 2) \<and> even (q div 4) \<longleftrightarrow> q = 0" by cases simp_all
    have lo: "even k \<and> even (k div 2) \<longleftrightarrow> k mod 4 = 0"
      using mod_mult2_eq [of k 2 2] by (simp add: even_iff_mod_2_eq_zero conj_commute)
    have parts: "unat d div 64 = q div 2" "unat d div 128 = q div 4" "unat d div 8 = k div 2"
      by (simp_all add: q_def k_def flip: div_mult2_eq)
    have "unat d mod 16 = 4 * (k mod 4) + unat d mod 4" and "unat d mod 4 < 4"
      using mod_mult2_eq [of "unat d" 4 4] by (simp_all add: k_def)
    then have k: "k mod 4 = 0 \<longleftrightarrow> unat d mod 16 < 4" by linarith
    have q: "q = 0 \<longleftrightarrow> unat d div 16 \<le> 1"
      using div_less_iff_less_mult [of 16 "unat d" 2] by (simp add: q_def div_eq_0_iff less_Suc_eq_le flip: numeral_2_eq_2) linarith
    have "(even k \<and> even (k div 2) \<and> even q \<and> even (q div 2) \<and> even (q div 4)) \<longleftrightarrow> k mod 4 = 0 \<and> q = 0"
      using hi lo by metis
    then show ?thesis
      unfolding q_def [symmetric] k_def [symmetric] parts k q by (simp only: conj_commute)
  qed
  finally show ?thesis .
qed

lemma and_seven: "unat (w AND 7) = unat (w :: u8) mod 8"
proof -
  have "w AND 7 = take_bit 3 w"
    by (simp add: take_bit_eq_mask mask_eq_exp_minus_1)
  then show ?thesis by (simp add: unsigned_take_bit_eq take_bit_eq_mod [where 'a = nat])
qed

lemma window_size_iff: "2 ^ STREAM_WINDOW_LOG < window_size window \<longleftrightarrow> 48 < unat window"
proof -
  define e m where "e = unat window div 8" and "m = unat window mod 8"
  have w: "unat window = 8 * e + m" and m: "m < 8" by (simp_all add: e_def m_def)
  have "2 ^ (e + 10) = (2 :: nat) ^ (e + 7) * 8" by (simp add: power_add)
  then have size: "window_size window = 2 ^ (e + 7) * (8 + m)"
    by (simp add: window_size_def Let_def unat_drop_bit_div and_seven e_def [symmetric] m_def [symmetric]
        algebra_simps)
  consider "e \<le> 5" | "e = 6" | "7 \<le> e" by linarith
  then show ?thesis
  proof cases
    case 1
    then have "(2 :: nat) ^ (e + 7) \<le> 2 ^ 12" by (intro power_increasing) simp_all
    then have "2 ^ (e + 7) * (8 + m) \<le> 2 ^ 12 * (15 :: nat)" using m by (intro mult_le_mono) simp_all
    with 1 m show ?thesis by (simp add: size w STREAM_WINDOW_LOG_def)
  next
    case 2
    then show ?thesis by (auto simp: size w STREAM_WINDOW_LOG_def)
  next
    case 3
    then have "(2 :: nat) ^ 14 \<le> 2 ^ (e + 7)" by (intro power_increasing) simp_all
    then have "2 ^ 14 * (8 :: nat) \<le> 2 ^ (e + 7) * (8 + m)" by (intro mult_le_mono) simp_all
    with 3 show ?thesis by (simp add: size w STREAM_WINDOW_LOG_def)
  qed
qed

lemma parse_frame_header_iff:
  "parse_frame_header chunk = Some (n, dict_id) \<longleftrightarrow>
   (\<exists>header rest. chunk = header @ rest \<and> length header = n \<and> stream_frame_header header dict_id)"
  (is "_ \<longleftrightarrow> ?R")
proof
  assume l: "parse_frame_header chunk = Some (n, dict_id)"
  then obtain d w tail where chunk: "chunk = d # w # tail"
    by (auto simp: parse_frame_header_def split: list.splits if_split_asm)
  define k where "k = dict_id_len (unat d)"
  from l obtain v where d: "unat d div 16 \<le> 1 \<and> unat d mod 16 < 4" and w: "unat w \<le> 48"
    and n: "n = k + 2" and len: "k \<le> length tail"
    and v: "little_endian (take k tail) = Some v" "dict_id = ucast v"
    unfolding parse_frame_header_def chunk list.case descriptor_mask window_size_iff dict_id_len_eq Let_def k_def
    by (auto simp: bind_eq_Some_conv get_range_def split: if_split_asm)
  have "stream_frame_header (d # w # take k tail) dict_id"
    using d w len v by (auto simp: stream_frame_header_def k_def little_endian_def ucast_of_nat_narrow split: if_split_asm)
  with n len show ?R
    by (intro exI [of _ "d # w # take k tail"] exI [of _ "drop k tail"]) (simp add: chunk)
next
  assume ?R
  then obtain d w did rest where chunk: "chunk = d # w # did @ rest" and n: "n = length did + 2"
    and d: "unat d div 16 \<le> 1" "unat d mod 16 < 4" and w: "unat w \<le> 48"
    and did: "length did = dict_id_len (unat d)" and i: "dict_id = of_nat (from_le_bytes did)"
    by (auto simp: stream_frame_header_def)
  have "length did \<le> 4" using did dict_id_len_le by simp
  then have "from_le_bytes did < 2 ^ 32"
    using from_le_bytes_less [of did] power_increasing [of "length did" 4 "256 :: nat"] by simp
  then show "parse_frame_header chunk = Some (n, dict_id)"
    unfolding parse_frame_header_def chunk list.case descriptor_mask window_size_iff dict_id_len_eq Let_def
    using d w \<open>length did \<le> 4\<close>
    by (simp add: n i get_range_def did [symmetric] little_endian_def unat_of_nat_less ucast_of_nat_narrow)
qed

lemma next_block_step:
  assumes "length data \<le> USIZE_MAX" and "data = before @ header @ after" and "length header = 3"
  shows "next_block data (length before) =
    (case block_content_len header of
       None \<Rightarrow> None
     | Some n \<Rightarrow>
         if n \<le> length after then Some (length before + 3 + n, odd (from_le_bytes header)) else None)"
proof -
  have range: "get_range data (length before) (length before + 3) = Some header"
    using assms(2,3) by (simp add: get_range_def)
  have start: "checked_add (length before) 3 = Some (length before + 3)"
    using assms by (simp add: checked_add_def)
  have stop: "Option.bind (checked_add (length before + 3) n)
        (\<lambda>next. if next \<le> length data then Some (next, e) else None) =
      (if n \<le> length after then Some (length before + 3 + n, e) else None)" for n and e :: bool
    using assms by (auto simp: checked_add_def)
  show ?thesis
    unfolding next_block_def start range bind.bind_lunit Let_def block_header_fields [OF assms(3) refl] stop
    by (cases "block_content_len header") simp_all
qed

lemma next_block_short: "length data < pos + 3 \<Longrightarrow> next_block data pos = None"
  by (auto simp: next_block_def checked_add_def get_range_def bind_eq_None_conv)

lemma stream_blocks_Nil [simp]: "stream_blocks [] e \<longleftrightarrow> \<not> e"
  by (auto intro: no_blocks elim: stream_blocks.cases)

lemma stream_blocks_length: "stream_blocks bs e \<Longrightarrow> bs \<noteq> [] \<Longrightarrow> 3 \<le> length bs"
  by (auto elim: stream_blocks.cases)

lemma stream_blocks_step:
  assumes "length header = 3"
  shows "stream_blocks (header @ after) e \<longleftrightarrow>
    (case block_content_len header of
       None \<Rightarrow> False
     | Some n \<Rightarrow> n \<le> length after \<and>
         (if odd (from_le_bytes header) then e \<and> n = length after else stream_blocks (drop n after) e))"
    (is "_ \<longleftrightarrow> ?R")
proof
  assume "stream_blocks (header @ after) e"
  then show ?R
  proof cases
    case (ending_block header' content)
    then have "header' = header \<and> content = after" using assms by auto
    with ending_block show ?thesis by simp
  next
    case (open_block header' content blocks)
    then have "header' = header \<and> after = content @ blocks" using assms by auto
    with open_block show ?thesis by simp
  qed (use assms in simp)
next
  assume ?R
  then obtain n where n: "block_content_len header = Some n" "n \<le> length after"
    and rest: "if odd (from_le_bytes header) then e \<and> n = length after else stream_blocks (drop n after) e"
    by (auto split: option.splits)
  have content: "block_content_len header = Some (length (take n after))" using n by simp
  show "stream_blocks (header @ after) e"
  proof (cases "odd (from_le_bytes header)")
    case True
    with rest ending_block [OF assms True, of after] n show ?thesis by simp
  next
    case False
    with rest open_block [OF assms _ content, of "drop n after"] show ?thesis by simp
  qed
qed

lemma walk_blocks_iff:
  assumes "length data \<le> USIZE_MAX"
  shows "pos \<le> length data \<Longrightarrow> pos < length data \<or> \<not> ends \<Longrightarrow>
    walk_blocks data pos ends = Some e \<longleftrightarrow> stream_blocks (drop pos data) e"
  using assms
proof (induction data pos ends rule: walk_blocks.induct)
  case (1 data pos ends)
  show ?case
  proof (cases "length data < pos + 3")
    case True
    then have "walk_blocks data pos ends = (if pos < length data then None else Some ends)"
      by (simp add: walk_blocks.simps [of data pos] next_block_short)
    moreover have "stream_blocks (drop pos data) e \<longleftrightarrow> pos = length data \<and> \<not> e"
      using True 1(2) stream_blocks_length [of "drop pos data" e] by (cases "pos = length data") auto
    ultimately show ?thesis using 1(2,3) by (cases "pos = length data") auto
  next
    case False
    define before header after where "before = take pos data" and "header = take 3 (drop pos data)"
      and "after = drop (pos + 3) data"
    have data: "data = before @ header @ after"
      by (simp add: before_def header_def after_def)
        (metis append_take_drop_id drop_drop add.commute)
    have len: "length header = 3" "length before = pos"
      using False by (simp_all add: header_def before_def)
    have pos: "pos < length data" and drop: "drop pos data = header @ after"
      using False len by (simp_all add: data)
    note step = next_block_step [OF 1(4) data len(1), unfolded len]
    show ?thesis
    proof (cases "\<exists>n. block_content_len header = Some n \<and> n \<le> length after")
      case False
      then show ?thesis
        using pos by (auto simp: walk_blocks.simps [of data pos] drop stream_blocks_step [OF len(1)] step
            split: option.splits)
    next
      case True
      then obtain n where n: "block_content_len header = Some n" "n \<le> length after" by blast
      have nb: "next_block data pos = Some (pos + 3 + n, odd (from_le_bytes header))"
        using n by (simp add: step)
      have end_of: "length data = pos + 3 + length after" "drop (pos + 3 + n) data = drop n after"
        using len by (simp_all add: data)
      show ?thesis
      proof (cases "odd (from_le_bytes header)")
        case True
        then show ?thesis
          using pos n end_of
          by (auto simp: walk_blocks.simps [of data] drop stream_blocks_step [OF len(1)] nb)
      next
        case False
        have "walk_blocks data (pos + 3 + n) False = Some e \<longleftrightarrow> stream_blocks (drop n after) e"
          using 1(1) [OF pos nb refl] False 1(4) n end_of by simp
        with False show ?thesis
          using pos n by (simp add: walk_blocks.simps [of data pos] drop stream_blocks_step [OF len(1)] nb)
      qed
    qed
  qed
qed

text \<open>
  C37. The check of a chunk accepts exactly the chunks of whole blocks, none of the reserved type, in
  which only the last block may end the frame, opened by a frame header exactly when no frame is
  open: one without content size, single segment, checksum or reserved bit and with a window of at
  most 64 KiB. It reports the header's dictionary and whether the frame ended.
\<close>

theorem parse_stream_chunk_exact:
  assumes "length chunk \<le> USIZE_MAX"
  shows "parse_stream_chunk chunk at_frame_start = Some c \<longleftrightarrow> chunk_layout chunk at_frame_start c"
proof (cases "chunk = []")
  case True
  then show ?thesis by (auto simp: parse_stream_chunk_def chunk_layout_def)
next
  case False
  show ?thesis
  proof (cases at_frame_start)
    case True
    have walk: "walk_blocks chunk (length header) False = Some e \<longleftrightarrow> stream_blocks blocks e"
      if "chunk = header @ blocks" for header blocks e
      using walk_blocks_iff [OF assms, of "length header" False] that by simp
    have "parse_stream_chunk chunk at_frame_start = Some c \<longleftrightarrow>
        (\<exists>n. parse_frame_header chunk = Some (n, sc_dict_id c) \<and>
           walk_blocks chunk n False = Some (sc_ends_frame c) \<and> sc_starts_frame c)"
      using True \<open>chunk \<noteq> []\<close>
      by (cases c) (auto simp: parse_stream_chunk_def stream_chunk_default_def bind_eq_Some_conv)
    also have "\<dots> \<longleftrightarrow> (\<exists>header blocks. chunk = header @ blocks \<and> stream_frame_header header (sc_dict_id c) \<and>
        walk_blocks chunk (length header) False = Some (sc_ends_frame c) \<and> sc_starts_frame c)"
      unfolding parse_frame_header_iff by blast
    also have "\<dots> \<longleftrightarrow> (\<exists>header blocks. chunk = header @ blocks \<and> stream_frame_header header (sc_dict_id c) \<and>
        stream_blocks blocks (sc_ends_frame c) \<and> sc_starts_frame c)"
      using walk by (intro ex_cong1 conj_cong refl) simp_all
    finally show ?thesis
      using True \<open>chunk \<noteq> []\<close> unfolding chunk_layout_def by simp blast
  next
    case False
    have "parse_stream_chunk chunk at_frame_start = Some c \<longleftrightarrow>
        walk_blocks chunk 0 False = Some (sc_ends_frame c) \<and> \<not> sc_starts_frame c \<and> sc_dict_id c = 0"
      using False \<open>chunk \<noteq> []\<close> by (cases c) (auto simp: parse_stream_chunk_def stream_chunk_default_def)
    also have "\<dots> \<longleftrightarrow> stream_blocks chunk (sc_ends_frame c) \<and> \<not> sc_starts_frame c \<and> sc_dict_id c = 0"
      using walk_blocks_iff [OF assms, of 0 False "sc_ends_frame c"] by simp
    finally show ?thesis
      using False \<open>chunk \<noteq> []\<close> unfolding chunk_layout_def by simp blast
  qed
qed

lemma decompress_loop_total:
  assumes "decompress_within L" and "length message \<le> cap" 
  shows "\<exists>r. decompress_loop L chunk cap pos message d = Some r"
  using assms(2)
proof (induction "(length chunk - pos) + (cap - length message)" arbitrary: pos message d rule: less_induct)
  case less
  show ?case
  proof (cases "pos < length chunk")
    case False
    then show ?thesis by (simp add: decompress_loop.simps [of L chunk cap pos])
  next
    case True
    obtain r produced consumed d' where
      step: "s_decompress L d (drop pos chunk) (cap - length message) = (r, produced, consumed, d')"
      by (metis prod_cases4)
    show ?thesis
    proof (cases "\<not> is_ok r \<or> (consumed = 0 \<and> produced = [])")
      case True
      with \<open>pos < length chunk\<close> show ?thesis
        by (subst decompress_loop.simps) (simp add: step)
    next
      case False
      have within: "consumed \<le> length chunk - pos" "length produced \<le> cap - length message"
        using assms(1) step unfolding decompress_within_def by fastforce+
      have progress: "0 < consumed + length produced" using False by auto
      have "\<exists>r. decompress_loop L chunk cap (pos + consumed) (message @ produced) d' = Some r"
      proof (rule less.hyps)
        show "length chunk - (pos + consumed) + (cap - length (message @ produced)) <
            length chunk - pos + (cap - length message)" "length (message @ produced) \<le> cap"
          using within progress less.prems \<open>pos < length chunk\<close>
          by (simp_all only: length_append)
      qed
      with \<open>pos < length chunk\<close> False show ?thesis
        by (subst decompress_loop.simps) (simp add: step)
    qed
  qed
qed

lemma decode_chunk_total:
  assumes "decompress_within L"
  shows "\<exists>r i'. decode_chunk L chunk len ends i = Some (r, i') \<and>
    (\<forall>message. r = Inr message \<longrightarrow> length message = len \<and> in_at_frame_start i' = ends \<and>
       in_count i' = message_count_add (in_count i)) \<and>
    (\<forall>e. r = Inl e \<longrightarrow> in_context i' = None \<and> in_at_frame_start i' = in_at_frame_start i \<and> in_count i' = in_count i)"
proof (cases "in_context i")
  case None
  then show ?thesis by (simp add: decode_chunk_def)
next
  case (Some d)
  obtain r where "decompress_loop L chunk (saturating_add len 1) 0 [] d = Some r"
    using decompress_loop_total [OF assms] by fastforce
  with Some show ?thesis by (cases r) (auto simp: decode_chunk_def)
qed

text \<open>
  C38. Decoding a message always returns, as long as the library stays within the buffers it is given:
  each round of the loop consumes or produces something. A message it returns has the announced size,
  within the limit, and the receiver then expects a frame header exactly if the chunk ended its frame;
  a rejection neither counts a message nor moves the frame boundary.
\<close>

theorem inflater_decode_total:
  assumes "decompress_within L"
  shows "\<exists>r i'. inflater_decode L payload max_size i = Some (r, i') \<and>
    (\<forall>message. r = Inr message \<longrightarrow>
       length message \<le> max_size \<and>
       (\<exists>n chunk p. decode payload = Some (of_nat (length message), n) \<and> get_from payload n = Some chunk \<and>
          parse_stream_chunk chunk (in_at_frame_start i) = Some p \<and>
          in_at_frame_start i' = (if chunk = [] then in_at_frame_start i else sc_ends_frame p)) \<and>
       in_count i' = message_count_add (in_count i)) \<and>
    (\<forall>e. r = Inl e \<longrightarrow> in_at_frame_start i' = in_at_frame_start i \<and> in_count i' = in_count i)"
proof (cases "decode payload")
  case None
  then show ?thesis by (simp add: inflater_decode_def)
next
  case (Some sn)
  obtain sz n where sn: "decode payload = Some (sz, n)" using Some by (cases sn) simp
  show ?thesis
  proof (cases "max_size < unat sz \<or> get_from payload n = None")
    case True
    then show ?thesis by (auto simp: inflater_decode_def sn Let_def)
  next
    case False
    then obtain chunk where sz: "unat sz \<le> max_size" and chunk: "get_from payload n = Some chunk" by auto
    show ?thesis
    proof (cases "parse_stream_chunk chunk (in_at_frame_start i)")
      case None
      with sz chunk show ?thesis by (simp add: inflater_decode_def sn Let_def)
    next
      case (Some p)
      note parsed = this
      show ?thesis
      proof (cases "chunk = []")
        case True
        with sz chunk parsed show ?thesis by (auto simp: inflater_decode_def sn Let_def unat_eq_zero)
      next
        case False
        note total = decode_chunk_total [OF assms, of chunk "unat sz" "sc_ends_frame p"]
        show ?thesis
        proof (cases "sc_starts_frame p")
          case True
          show ?thesis
          proof (cases "frame_context L (in_accept i) (sc_dict_id p)")
            case (Inl e)
            with True False sz chunk parsed show ?thesis by (simp add: inflater_decode_def sn Let_def)
          next
            case (Inr d)
            with True False sz chunk parsed total [of "i\<lparr>in_context := Some d\<rparr>"] show ?thesis
              by (auto simp: inflater_decode_def sn Let_def)
          qed
        next
          case nostart: False
          with False sz chunk parsed total [of i] show ?thesis
            by (auto simp: inflater_decode_def sn Let_def)
        qed
      qed
    qed
  qed
qed

lemma raw_lib_within: "decompress_within raw_lib"
  by (auto simp: decompress_within_def raw_lib_def)

lemma raw_chunk: "parse_stream_chunk [0, 0, 16, 0, 0, 7, 8] True =
    Some \<lparr>sc_starts_frame = True, sc_dict_id = 0, sc_ends_frame = False\<rparr>"
proof -
  have "stream_blocks ([16, 0, 0] @ [7, 8] @ []) False"
    by (rule open_block) (simp_all add: block_content_len_def)
  moreover have "stream_frame_header [0, 0] 0"
    by (simp add: stream_frame_header_def dict_id_len_def)
  ultimately have "chunk_layout [0, 0, 16, 0, 0, 7, 8] True \<lparr>sc_starts_frame = True, sc_dict_id = 0, sc_ends_frame = False\<rparr>"
    by (simp add: chunk_layout_def) (intro exI [of _ "[0, 0]"] exI [of _ "[16, 0, 0, 7, 8]"], simp)
  then show ?thesis
    by (subst parse_stream_chunk_exact) (simp_all add: USIZE_MAX_def)
qed

theorem inflater_decode_total_witness:
  "decompress_within raw_lib \<and>
   inflater_decode raw_lib [2, 0, 0, 16, 0, 0, 7, 8] 10 (inflater_new AcceptNone) =
     Some (Inr [7, 8], (inflater_new AcceptNone)\<lparr>in_context := Some (), in_at_frame_start := False\<rparr>) \<and>
   (\<exists>r i'. inflater_decode raw_lib [2, 0, 0, 16, 0, 0, 7, 8] 10 (inflater_new AcceptNone) = Some (r, i') \<and>
      (\<forall>message. r = Inr message \<longrightarrow> length message \<le> 10))"
proof -
  have "inflater_decode raw_lib [2, 0, 0, 16, 0, 0, 7, 8] 10 (inflater_new AcceptNone) =
     Some (Inr [7, 8], (inflater_new AcceptNone)\<lparr>in_context := Some (), in_at_frame_start := False\<rparr>)"
  proof -
    have "decode ([2, 0, 0, 16, 0, 0, 7, 8] :: bytes) = Some (2, 1)" by code_simp
    then show ?thesis
      by (simp add: inflater_decode_def get_from_def inflater_new_def raw_chunk frame_context_def raw_lib_def
          decode_chunk_def decompress_loop.simps saturating_add_def USIZE_MAX_def message_count_add_def)
  qed
  with inflater_decode_total [OF raw_lib_within, of "[2, 0, 0, 16, 0, 0, 7, 8]" 10 "inflater_new AcceptNone"]
    raw_lib_within
  show ?thesis by fastforce
qed

theorem parse_stream_chunk_exact_witness:
  "length [0, 0, 16, 0, 0, 7, 8 :: u8] \<le> USIZE_MAX \<and>
   (parse_stream_chunk [0, 0, 16, 0, 0, 7, 8] True =
      Some \<lparr>sc_starts_frame = True, sc_dict_id = 0, sc_ends_frame = False\<rparr>) =
   chunk_layout [0, 0, 16, 0, 0, 7, 8] True \<lparr>sc_starts_frame = True, sc_dict_id = 0, sc_ends_frame = False\<rparr>"
  using parse_stream_chunk_exact [of "[0, 0, 16, 0, 0, 7, 8]" True
      "\<lparr>sc_starts_frame = True, sc_dict_id = 0, sc_ends_frame = False\<rparr>"]
  by (simp add: USIZE_MAX_def)

text \<open>
  C39. A client and a server that allow the same directions never stream-compress what the other cannot
  decode: the server compresses responses only if the client holds a decompressing state, it answers
  yes exactly when it decodes requests, and only to a client that may send them, and an optimistic
  client's requests are either decoded or the call is refused, which happens to optimistic calls
  only.
\<close>

theorem stream_offer_sound:
  assumes "request_stream_compression request = SC_None"
    and "offer_stream L request directions budget accept level optimistic = ((client, request'), budget')"
    and "negotiate_stream L' request' directions server_budget cfg = (server, server_budget')"
  shows "(svs_responses server \<noteq> None \<longrightarrow> cls_responses client \<noteq> None) \<and>
    (svs_answer server \<longleftrightarrow> svs_requests server \<noteq> None) \<and>
    (svs_answer server \<longrightarrow> cls_requests client \<noteq> None) \<and>
    (cls_requests client \<noteq> None \<longrightarrow>
       (cls_enable_requests client = Some True \<longrightarrow> svs_answer server \<or> refuses_optimistic request' server)) \<and>
    (refuses_optimistic request' server \<longrightarrow> cls_optimistic client \<and> \<not> svs_answer server)"
proof (cases "request_stream_compression request' = SC_None")
  case True
  then have "server = server_stream_default" "cls_requests client = None"
    using assms by (auto simp: negotiate_stream_def offer_stream_def offer_requests_def option_filter_def
        client_stream_default_def split: option.splits if_split_asm prod.splits)
  with True show ?thesis by (simp add: server_stream_default_def refuses_optimistic_def)
next
  case False
  have client: "cls_responses client \<noteq> None \<longleftrightarrow> cs_responses directions"
    "cls_requests client \<noteq> None \<longleftrightarrow> cs_requests directions"
    "cls_optimistic client \<longleftrightarrow> cs_requests directions \<and> optimistic"
    "cls_enable_requests client = Some True \<longrightarrow> cs_requests directions \<and> optimistic"
    "request_stream_compression request' = (if cs_requests directions \<and> optimistic then SC_Optimistic else SC_Enabled)"
    using False assms(1,2)
    by (auto simp: offer_stream_def offer_requests_def option_filter_def client_stream_default_def
        split: option.splits if_split_asm prod.splits)
  have "svs_responses server \<noteq> None \<longrightarrow> cs_responses directions"
    "svs_answer server \<longleftrightarrow> svs_requests server \<noteq> None" "svs_answer server \<longrightarrow> cs_requests directions"
    using assms(3)
    by (auto simp: negotiate_stream_def server_stream_default_def Let_def split: option.splits if_split_asm prod.splits)
  with client show ?thesis by (auto simp: refuses_optimistic_def split: if_split_asm)
qed

theorem stream_offer_sound_witness:
  "\<exists>client request' server.
     fst (offer_stream raw_lib (rpc_request_new ''/a.B/C'') \<lparr>cs_requests = True, cs_responses = True\<rparr>
       (Some 1000) AcceptNone 1 True) = (client, request') \<and>
     fst (negotiate_stream raw_lib request' \<lparr>cs_requests = True, cs_responses = True\<rparr> (Some 100) None) = server \<and>
     svs_responses server \<noteq> None \<and> cls_responses client \<noteq> None \<and>
     refuses_optimistic request' server \<and> cls_optimistic client"
proof -
  let ?d = "\<lparr>cs_requests = True, cs_responses = True\<rparr>"
  obtain client request' budget' where
    offer: "offer_stream raw_lib (rpc_request_new ''/a.B/C'') ?d (Some 1000) AcceptNone 1 True =
      ((client, request'), budget')"
    by (metis prod.exhaust)
  obtain server server_budget' where
    answer: "negotiate_stream raw_lib request' ?d (Some 100) None = (server, server_budget')"
    by (rule prod.exhaust)
  have "refuses_optimistic request' server" "svs_responses server \<noteq> None"
    using offer answer
    by (auto simp: offer_stream_def offer_requests_def negotiate_stream_def option_filter_def compress_stream_any_def
        raw_lib_def reserve_def server_decoder_cost_def refuses_optimistic_def server_stream_default_def Let_def
        split: if_split_asm)
  moreover have "request_stream_compression (rpc_request_new ''/a.B/C'') = SC_None"
    by (simp add: rpc_request_new_def request_stream_compression_def stream_compression_try_from_def)
  ultimately show ?thesis
    using stream_offer_sound [OF _ offer answer] offer answer by (metis fst_conv)
qed

text \<open>
  C17. Stream compression memory is conserved: however reservations are made, merged and given back,
  what is available and what is reserved add up to the budget, so the atomic addition never wraps and
  a reservation fails exactly when it would exceed the budget. A sender keeps that balance on every
  message, whether it starts a context, fails to, or loses it.
\<close>

theorem stream_memory_conserved:
  assumes "budget_run budget (available, rs)" and "budget \<le> USIZE_MAX"
  shows "available + sum_mset rs = budget \<and>
    (\<forall>cost. reserve cost available = None \<longleftrightarrow> budget < sum_mset rs + cost) \<and>
    (\<forall>L enabled d message s payload available' s'.
       sender_held s \<le> sum_mset rs \<longrightarrow>
       sender_encode L enabled d message available s = Some (payload, available', s') \<longrightarrow>
       available' + sender_held s' = available + sender_held s)"
proof (intro conjI allI impI)
  show conserved: "available + sum_mset rs = budget" by (rule budget_conserved [OF assms])
  show "reserve cost available = None \<longleftrightarrow> budget < sum_mset rs + cost" for cost
    using conserved by (auto simp: reserve_def)
  fix L enabled d message s payload available' s'
  assume "sender_held s \<le> sum_mset rs"
    and "sender_encode L enabled d message available s = Some (payload, available', s')"
  with conserved assms(2) show "available' + sender_held s' = available + sender_held s"
    by (intro sender_encode_conserves) simp_all
qed

theorem stream_memory_conserved_witness:
  "budget_run 1000 (640, {#360#}) \<and> (640 :: nat) + sum_mset {#360#} = 1000"
proof -
  have "budget_run 1000 (1000, {#})"
    by (rule budget_start) (simp add: stream_budget_new_def)
  from budget_reserve [OF this, of 360 360 640] have "budget_run 1000 (640, {#360#})"
    by (simp add: reserve_def)
  with stream_memory_conserved [OF this] show ?thesis by (simp add: USIZE_MAX_def)
qed

text \<open>
  Compressing a message ends if the library makes progress: given room, a call that does not finish leaves
  less to do, as \<open>todo\<close> measures it.
\<close>

lemma compress_chunk_returns:
  assumes progress: "\<And>e input space remaining produced consumed e'. 0 < space \<Longrightarrow>
      s_compress L e input space fin = (Inr remaining, produced, consumed, e') \<Longrightarrow>
      length produced \<le> space \<and> consumed \<le> length input \<and>
      (remaining = 0 \<and> consumed = length input \<or> todo e' (drop consumed input) < (todo e input :: nat))"
    and "length out \<le> cap" "pos \<le> length message"
  shows "\<exists>r. compress_chunk L message fin pos out cap e = Some r"
  using assms(2,3)
proof (induction "todo e (drop pos message)" arbitrary: pos out cap e rule: less_induct)
  case less
  define cap' where "cap' = (if length out = cap then length out + max (length out) 64 else cap)"
  have space: "0 < cap' - length out" using less.prems(1) by (auto simp: cap'_def)
  obtain r produced consumed e' where
    step: "s_compress L e (drop pos message) (cap' - length out) fin = (r, produced, consumed, e')"
    by (metis prod_cases4)
  show ?case
  proof (cases r)
    case (Inl name)
    then show ?thesis by (simp add: compress_chunk.simps [of L message fin pos out cap e] Let_def step flip: cap'_def)
  next
    case (Inr remaining)
    from progress [OF space step [unfolded Inr]] have
      made: "length produced \<le> cap' - length out" "consumed \<le> length (drop pos message)"
      "remaining = 0 \<and> consumed = length (drop pos message) \<or>
        todo e' (drop (pos + consumed) message) < todo e (drop pos message)" by (simp_all add: add.commute)
    have "length (out @ produced) \<le> cap'" "pos + consumed \<le> length message"
      using made(1,2) space less.prems(2) by simp_all
    from less.hyps [OF _ this] made(3) less.prems(2) Inr show ?thesis
      by (auto simp: compress_chunk.simps [of L message fin pos out cap e] Let_def step simp flip: cap'_def)
  qed
qed

end
