(* ===== verification/Negotiation.thy ===== *)
theory Negotiation
  imports Compression
begin

text \<open>
  What the negotiation of \<open>compression.rs\<close> achieves between a client and a server. A configuration
  that \<open>CompressionConfig::new\<close> returns is consistent (\<open>config_wf\<close>); the set a connection shares,
  however its calls and answers interleave, holds only dictionaries both peers hold
  (\<open>client_reach\<close>); so the dictionary either side compresses with is one the other side accepts, and
  messages survive it under the documented contract of the zstd library.
\<close>

subsection \<open>Consistent configurations\<close>

definition ids_wf :: "(u32 \<times> dict) list \<Rightarrow> bool" where
  "ids_wf ids \<longleftrightarrow> distinct (map fst ids) \<and>
     (\<forall>(k, d) \<in> set ids. d_id d = k \<and> di_id (d_info d) = k \<and>
        dictionary_id (d_data d) = (if k = PLAIN_ID then None else Some k))"

definition config_wf :: "compression_config \<Rightarrow> bool" where
  "config_wf cfg \<longleftrightarrow>
     ids_wf (cf_by_id cfg) \<and>
     config_dict cfg PLAIN_ID = Some (cf_plain cfg) \<and>
     snd ` set (cf_by_type cfg) \<subseteq> snd ` set (cf_by_id cfg) \<and>
     set (cf_query cfg) = d_info ` snd ` set (cf_by_id cfg)"

definition building_wf :: "dict set \<Rightarrow> compression_config \<Rightarrow> bool" where
  "building_wf extra cfg \<longleftrightarrow>
     ids_wf (cf_by_id cfg) \<and>
     config_dict cfg PLAIN_ID = Some (cf_plain cfg) \<and>
     snd ` set (cf_by_type cfg) \<subseteq> snd ` set (cf_by_id cfg) \<union> extra \<and>
     insert (d_info (cf_plain cfg)) (set (cf_query cfg)) =
       d_info ` (snd ` set (cf_by_id cfg) \<union> extra)"

definition valid_config :: "zstd_lib \<Rightarrow> compression_config \<Rightarrow> bool" where
  "valid_config Z cfg \<longleftrightarrow> cfg = plain_only \<or> (\<exists>c. config_new Z c = Inr cfg)"

subsection \<open>Connections\<close>

text \<open>The states of a client's connection to a server: new, or taught any answer of that server.\<close>

inductive client_reach ::
  "compression_config \<Rightarrow> compression_config option \<Rightarrow> client_compression \<Rightarrow> bool"
  for client server where
  connected: "client_reach client server (client_compression_new client)"
| answered: "client_reach client server (learn conn answer)"
    if "client_reach client server conn"
      and "sv_answer (negotiate server request response_type plain) = Some answer"

definition both_hold :: "compression_config \<Rightarrow> compression_config \<Rightarrow> dict \<Rightarrow> bool" where
  "both_hold client server d \<longleftrightarrow>
     config_dict client (d_id d) = Some d \<and>
     (\<exists>d'. config_dict server (d_id d) = Some d' \<and> same_dict d d')"

definition fresh_request :: "rpc_request \<Rightarrow> bool" where
  "fresh_request request \<longleftrightarrow> rq_accept_dictionaries request = [] \<and> rq_dictionary_query request = []"

text \<open>
  The documented contract of the library: a frame it writes carries the dictionary's ID, none without
  a dictionary, and the size of the content, as the parameters \<open>DictIdFlag\<close> and \<open>ContentSizeFlag\<close>
  ask, and decompresses to the message with the same dictionary. And of SHA-256: equal fingerprints
  under one ID are fingerprints of the same dictionary.
\<close>

definition zstd_laws :: "zstd_lib \<Rightarrow> bool" where
  "zstd_laws Z \<longleftrightarrow>
     (\<forall>data level message payload. z_compress Z data level message = Inr payload \<longrightarrow>
        parse_header payload =
          Some \<lparr>zh_dict_id = (case dictionary_id data of None \<Rightarrow> PLAIN_ID | Some i \<Rightarrow> i),
                zh_content_size = of_nat (length message)\<rparr> \<and>
        z_decompress Z data (length message) payload = Inr message)"

text \<open>A dictionary of the sender that the receiver accepts, with the same content.\<close>

definition shares_dict :: "accept \<Rightarrow> dict option \<Rightarrow> bool" where
  "shares_dict accept d = (case d of
     None \<Rightarrow> True
   | Some d \<Rightarrow>
       dictionary_id (d_data d) = (if d_id d = PLAIN_ID then None else Some (d_id d)) \<and>
       (case accept_lookup accept (d_id d) of
          None \<Rightarrow> False
        | Some e \<Rightarrow> d_data e = d_data d \<and> d_id e = d_id d))"

definition fingerprints_identify :: "compression_config \<Rightarrow> compression_config \<Rightarrow> bool" where
  "fingerprints_identify client server \<longleftrightarrow>
     (\<forall>j k d e. config_dict client j = Some d \<longrightarrow> config_dict server k = Some e \<longrightarrow>
        same_dict d e \<longrightarrow> d_data d = d_data e)"

subsection \<open>Lemmas\<close>

lemma ids_wf_Cons [simp]:
  "ids_wf ((k, d) # ids) \<longleftrightarrow> map_of ids k = None \<and> ids_wf ids \<and> d_id d = k \<and> di_id (d_info d) = k \<and>
     dictionary_id (d_data d) = (if k = PLAIN_ID then None else Some k)"
  by (auto simp: ids_wf_def map_of_eq_None_iff)

lemma ids_wf_Nil [simp]: "ids_wf []"
  by (simp add: ids_wf_def)

lemma dictionary_id_nonzero: "dictionary_id data = Some i \<Longrightarrow> i \<noteq> 0"
  by (auto simp: dictionary_id_def bind_eq_Some_conv Let_def split: if_split_asm)

lemma dictionary_id_nil [simp]: "dictionary_id [] = None"
  by (simp add: dictionary_id_def get_to_def)

lemma dict_new_fields:
  assumes "dict_new Z data level = Inr d"
  shows "dictionary_id data = Some (d_id d)" "d_data d = data" "di_id (d_info d) = d_id d" "d_id d \<noteq> PLAIN_ID"
  using assms dictionary_id_nonzero [of data "d_id d"]
  by (auto simp: dict_new_def and_then_Inr_iff PLAIN_ID_def)

lemma add_types_keeps:
  assumes "add_types d names cfg = Inr cfg'" and "building_wf {d} cfg"
  shows "building_wf {d} cfg' \<and> cf_by_id cfg' = cf_by_id cfg \<and> cf_plain cfg' = cf_plain cfg"
  using assms
proof (induction names arbitrary: cfg)
  case (Cons name names)
  then have "add_types d names (cfg\<lparr>cf_by_type := (name, d) # cf_by_type cfg\<rparr>) = Inr cfg'"
    by (simp split: if_split_asm)
  moreover have "building_wf {d} (cfg\<lparr>cf_by_type := (name, d) # cf_by_type cfg\<rparr>)"
    using Cons.prems(2) by (simp add: building_wf_def config_dict_def)
  ultimately show ?case using Cons.IH by fastforce
qed simp

lemma building_wf_start: "building_wf {} ((without_dictionaries level)\<lparr>cf_query := []\<rparr>)"
  by (simp add: building_wf_def without_dictionaries_def Let_def dict_plain_def config_dict_def)

lemma building_wf_add:
  assumes "building_wf {} cfg" and "dict_new Z data level = Inr d" and "config_dict cfg (d_id d) = None"
  shows "building_wf {d} (cfg\<lparr>cf_query := cf_query cfg @ [d_info d]\<rparr>)"
  using assms
  by (simp add: building_wf_def config_dict_def insert_commute [of "d_info (cf_plain cfg)"] subset_insertI2)

lemma building_wf_commit:
  assumes "building_wf {d} cfg" and "dict_new Z data level = Inr d" and "config_dict cfg (d_id d) = None"
  shows "building_wf {} (cfg\<lparr>cf_by_id := (d_id d, d) # cf_by_id cfg\<rparr>)"
  using assms dict_new_fields [OF assms(2)]
  by (auto simp: building_wf_def config_dict_def map_of_eq_None_iff)

lemma add_dictionaries_keeps:
  assumes "add_dictionaries Z level ds cfg = Inr cfg'" and "building_wf {} cfg"
  shows "building_wf {} cfg'"
  using assms
proof (induction ds arbitrary: cfg)
  case (Cons dictionary ds)
  from Cons.prems(1) obtain d cfg1 where
    d: "dict_new Z (dc_data dictionary) level = Inr d" and new: "config_dict cfg (d_id d) = None"
    and types: "add_types d (dc_messages dictionary) (cfg\<lparr>cf_query := cf_query cfg @ [d_info d]\<rparr>) = Inr cfg1"
    and more: "add_dictionaries Z level ds (cfg1\<lparr>cf_by_id := (d_id d, d) # cf_by_id cfg1\<rparr>) = Inr cfg'"
    by (auto simp: and_then_Inr_iff config_dict_def split: if_split_asm)
  from add_types_keeps [OF types building_wf_add [OF Cons.prems(2) d new]]
  have "building_wf {d} cfg1" "config_dict cfg1 (d_id d) = None"
    using new by (simp_all add: config_dict_def)
  from building_wf_commit [OF this(1) d this(2)] show ?case
    by (rule Cons.IH [OF more])
qed simp

lemma valid_config_wf: "valid_config Z cfg \<Longrightarrow> config_wf cfg"
  unfolding valid_config_def
proof (elim disjE exE)
  assume "cfg = plain_only"
  then show ?thesis
    by (simp add: config_wf_def plain_only_def without_dictionaries_def Let_def dict_plain_def config_dict_def)
next
  fix c
  assume "config_new Z c = Inr cfg"
  then obtain level cfg0 where
    "add_dictionaries Z level (co_dictionaries c) ((without_dictionaries level)\<lparr>cf_query := []\<rparr>) = Inr cfg0"
    and cfg: "cfg = cfg0\<lparr>cf_query := cf_query cfg0 @ [d_info (cf_plain cfg0)]\<rparr>"
    by (simp only: config_new_def Let_def and_then_Inr_iff sum.inject) blast
  from add_dictionaries_keeps [OF this(1) building_wf_start] show ?thesis
    by (simp add: config_wf_def building_wf_def config_dict_def cfg)
qed


lemma config_wf_dict:
  assumes "config_wf cfg" and "config_dict cfg k = Some d"
  shows "d_id d = k" "di_id (d_info d) = k" "dictionary_id (d_data d) = (if k = PLAIN_ID then None else Some k)"
    "config_matches cfg (d_info d) = Some d" "d_info d \<in> set (cf_query cfg)"
proof -
  have kd: "(k, d) \<in> set (cf_by_id cfg)"
    using assms(2) by (simp add: config_dict_def map_of_SomeD)
  with assms(1) show *: "d_id d = k" "di_id (d_info d) = k"
    "dictionary_id (d_data d) = (if k = PLAIN_ID then None else Some k)"
    by (auto simp: config_wf_def ids_wf_def)
  show "config_matches cfg (d_info d) = Some d"
    using * assms(2) by (simp add: config_matches_def option_filter_def)
  from kd have "d_info d \<in> d_info ` snd ` set (cf_by_id cfg)" by force
  then show "d_info d \<in> set (cf_query cfg)"
    using assms(1) by (simp add: config_wf_def)
qed

lemma config_matches_Some:
  assumes "config_wf cfg" and "config_matches cfg info = Some d"
  shows "d_info d = info" "config_dict cfg (d_id d) = Some d" "d_id d = di_id info"
proof -
  have "config_dict cfg (di_id info) = Some d" "d_info d = info"
    using assms(2) by (auto simp: config_matches_def option_filter_def split: option.splits if_split_asm)
  with config_wf_dict(1) [OF assms(1)]
  show "d_info d = info" "config_dict cfg (d_id d) = Some d" "d_id d = di_id info" by auto
qed

lemma dict_for_Some:
  assumes "config_wf cfg" and "dict_for cfg name plain usable = Some d"
  shows "config_dict cfg (d_id d) = Some d" "usable d"
proof -
  have in_ids: "config_dict cfg (d_id e) = Some e" if "(k, e) \<in> set (cf_by_id cfg)" for k e
    using assms(1) that by (auto simp: config_wf_def ids_wf_def config_dict_def)
  from assms(2) have "(dict_for_type cfg name = Some d \<or> d = cf_plain cfg) \<and> usable d"
    by (auto simp: dict_for_def option_filter_def split: option.splits if_split_asm)
  moreover have "config_dict cfg (d_id d) = Some d" if "dict_for_type cfg name = Some d"
  proof -
    have "d \<in> snd ` set (cf_by_type cfg)"
      using that by (force simp: dict_for_type_def bind_eq_Some_conv dest: map_of_SomeD)
    with assms(1) show ?thesis by (force simp: config_wf_def intro: in_ids)
  qed
  moreover have "config_dict cfg (d_id (cf_plain cfg)) = Some (cf_plain cfg)"
    using assms(1) config_wf_dict(1) [OF assms(1), of PLAIN_ID] by (simp add: config_wf_def)
  ultimately show "config_dict cfg (d_id d) = Some d" "usable d" by auto
qed

lemma learn_set_in:
  "d \<in> set (learn_set cfg shared answer) \<Longrightarrow>
   d \<in> set shared \<or> (\<exists>info \<in> set answer. config_matches cfg info = Some d)"
proof (induction answer arbitrary: shared)
  case (Cons info answer)
  show ?case
  proof (cases "config_matches cfg info")
    case None
    then show ?thesis using Cons by auto
  next
    case (Some e)
    then have "d \<in> set (learn_set cfg (if dict_in e shared then shared else shared @ [e]) answer)"
      using Cons.prems by simp
    from Cons.IH [OF this] Some show ?thesis by (auto split: if_split_asm)
  qed
qed simp

lemma answer_query_in:
  "info \<in> set (answer_query cfg answer query) \<Longrightarrow>
   info \<in> set answer \<or> (info \<in> set query \<and> (\<exists>d. config_matches cfg info = Some d \<and> d_info d = info))"
proof (induction query arbitrary: answer)
  case (Cons i query)
  show ?case
  proof (cases "config_matches cfg i")
    case None
    then show ?thesis using Cons by auto
  next
    case (Some e)
    then have e: "d_info e = i"
      by (auto simp: config_matches_def option_filter_def split: option.splits if_split_asm)
    have "info \<in> set (answer_query cfg (if d_info e \<in> set answer then answer else answer @ [d_info e]) query)"
      using Cons.prems Some by simp
    from Cons.IH [OF this] Some e show ?thesis by (auto split: if_split_asm)
  qed
qed simp

lemma sv_answer_in:
  assumes "sv_answer (negotiate server request response_type plain) = Some answer" and "info \<in> set answer"
  shows "info \<in> set (rq_dictionary_query request)"
    "\<exists>d. config_matches (config_or_plain server) info = Some d \<and> d_info d = info"
  using answer_query_in [of info "config_or_plain server" "[]" "rq_dictionary_query request"] assms
  by (auto simp: negotiate_def Let_def split: if_split_asm)

lemma client_reach_shared:
  assumes "client_reach client server conn" and "config_wf client" and "config_wf (config_or_plain server)"
  shows "cl_config conn = client \<and>
    (\<forall>ds. cl_shared conn = Some ds \<longrightarrow> (\<forall>d \<in> set ds. both_hold client (config_or_plain server) d))"
  using assms(1)
proof induction
  case connected
  show ?case by (simp add: client_compression_new_def)
next
  case (answered conn request response_type plain answer)
  have "both_hold client (config_or_plain server) d" if "d \<in> set (learn_set client [] answer)" for d
  proof -
    from learn_set_in [OF that] obtain info where
      info: "info \<in> set answer" and d: "config_matches client info = Some d" by auto
    from sv_answer_in(2) [OF answered(2) info] obtain d' where
      d': "config_matches (config_or_plain server) info = Some d'" "d_info d' = info" by blast
    show ?thesis
      using config_matches_Some [OF assms(2) d] config_matches_Some [OF assms(3) d'(1)]
      by (auto simp: both_hold_def same_dict_def)
  qed
  with answered.IH show ?case
    by (auto simp: learn_def split: option.splits)
qed

lemma config_same_dict:
  assumes "config_wf cfg" and "config_dict cfg j = Some d" and "config_dict cfg k = Some e" and "same_dict d e"
  shows "d = e"
  using assms config_wf_dict(2) [OF assms(1) assms(2)] config_wf_dict(2) [OF assms(1) assms(3)]
  by (simp add: same_dict_def)

lemma dict_in_shared:
  assumes "dict_in d ds" and "\<forall>e \<in> set ds. both_hold client server e"
    and "config_wf client" and "config_dict client (d_id d) = Some d"
  shows "both_hold client server d"
proof -
  obtain e where e: "e \<in> set ds" "same_dict e d"
    using assms(1) by (auto simp: dict_in_def list_ex_iff)
  then have "both_hold client server e" using assms(2) by blast
  moreover from this config_same_dict [OF assms(3) _ assms(4) e(2)] have "e = d"
    by (auto simp: both_hold_def)
  ultimately show ?thesis by simp
qed

lemma query_member:
  assumes "config_wf cfg" and "info \<in> set (cf_query cfg)"
  shows "\<exists>d. config_dict cfg (di_id info) = Some d \<and> d_info d = info"
proof -
  obtain k d where kd: "(k, d) \<in> set (cf_by_id cfg)" "d_info d = info"
    using assms by (auto simp: config_wf_def)
  with assms(1) have "config_dict cfg k = Some d" "di_id info = k"
    by (auto simp: config_wf_def ids_wf_def config_dict_def)
  with kd show ?thesis by auto
qed

lemma prepare_query:
  assumes "rq_dictionary_query request = []"
  shows "rq_dictionary_query (snd (prepare conn types plain request)) =
    (if cl_shared conn = None then cf_query (cl_config conn) else [])"
  using assms by (simp add: prepare_def Let_def split: option.splits)

lemma prepare_accept:
  assumes "rq_accept_dictionaries request = []"
  shows "case dict_for (cl_config conn) (map_option mt_response types) (cmp_responses plain)
      (shared_usable (cl_shared conn)) of
    None \<Rightarrow> cc_accept (fst (prepare conn types plain request)) = AcceptNone \<and>
      rq_accept_dictionaries (snd (prepare conn types plain request)) = []
  | Some d \<Rightarrow> cc_accept (fst (prepare conn types plain request)) = AcceptOne d \<and>
      rq_accept_dictionaries (snd (prepare conn types plain request)) = [d_id d]"
  using assms by (simp add: prepare_def Let_def client_call_default_def split: option.splits)

lemma prepare_requests:
  "cc_requests (fst (prepare conn types plain request)) =
    (case dict_for (cl_config conn) (map_option mt_request types) (cmp_requests plain)
       (shared_usable (cl_shared conn)) of
       None \<Rightarrow> NoDict
     | Some d \<Rightarrow> if cl_shared conn = None then PendingDict d else KnownDict d)"
  by (auto simp: prepare_def Let_def client_call_default_def dict_for_def shared_usable_def option_filter_def
      split: option.splits if_split_asm)

lemma negotiate_response:
  assumes "config_wf (config_or_plain server)"
    and "sv_responses (negotiate server request response_type plain) = Some d"
  shows "config_dict (config_or_plain server) (d_id d) = Some d"
    "d_id d \<in> set (rq_accept_dictionaries request)"
    "rq_dictionary_query request \<noteq> [] \<Longrightarrow> d_info d \<in> set (rq_dictionary_query request)"
proof -
  from assms(2) have d: "dict_for (config_or_plain server) response_type (cmp_responses plain) (\<lambda>d.
      d_id d \<in> set (rq_accept_dictionaries request) \<and>
      (case sv_answer (negotiate server request response_type plain) of
         None \<Rightarrow> True | Some answer \<Rightarrow> d_info d \<in> set answer)) = Some d"
    by (simp add: negotiate_def Let_def)
  from dict_for_Some [OF assms(1) d]
  show "config_dict (config_or_plain server) (d_id d) = Some d" "d_id d \<in> set (rq_accept_dictionaries request)"
    by simp_all
  assume "rq_dictionary_query request \<noteq> []"
  then obtain answer where answer: "sv_answer (negotiate server request response_type plain) = Some answer"
    by (simp add: negotiate_def Let_def)
  with dict_for_Some(2) [OF assms(1) d] have "d_info d \<in> set answer" by simp
  from sv_answer_in(1) [OF answer this] show "d_info d \<in> set (rq_dictionary_query request)" .
qed

lemma response_dictionary_agrees:
  assumes "config_wf client" and "config_wf (config_or_plain server)" and "client_reach client server conn"
    and "fresh_request request" and "prepare conn types plain request = (call, request')"
    and "sv_responses (negotiate server request' response_type plain') = Some e"
  shows "\<exists>d. cc_accept call = AcceptOne d \<and> d_id d = d_id e \<and> same_dict d e \<and>
    config_dict client (d_id e) = Some d \<and> config_dict (config_or_plain server) (d_id e) = Some e"
proof -
  note e = negotiate_response [OF assms(2,6)]
  have client: "cl_config conn = client" and
    shared: "\<forall>ds. cl_shared conn = Some ds \<longrightarrow> (\<forall>d \<in> set ds. both_hold client (config_or_plain server) d)"
    using client_reach_shared [OF assms(3,1,2)] by auto
  have "rq_accept_dictionaries request = []" using assms(4) by (simp add: fresh_request_def)
  from prepare_accept [OF this, of conn types plain] e(2) obtain d where
    d: "dict_for client (map_option mt_response types) (cmp_responses plain) (shared_usable (cl_shared conn)) = Some d"
    and accept: "cc_accept call = AcceptOne d" and ids: "d_id d = d_id e"
    by (auto simp: assms(5) client split: option.splits)
  note held = dict_for_Some [OF assms(1) d]
  have "same_dict d e"
  proof (cases "cl_shared conn")
    case None
    then have "rq_dictionary_query request' = cf_query client"
      using prepare_query [of request conn types plain] assms(4,5) by (simp add: fresh_request_def client)
    moreover have "cf_query client \<noteq> []"
      using config_wf_dict(5) [OF assms(1) held(1)] by auto
    ultimately have "d_info e \<in> set (cf_query client)" using e(3) by simp
    from query_member [OF assms(1) this] config_wf_dict(2) [OF assms(2) e(1)] held(1) ids show ?thesis
      by (auto simp: same_dict_def)
  next
    case (Some ds)
    then have "both_hold client (config_or_plain server) d"
      using held shared by (intro dict_in_shared [OF _ _ assms(1) held(1)]) (auto simp: shared_usable_def)
    with e(1) ids show ?thesis by (simp add: both_hold_def)
  qed
  with accept ids held(1) e(1) show ?thesis by auto
qed

lemma request_dictionary_agrees:
  assumes "config_wf client" and "config_wf (config_or_plain server)"
    and "client_reach client server conn" and "client_reach client server conn'"
    and "prepare conn types plain request = (call, request')"
    and "call_dict_get conn' (cc_requests call) = Some d"
  shows "both_hold client (config_or_plain server) d"
proof -
  have client: "cl_config conn = client" and
    shared: "\<forall>ds. cl_shared conn = Some ds \<longrightarrow> (\<forall>d \<in> set ds. both_hold client (config_or_plain server) d)"
    "\<forall>ds. cl_shared conn' = Some ds \<longrightarrow> (\<forall>d \<in> set ds. both_hold client (config_or_plain server) d)"
    using client_reach_shared [OF assms(3,1,2)] client_reach_shared [OF assms(4,1,2)] by auto
  from assms(5,6) prepare_requests [of conn types plain request] obtain ds where
    d: "dict_for client (map_option mt_request types) (cmp_requests plain) (shared_usable (cl_shared conn)) = Some d"
    and ds: "cl_shared conn = Some ds \<or> cl_shared conn' = Some ds \<and> dict_in d ds"
    by (auto simp: client option_filter_def split: option.splits if_split_asm)
  note held = dict_for_Some [OF assms(1) d]
  from ds held(2) have "dict_in d ds" "\<forall>e \<in> set ds. both_hold client (config_or_plain server) e"
    using shared by (auto simp: shared_usable_def)
  from dict_in_shared [OF this assms(1) held(1)] show ?thesis .
qed

lemma inflate_compressed:
  assumes "zstd_laws Z" and "dict_compress Z d message = Some payload"
    and "dictionary_id (d_data d) = (if d_id d = PLAIN_ID then None else Some (d_id d))"
    and "accept_lookup accept (d_id d) = Some e" and "d_data e = d_data d" and "d_id e = d_id d"
    and "length message \<le> max_size" and "max_size \<le> USIZE_MAX"
  shows "inflate Z accept payload max_size =
    (Inr message, if is_plain d then count_plain accept else accept)"
proof -
  have z: "z_compress Z (d_data d) (d_level d) message = Inr payload"
    using assms(2) by (auto simp: dict_compress_def split: if_split_asm sum.splits)
  then have header: "parse_header payload =
      Some \<lparr>zh_dict_id = d_id d, zh_content_size = of_nat (length message)\<rparr>"
    and dec: "z_decompress Z (d_data d) (length message) payload = Inr message"
    using assms(1,3) by (auto simp: zstd_laws_def PLAIN_ID_def)
  have len: "unat (of_nat (length message) :: u64) = length message"
    using assms(7,8) by (intro unat_of_nat_less) (simp add: USIZE_MAX_def)
  have "accept \<noteq> AcceptNone" using assms(4) by auto
  then show ?thesis
    using assms(4-7) dec
    by (simp add: inflate_def header len dict_decompress_def Let_def is_plain_def)
qed

lemma accept_lookup_count_plain [simp]: "accept_lookup (count_plain a) = accept_lookup a"
  by (cases a) (simp_all add: fun_eq_iff)

lemma shares_dict_cong: "accept_lookup a = accept_lookup b \<Longrightarrow> shares_dict a d = shares_dict b d"
  by (simp add: shares_dict_def split: option.splits)

definition example_request :: rpc_request where
  "example_request = snd (prepare (client_compression_new plain_only) None
     \<lparr>cmp_requests = True, cmp_responses = True\<rparr> (rpc_request_new ''/a.B/C''))"

definition example_call :: client_call where
  "example_call = fst (prepare (client_compression_new plain_only) None
     \<lparr>cmp_requests = True, cmp_responses = True\<rparr> (rpc_request_new ''/a.B/C''))"

lemma rle_zstd_laws: "zstd_laws rle_zstd"
proof -
  have "of_nat (length message) = (300 :: u64) \<and> replicate (length message) (hd message) = message"
    if "message = replicate 300 (hd message)" for message :: bytes
    using that by (metis length_replicate of_nat_numeral)
  then show ?thesis
    by (auto simp: zstd_laws_def rle_zstd_def rle_frame_header PLAIN_ID_def split: if_split_asm)
qed

lemma example_negotiation:
  "cc_accept example_call = AcceptOne (dict_plain 1)"
  "sv_responses (negotiate None example_request None \<lparr>cmp_requests = False, cmp_responses = True\<rparr>) =
     Some (dict_plain 1)"
  "call_dict_get (learn (client_compression_new plain_only) [d_info (dict_plain 1)])
     (cc_requests example_call) = Some (dict_plain 1)"
  "sv_answer (negotiate None example_request None \<lparr>cmp_requests = False, cmp_responses = True\<rparr>) =
     Some [d_info (dict_plain 1)]"
  "dict_compress rle_zstd (dict_plain 1) (replicate 300 7) = Some [0x60, 44, 0, 0x63, 9, 0, 7]"
  by code_simp+

lemma example_reach:
  "client_reach plain_only None (client_compression_new plain_only)"
  "client_reach plain_only None (learn (client_compression_new plain_only) [d_info (dict_plain 1)])"
  using client_reach.intros example_negotiation(4) by blast+

lemma example_prepared:
  "prepare (client_compression_new plain_only) None \<lparr>cmp_requests = True, cmp_responses = True\<rparr>
     (rpc_request_new ''/a.B/C'') = (example_call, example_request)"
  "fresh_request (rpc_request_new ''/a.B/C'')" "valid_config Z plain_only" "config_or_plain None = plain_only"
  by (simp_all add: example_call_def example_request_def fresh_request_def rpc_request_new_def
      valid_config_def config_or_plain_def)

text \<open>
  C15. Both sides agree on dictionaries, whatever order calls and answers take on a connection: the
  dictionary a server picks for the responses is the one the client said it accepts, with the same ID
  and fingerprint, and the dictionary a client compresses requests with, from the start of a call or
  as soon as an answer arrives, is one the server holds with the same fingerprint.
\<close>

theorem negotiated_dictionaries_agree:
  assumes "valid_config Z client" and "valid_config Z' (config_or_plain server)"
    and "client_reach client server conn" and "client_reach client server conn'"
    and "fresh_request request" and "prepare conn types plain request = (call, request')"
  shows "(\<forall>e. sv_responses (negotiate server request' response_type plain') = Some e \<longrightarrow>
      (\<exists>d. cc_accept call = AcceptOne d \<and> d_id d = d_id e \<and> same_dict d e)) \<and>
    (\<forall>d. call_dict_get conn' (cc_requests call) = Some d \<longrightarrow>
      (\<exists>e. accept_lookup (accept_server server) (d_id d) = Some e \<and> same_dict d e))"
  using response_dictionary_agrees [OF valid_config_wf valid_config_wf, OF assms(1-3,5,6)]
    request_dictionary_agrees [OF valid_config_wf valid_config_wf, OF assms(1-4,6)]
  unfolding both_hold_def accept_server_def accept_lookup.simps by blast

theorem negotiated_dictionaries_agree_witness:
  "(\<exists>d. cc_accept example_call = AcceptOne d \<and> d_id d = 0 \<and> same_dict d (dict_plain 1)) \<and>
   (\<exists>e. accept_lookup (accept_server None) 0 = Some e \<and> same_dict (dict_plain 1) e)"
  using negotiated_dictionaries_agree [of rle_zstd plain_only rle_zstd None, OF _ _ example_reach example_prepared(2,1),
      of None "\<lparr>cmp_requests = False, cmp_responses = True\<rparr>"]
    example_negotiation(2,3) example_prepared(3,4)
  by (fastforce simp: dict_plain_def PLAIN_ID_def)

text \<open>
  C14. Compressed messages arrive: what a server compresses with the negotiated dictionary the client
  inflates to the same message, and what a client compresses the server does, as long as the message
  is within the receiver's limit.
\<close>

theorem negotiated_messages_decode:
  assumes "zstd_laws Z" and "valid_config Z client" and "valid_config Z (config_or_plain server)"
    and "fingerprints_identify client (config_or_plain server)"
    and "client_reach client server conn" and "client_reach client server conn'"
    and "fresh_request request" and "prepare conn types plain request = (call, request')"
    and "length message \<le> max_size" and "max_size \<le> USIZE_MAX"
  shows "(\<forall>e payload. sv_responses (negotiate server request' response_type plain') = Some e \<longrightarrow>
      dict_compress Z e message = Some payload \<longrightarrow>
      inflate Z (cc_accept call) payload max_size = (Inr message, cc_accept call)) \<and>
    (\<forall>d payload. call_dict_get conn' (cc_requests call) = Some d \<longrightarrow>
      dict_compress Z d message = Some payload \<longrightarrow>
      fst (inflate Z (accept_server server) payload max_size) = Inr message)"
proof (intro conjI allI impI)
  note wf = valid_config_wf [OF assms(2)] valid_config_wf [OF assms(3)]
  fix e payload
  assume e: "sv_responses (negotiate server request' response_type plain') = Some e"
    and payload: "dict_compress Z e message = Some payload"
  from response_dictionary_agrees [OF wf assms(5,7,8) e] obtain d where
    d: "cc_accept call = AcceptOne d" "d_id d = d_id e" "same_dict d e"
    "config_dict client (d_id e) = Some d" "config_dict (config_or_plain server) (d_id e) = Some e"
    by blast
  with assms(4) have "d_data d = d_data e" by (auto simp: fingerprints_identify_def)
  from inflate_compressed [OF assms(1) payload config_wf_dict(3) [OF wf(2) d(5)] _ this d(2) assms(9,10), of "cc_accept call"]
  show "inflate Z (cc_accept call) payload max_size = (Inr message, cc_accept call)"
    by (simp add: d(1,2))
next
  note wf = valid_config_wf [OF assms(2)] valid_config_wf [OF assms(3)]
  fix d payload
  assume d: "call_dict_get conn' (cc_requests call) = Some d"
    and payload: "dict_compress Z d message = Some payload"
  from request_dictionary_agrees [OF wf assms(5,6,8) d] obtain e where
    held: "config_dict client (d_id d) = Some d" "config_dict (config_or_plain server) (d_id d) = Some e" "same_dict d e"
    by (auto simp: both_hold_def)
  with assms(4) have "d_data e = d_data d" by (fastforce simp: fingerprints_identify_def)
  from inflate_compressed [OF assms(1) payload config_wf_dict(3) [OF wf(1) held(1)] _ this
      config_wf_dict(1) [OF wf(2) held(2)] assms(9,10), of "accept_server server"] held(2)
  show "fst (inflate Z (accept_server server) payload max_size) = Inr message"
    by (simp add: accept_server_def)
qed

theorem negotiated_messages_decode_witness:
  "inflate rle_zstd (cc_accept example_call) [0x60, 44, 0, 0x63, 9, 0, 7] 1000 =
     (Inr (replicate 300 7), cc_accept example_call) \<and>
   fst (inflate rle_zstd (accept_server None) [0x60, 44, 0, 0x63, 9, 0, 7] 1000) = Inr (replicate 300 7)"
proof -
  have "fingerprints_identify plain_only (config_or_plain None)"
    by (auto simp: fingerprints_identify_def example_prepared(4) plain_only_def without_dictionaries_def
        config_dict_def Let_def split: if_split_asm)
  then show ?thesis
    using negotiated_messages_decode [OF rle_zstd_laws _ _ _ example_reach example_prepared(2,1),
        of "replicate 300 7" 1000 None "\<lparr>cmp_requests = False, cmp_responses = True\<rparr>"]
      example_negotiation example_prepared(3,4)
    by (simp add: USIZE_MAX_def)
qed

end
