(* ===== verification/Datagram.thy ===== *)
theory Datagram
  imports Stream_Compression Negotiation "HOL-Library.Sublist"
begin

text \<open>
  Unreliable messages in datagrams, \<open>datagram.rs\<close>: which directions may use them, the codec of a
  datagram, the cached size limit of a connection and the sender of one call. Times are
  nanoseconds. The datagrams a sender hands to the transport are the list \<open>ba_wire\<close>; what the
  transport does with each is the argument \<open>outcome\<close>, by the number of datagrams tried before it.
\<close>

subsection \<open>Directions\<close>

definition unreliable_none :: unreliable where
  "unreliable_none = \<lparr>ur_requests = False, ur_responses = False\<rparr>"

definition unreliable_any :: "unreliable \<Rightarrow> bool" where
  "unreliable_any u \<longleftrightarrow> ur_requests u \<or> ur_responses u"

definition unreliable_union :: "unreliable \<Rightarrow> unreliable \<Rightarrow> unreliable" where
  "unreliable_union u v =
     \<lparr>ur_requests = ur_requests u \<or> ur_requests v, ur_responses = ur_responses u \<or> ur_responses v\<rparr>"

definition unreliable_effective :: "unreliable \<Rightarrow> rpc_kind \<Rightarrow> unreliable" where
  "unreliable_effective u kind =
     \<lparr>ur_requests = ur_requests u \<and> streams_requests kind,
      ur_responses = ur_responses u \<and> streams_responses kind\<rparr>"

subsection \<open>The link\<close>

definition MAX_SIZE_REUSE_MILLIS :: nat where
  "MAX_SIZE_REUSE_MILLIS = 100"

definition UNREAD :: nat where
  "UNREAD = 2 ^ 64 - 1"

record link =
  lk_max_size :: usize
  lk_read_at :: nat

definition link_new :: link where
  "link_new = \<lparr>lk_max_size = 0, lk_read_at = UNREAD\<rparr>"

text \<open>\<open>elapsed\<close> is the time since the link's epoch, \<open>current\<close> the transport's limit now.\<close>

definition elapsed_millis :: "nat \<Rightarrow> nat" where
  "elapsed_millis elapsed =
     (if elapsed div 1000000 < 2 ^ 64 then elapsed div 1000000 else 2 ^ 64 - 2)"

definition link_max_size :: "usize option \<Rightarrow> nat \<Rightarrow> link \<Rightarrow> usize option \<times> link" where
  "link_max_size current elapsed l =
     (let now = elapsed_millis elapsed in
      if lk_read_at l \<noteq> UNREAD \<and> now - lk_read_at l < MAX_SIZE_REUSE_MILLIS
      then (if lk_max_size l = 0 then None else Some (lk_max_size l - 1), l)
      else (current,
            l\<lparr>lk_max_size := (case current of None \<Rightarrow> 0 | Some limit \<Rightarrow> saturating_add limit 1),
              lk_read_at := now\<rparr>))"

definition reread_max_size :: "link \<Rightarrow> link" where
  "reread_max_size l = l\<lparr>lk_read_at := UNREAD\<rparr>"

subsection \<open>The codec\<close>

definition message_frame_len :: "usize \<Rightarrow> usize" where
  "message_frame_len payload_len =
     saturating_add (saturating_add payload_len (encoded_len (of_nat payload_len))) 1"

text \<open>\<open>let _ = varint::push(..)\<close>: a value that cannot be encoded is left out.\<close>

definition push_ignored :: "bytes \<Rightarrow> u64 \<Rightarrow> bytes" where
  "push_ignored out v = (case push out v of Inr out' \<Rightarrow> out' | Inl _ \<Rightarrow> out)"

definition put_message_frame :: "bytes \<Rightarrow> u64 \<Rightarrow> bytes \<Rightarrow> bytes" where
  "put_message_frame datagram frame_type message =
     push_ignored (push_ignored datagram frame_type) (of_nat (length message)) @ message"

definition flow_header :: "bytes \<Rightarrow> u64 \<Rightarrow> bytes option" where
  "flow_header pre flow = ok (push pre flow)"

definition next_frame :: "bytes \<Rightarrow> usize \<Rightarrow> (u64 \<times> usize \<times> usize) option" where
  "next_frame buf offset =
     Option.bind (get_from buf offset) (\<lambda>rest.
     Option.bind (decode rest) (\<lambda>(frame_type, type_len).
     Option.bind (get_from rest type_len) (\<lambda>tail.
     Option.bind (decode tail) (\<lambda>(len, length_len).
     Option.bind (Option.bind (checked_add offset type_len) (\<lambda>n. checked_add n length_len)) (\<lambda>start.
     Option.bind (checked_add start (unat len)) (\<lambda>stop.
       if stop \<le> length buf then Some (frame_type, start, stop) else None))))))"

record messages =
  ms_datagram :: bytes
  ms_offset :: usize

lemma next_frame_grows:
  assumes "next_frame buf offset = Some (frame_type, start, stop)"
  shows "offset < start" "start \<le> stop" "stop \<le> length buf"
  using assms
  by (auto simp: next_frame_def bind_eq_Some_conv dest!: decode_Some_length(1) split: if_split_asm)

lemma next_frame_progress:
  "next_frame buf offset = Some (frame_type, start, stop) \<Longrightarrow> offset < stop \<and> stop \<le> length buf"
  using next_frame_grows by (meson less_le_trans)

text \<open>\<open>Iterator::next\<close> of the messages of a datagram.\<close>

function messages_next :: "messages \<Rightarrow> (u64 \<times> bytes) option \<times> messages" where
  "messages_next ms =
     (case next_frame (ms_datagram ms) (ms_offset ms) of
        None \<Rightarrow> (None, ms)
      | Some (frame_type, start, stop) \<Rightarrow>
          (let ms' = ms\<lparr>ms_offset := stop\<rparr> in
           if frame_type = MESSAGE \<or> frame_type = ZSTD_MESSAGE
           then (Some (frame_type, take (stop - start) (drop start (ms_datagram ms))), ms')
           else messages_next ms'))"
  by pat_completeness auto
termination
  by (relation "measure (\<lambda>ms. length (ms_datagram ms) - ms_offset ms)")
    (auto dest!: next_frame_progress)

declare messages_next.simps [simp del]

lemma messages_next_grows:
  "messages_next ms = (Some m, ms') \<Longrightarrow>
   ms_datagram ms' = ms_datagram ms \<and> ms_offset ms < ms_offset ms' \<and>
   ms_offset ms' \<le> length (ms_datagram ms)"
proof (induction ms rule: messages_next.induct)
  case (1 ms)
  show ?case
  proof (cases "next_frame (ms_datagram ms) (ms_offset ms)")
    case None
    then show ?thesis using 1(2) by (simp add: messages_next.simps [of ms])
  next
    case (Some f)
    obtain frame_type start stop where f: "f = (frame_type, start, stop)" by (rule prod_cases3)
    note grows = next_frame_grows [OF Some [unfolded f]]
    show ?thesis
    proof (cases "frame_type = MESSAGE \<or> frame_type = ZSTD_MESSAGE")
      case True
      then show ?thesis
        using 1(2) grows by (auto simp: messages_next.simps [of ms] Some f Let_def)
    next
      case False
      then have "messages_next (ms\<lparr>ms_offset := stop\<rparr>) = (Some m, ms')"
        using 1(2) by (simp add: messages_next.simps [of ms] Some f Let_def)
      from 1(1) [OF Some [unfolded f] refl refl refl False this] grows show ?thesis by simp
    qed
  qed
qed

text \<open>The messages an iterator still yields, in order.\<close>

function messages_all :: "messages \<Rightarrow> (u64 \<times> bytes) list" where
  "messages_all ms =
     (case messages_next ms of (None, _) \<Rightarrow> [] | (Some m, ms') \<Rightarrow> m # messages_all ms')"
  by pat_completeness auto
termination
proof (relation "measure (\<lambda>ms. length (ms_datagram ms) - ms_offset ms)", goal_cases)
  case (2 ms opt ms' m)
  then have "messages_next ms = (Some m, ms')" by simp
  from messages_next_grows [OF this] show ?case by (simp add: diff_less_mono2)
qed simp

declare messages_all.simps [simp del]

text \<open>\<open>collect::<Option<Vec<_>>>\<close>: the first rejected message drops the datagram.\<close>

fun inflate_messages ::
  "zstd_lib \<Rightarrow> usize \<Rightarrow> accept \<Rightarrow> (u64 \<times> bytes) list \<Rightarrow> bytes list option \<times> accept" where
  "inflate_messages Z max_frame_size accept [] = (Some [], accept)"
| "inflate_messages Z max_frame_size accept ((frame_type, payload) # rest) =
     (case (if frame_type = ZSTD_MESSAGE then inflate Z accept payload max_frame_size
            else (Inr payload, accept)) of
        (Inl _, accept) \<Rightarrow> (None, accept)
      | (Inr message, accept) \<Rightarrow>
          (case inflate_messages Z max_frame_size accept rest of
             (None, accept) \<Rightarrow> (None, accept)
           | (Some tail, accept) \<Rightarrow> (Some (message # tail), accept)))"

definition messages_inflate ::
  "zstd_lib \<Rightarrow> usize \<Rightarrow> accept \<Rightarrow> messages \<Rightarrow> bytes list option \<times> accept" where
  "messages_inflate Z max_frame_size accept ms =
     inflate_messages Z max_frame_size accept (messages_all ms)"

text \<open>The loop of \<open>decode\<close>: whether the frames from an offset exactly fill the datagram.\<close>

function frames_fill :: "bytes \<Rightarrow> usize \<Rightarrow> usize \<Rightarrow> bool" where
  "frames_fill datagram max_frame_size offset =
     (if offset < length datagram then
        (case next_frame datagram offset of
           None \<Rightarrow> False
         | Some (frame_type, start, stop) \<Rightarrow>
             if (frame_type = MESSAGE \<and> max_frame_size < stop - start) \<or>
                frame_type = ZSTD_STREAM_MESSAGE
             then False else frames_fill datagram max_frame_size stop)
      else True)"
  by pat_completeness auto
termination
  by (relation "measure (\<lambda>(datagram, _, offset). length datagram - offset)")
    (auto dest!: next_frame_progress)

declare frames_fill.simps [simp del]

definition datagram_decode :: "bytes \<Rightarrow> usize \<Rightarrow> (u64 \<times> messages) option" where
  "datagram_decode datagram max_frame_size =
     Option.bind (decode datagram) (\<lambda>(flow, flow_len).
       if flow = 0 then None
       else if frames_fill datagram max_frame_size flow_len
       then Some (flow, \<lparr>ms_datagram = datagram, ms_offset = flow_len\<rparr>)
       else None)"

subsection \<open>Sending\<close>

record flow_sender =
  fs_header :: bytes
  fs_max_frame_size :: usize
  fs_compress :: call_dict

definition with_compression :: "flow_sender \<Rightarrow> call_dict \<Rightarrow> flow_sender" where
  "with_compression f d = f\<lparr>fs_compress := d\<rparr>"

text \<open>
  What becomes of a datagram: sent or refused at once, or after waiting for room, in which case
  \<open>cancelled\<close> may finish first.
\<close>

datatype wait_outcome = WaitCancelled | WaitSent | WaitRefused

datatype send_outcome = SentNow | RefusedNow | MustWait wait_outcome

record batch =
  ba_datagram :: bytes
  ba_packed :: "bytes list"
  ba_on_stream :: "bytes list"
  ba_fired :: bool
  ba_queued :: u64
  ba_link :: link
  ba_wire :: "bytes list"
  ba_tries :: nat

definition flush :: "(nat \<Rightarrow> send_outcome) \<Rightarrow> batch \<Rightarrow> batch" where
  "flush outcome b =
     (let datagram = ba_datagram b;
          (sent, fired) =
            (case outcome (ba_tries b) of
               SentNow \<Rightarrow> (Some (Inr ()), ba_fired b)
             | RefusedNow \<Rightarrow> (Some (Inl ()), ba_fired b)
             | MustWait w \<Rightarrow>
                 if ba_fired b then (None, ba_fired b)
                 else (case w of
                         WaitCancelled \<Rightarrow> (None, True)
                       | WaitSent \<Rightarrow> (Some (Inr ()), ba_fired b)
                       | WaitRefused \<Rightarrow> (Some (Inl ()), ba_fired b)));
          b = b\<lparr>ba_datagram := [], ba_fired := fired, ba_tries := Suc (ba_tries b)\<rparr> in
      case sent of
        Some (Inr _) \<Rightarrow>
          b\<lparr>ba_queued := ba_queued b + 1, ba_packed := [], ba_wire := ba_wire b @ [datagram]\<rparr>
      | Some (Inl _) \<Rightarrow>
          b\<lparr>ba_link := reread_max_size (ba_link b), ba_on_stream := ba_on_stream b @ ba_packed b,
            ba_packed := []\<rparr>
      | None \<Rightarrow> b\<lparr>ba_on_stream := ba_on_stream b @ ba_packed b, ba_packed := []\<rparr>)"

definition message_frame :: "zstd_lib \<Rightarrow> dict option \<Rightarrow> bytes \<Rightarrow> u64 \<times> bytes" where
  "message_frame Z d message =
     (case Option.bind d (\<lambda>d. dict_compress Z d message) of
        None \<Rightarrow> (MESSAGE, message)
      | Some compressed \<Rightarrow> (ZSTD_MESSAGE, compressed))"

text \<open>One round of the loop of \<open>send_batch\<close>, under the size limit read before it.\<close>

definition batch_message ::
  "zstd_lib \<Rightarrow> dict option \<Rightarrow> (nat \<Rightarrow> send_outcome) \<Rightarrow> flow_sender \<Rightarrow> usize option \<Rightarrow> bytes \<Rightarrow> batch \<Rightarrow> batch" where
  "batch_message Z d outcome f limit message b =
     (let (frame_type, payload) = message_frame Z d message;
          frame = message_frame_len (length payload) in
      case option_filter (\<lambda>limit. length message \<le> fs_max_frame_size f \<and>
             saturating_add (length (fs_header f)) frame \<le> limit) limit of
        None \<Rightarrow> b\<lparr>ba_on_stream := ba_on_stream b @ [message]\<rparr>
      | Some limit \<Rightarrow>
          (let b = (if ba_packed b \<noteq> [] \<and> limit < saturating_add (length (ba_datagram b)) frame
                    then flush outcome b else b);
               b = (if ba_packed b = [] then b\<lparr>ba_datagram := ba_datagram b @ fs_header f\<rparr> else b) in
           b\<lparr>ba_datagram := put_message_frame (ba_datagram b) frame_type payload,
             ba_packed := ba_packed b @ [message]\<rparr>))"

definition batch_start :: "u64 \<Rightarrow> link \<Rightarrow> batch" where
  "batch_start queued l =
     \<lparr>ba_datagram = [], ba_packed = [], ba_on_stream = [], ba_fired = False, ba_queued = queued,
      ba_link = l, ba_wire = [], ba_tries = 0\<rparr>"

text \<open>Each message comes with the dictionary the call has when it is packed.\<close>

definition send_batch ::
  "zstd_lib \<Rightarrow> (nat \<Rightarrow> send_outcome) \<Rightarrow> flow_sender \<Rightarrow> usize option \<Rightarrow> nat \<Rightarrow> u64 \<Rightarrow> link \<Rightarrow>
   (dict option \<times> bytes) list \<Rightarrow> batch" where
  "send_batch Z outcome f current elapsed queued l messages =
     (let (limit, l) = link_max_size current elapsed l;
          b = foldl (\<lambda>b (d, message). batch_message Z d outcome f limit message b)
                (batch_start queued l) messages in
      if ba_packed b \<noteq> [] then flush outcome b else b)"

subsection \<open>What a batch carries\<close>

text \<open>
  The frames of a datagram, and the invariant of the loop over a batch: \<open>groups\<close> are the messages of
  the datagrams sent so far, \<open>ps\<close> those packed into the next one.
\<close>

definition frame_bytes :: "u64 \<times> bytes \<Rightarrow> bytes" where
  "frame_bytes fp = put_message_frame [] (fst fp) (snd fp)"

definition sendable :: "u64 \<times> bytes \<Rightarrow> bool" where
  "sendable fp \<longleftrightarrow> (fst fp = MESSAGE \<or> fst fp = ZSTD_MESSAGE) \<and> length (snd fp) < 2 ^ 62"

definition datagram_of :: "zstd_lib \<Rightarrow> flow_sender \<Rightarrow> (dict option \<times> bytes) list \<Rightarrow> bytes" where
  "datagram_of Z f g = fs_header f @ concat (map (\<lambda>(d, m). frame_bytes (message_frame Z d m)) g)"

definition fits :: "zstd_lib \<Rightarrow> flow_sender \<Rightarrow> usize option \<Rightarrow> (dict option \<times> bytes) list \<Rightarrow> bool" where
  "fits Z f limit g \<longleftrightarrow>
     list_all (\<lambda>(d, m). sendable (message_frame Z d m) \<and> length m \<le> fs_max_frame_size f) g \<and>
     (\<exists>n. limit = Some n \<and> length (datagram_of Z f g) \<le> n)"

inductive batch_inv ::
  "zstd_lib \<Rightarrow> flow_sender \<Rightarrow> usize option \<Rightarrow> (dict option \<times> bytes) list \<Rightarrow> batch \<Rightarrow> bool" where
  batch_invI: "batch_inv Z f limit sent b"
    if "ba_packed b = map snd ps"
      and "ba_datagram b = (if ps = [] then [] else datagram_of Z f ps)"
      and "ba_wire b = map (datagram_of Z f) groups"
      and "\<forall>g \<in> set groups. fits Z f limit g" and "ps = [] \<or> fits Z f limit ps"
      and "mset (map snd sent) = mset (map snd (concat groups)) + mset (map snd ps) + mset (ba_on_stream b)"
      and "subseq (concat groups @ ps) sent"

definition carries ::
  "zstd_lib \<Rightarrow> flow_sender \<Rightarrow> bytes \<Rightarrow> u64 \<Rightarrow> usize option \<Rightarrow> bytes \<Rightarrow> (dict option \<times> bytes) list \<Rightarrow> bool" where
  "carries Z f pre flow limit datagram g \<longleftrightarrow>
     (\<exists>n. limit = Some n \<and> length datagram \<le> n) \<and> take (length pre) datagram = pre \<and>
     (\<exists>ms. datagram_decode (drop (length pre) datagram) (fs_max_frame_size f) = Some (flow, ms) \<and>
        messages_all ms = map (\<lambda>(d, m). message_frame Z d m) g \<and>
        (\<forall>accept. (\<forall>(d, m) \<in> set g. shares_dict accept d) \<longrightarrow>
           fst (messages_inflate Z (fs_max_frame_size f) accept ms) = Some (map snd g)))"

definition example_sender :: flow_sender where
  "example_sender = \<lparr>fs_header = [9], fs_max_frame_size = 100, fs_compress = NoDict\<rparr>"

subsection \<open>Properties\<close>

lemma saturating_add_le_iff: "n < USIZE_MAX \<Longrightarrow> saturating_add a b \<le> n \<longleftrightarrow> a + b \<le> n"
  by (auto simp: saturating_add_def min_def)

lemma push_ignored_ok:
  assumes "v \<le> VARINT_MAX"
  obtains bs where "\<And>out. push_ignored out v = out @ bs" "length bs = encoded_len v"
    "\<And>rest. decode (bs @ rest) = Some (v, encoded_len v)"
proof -
  have "\<exists>out'. push [] v = Inr out'" using assms push_ok_iff [of "[]" v] by (simp add: is_ok_iff)
  then obtain bs where bs: "push [] v = Inr bs" by blast
  have "push_ignored out v = out @ bs" for out
    using bs by (auto simp: push_ignored_def push_def Let_def and_then_def split: sum.splits if_split_asm)
  moreover have "length bs = encoded_len v" "decode (bs @ rest) = Some (v, encoded_len v)" for rest
    using push_decode [OF bs] by auto
  ultimately show thesis by (rule that)
qed

lemma small_varint: "n < 2 ^ 62 \<Longrightarrow> of_nat n \<le> VARINT_MAX" "n < 2 ^ 62 \<Longrightarrow> unat (of_nat n :: u64) = n"
  by (simp_all add: VARINT_MAX_def word_le_nat_alt unat_of_nat_less)

lemma sendable_fields:
  assumes "sendable fp"
  shows "fst fp \<le> VARINT_MAX" "of_nat (length (snd fp)) \<le> VARINT_MAX" "encoded_len (fst fp) = 1"
    "unat (of_nat (length (snd fp)) :: u64) = length (snd fp)"
  using assms small_varint [of "length (snd fp)"]
  by (auto simp: sendable_def MESSAGE_def ZSTD_MESSAGE_def encoded_len_def) (simp add: VARINT_MAX_def)

lemma put_message_frame_append: "sendable fp \<Longrightarrow> put_message_frame out (fst fp) (snd fp) = out @ frame_bytes fp"
proof -
  assume "sendable fp"
  then obtain a b where "\<And>out. push_ignored out (fst fp) = out @ a"
    "\<And>out. push_ignored out (of_nat (length (snd fp))) = out @ b"
    using sendable_fields by (metis push_ignored_ok)
  then show ?thesis by (simp add: put_message_frame_def frame_bytes_def)
qed

lemma frame_bytes_read:
  assumes "sendable fp" and "length (pre @ frame_bytes fp @ rest) \<le> USIZE_MAX"
  shows "\<exists>start. next_frame (pre @ frame_bytes fp @ rest) (length pre) =
      Some (fst fp, start, length pre + length (frame_bytes fp)) \<and>
    take (length pre + length (frame_bytes fp) - start) (drop start (pre @ frame_bytes fp @ rest)) = snd fp \<and>
    length pre + length (frame_bytes fp) - start = length (snd fp) \<and>
    length (frame_bytes fp) = 1 + encoded_len (of_nat (length (snd fp))) + length (snd fp)"
proof -
  note flds = sendable_fields [OF assms(1)]
  obtain a b where a: "\<And>out. push_ignored out (fst fp) = out @ a" "length a = 1"
      "\<And>rest. decode (a @ rest) = Some (fst fp, 1)"
    and b: "\<And>out. push_ignored out (of_nat (length (snd fp))) = out @ b"
      "length b = encoded_len (of_nat (length (snd fp)))"
      "\<And>rest. decode (b @ rest) = Some (of_nat (length (snd fp)), encoded_len (of_nat (length (snd fp))))"
    using flds by (metis push_ignored_ok)
  have f: "frame_bytes fp = a @ b @ snd fp" by (simp add: frame_bytes_def put_message_frame_def a b)
  have "next_frame (pre @ frame_bytes fp @ rest) (length pre) =
      Some (fst fp, length pre + 1 + length b, length pre + length (frame_bytes fp))"
    using assms(2) a b by (simp add: next_frame_def get_from_def f checked_add_def flds)
  then show ?thesis using a(2) b(2) by (intro exI [of _ "length pre + 1 + length b"]) (simp add: f)
qed

lemma messages_all_frames:
  assumes "list_all sendable fs" and "length (pre @ concat (map frame_bytes fs)) \<le> USIZE_MAX"
  shows "messages_all \<lparr>ms_datagram = pre @ concat (map frame_bytes fs), ms_offset = length pre\<rparr> = fs"
  using assms
proof (induction fs arbitrary: pre)
  case Nil
  have "next_frame pre (length pre) = None"
    by (simp add: next_frame_def get_from_def decode_def)
  then show ?case by (simp add: messages_all.simps messages_next.simps)
next
  case (Cons fp fs)
  from Cons.prems obtain start where
    frame: "next_frame (pre @ frame_bytes fp @ concat (map frame_bytes fs)) (length pre) =
      Some (fst fp, start, length pre + length (frame_bytes fp))"
    "take (length pre + length (frame_bytes fp) - start) (drop start (pre @ frame_bytes fp @ concat (map frame_bytes fs))) = snd fp"
    using frame_bytes_read [of fp pre "concat (map frame_bytes fs)"] by auto
  have "fst fp = MESSAGE \<or> fst fp = ZSTD_MESSAGE" using Cons.prems(1) by (simp add: sendable_def)
  then have "messages_next \<lparr>ms_datagram = pre @ concat (map frame_bytes (fp # fs)), ms_offset = length pre\<rparr> =
      (Some fp, \<lparr>ms_datagram = pre @ concat (map frame_bytes (fp # fs)), ms_offset = length pre + length (frame_bytes fp)\<rparr>)"
    by (subst messages_next.simps) (simp add: frame Let_def prod_eq_iff del: take_append drop_append)
  moreover have "messages_all \<lparr>ms_datagram = (pre @ frame_bytes fp) @ concat (map frame_bytes fs),
      ms_offset = length (pre @ frame_bytes fp)\<rparr> = fs"
    using Cons.prems by (intro Cons.IH) simp_all
  ultimately show ?case by (subst messages_all.simps) simp
qed

lemma frames_fill_frames:
  assumes "list_all sendable fs" and "length (pre @ concat (map frame_bytes fs)) \<le> USIZE_MAX"
    and "list_all (\<lambda>fp. fst fp = MESSAGE \<longrightarrow> length (snd fp) \<le> limit) fs"
  shows "frames_fill (pre @ concat (map frame_bytes fs)) limit (length pre)"
  using assms
proof (induction fs arbitrary: pre)
  case Nil
  then show ?case by (simp add: frames_fill.simps)
next
  case (Cons fp fs)
  from Cons.prems obtain start where
    frame: "next_frame (pre @ frame_bytes fp @ concat (map frame_bytes fs)) (length pre) =
      Some (fst fp, start, length pre + length (frame_bytes fp))"
    "length pre + length (frame_bytes fp) - start = length (snd fp)"
    using frame_bytes_read [of fp pre "concat (map frame_bytes fs)"] by auto
  have "frames_fill ((pre @ frame_bytes fp) @ concat (map frame_bytes fs)) limit (length (pre @ frame_bytes fp))"
    using Cons.prems by (intro Cons.IH) simp_all
  moreover have "fst fp \<noteq> ZSTD_STREAM_MESSAGE" 
    using Cons.prems(1) by (auto simp: sendable_def MESSAGE_def ZSTD_MESSAGE_def ZSTD_STREAM_MESSAGE_def)
  ultimately show ?case
    using Cons.prems(3) frame by (subst frames_fill.simps) auto
qed

lemma datagram_decode_frames:
  assumes "push [] flow = Inr id_bytes" and "flow \<noteq> 0" and "list_all sendable fs"
    and "length (id_bytes @ concat (map frame_bytes fs)) \<le> USIZE_MAX"
    and "list_all (\<lambda>fp. fst fp = MESSAGE \<longrightarrow> length (snd fp) \<le> limit) fs"
  shows "\<exists>ms. datagram_decode (id_bytes @ concat (map frame_bytes fs)) limit = Some (flow, ms) \<and> messages_all ms = fs"
proof -
  have "decode (id_bytes @ concat (map frame_bytes fs)) = Some (flow, length id_bytes)"
    using push_decode [OF assms(1)] by auto
  then show ?thesis
    using messages_all_frames [OF assms(3,4)] frames_fill_frames [OF assms(3-5)] assms(2)
    by (simp add: datagram_decode_def)
qed

lemma subseq_extend: "subseq xs ys \<Longrightarrow> subseq xs (ys @ zs)"
  by (meson prefixI prefix_imp_subseq subseq_order.order_trans)

lemma subseq_prefixD: "subseq (xs @ ys) zs \<Longrightarrow> subseq xs zs"
  by (meson prefixI prefix_imp_subseq subseq_order.order_trans)

lemma flush_cases:
  obtains "ba_packed (flush outcome b) = []" "ba_datagram (flush outcome b) = []"
      "ba_wire (flush outcome b) = ba_wire b @ [ba_datagram b]" "ba_on_stream (flush outcome b) = ba_on_stream b"
  | "ba_packed (flush outcome b) = []" "ba_datagram (flush outcome b) = []"
      "ba_wire (flush outcome b) = ba_wire b" "ba_on_stream (flush outcome b) = ba_on_stream b @ ba_packed b"
proof (cases "outcome (ba_tries b)")
  case SentNow
  then show thesis by (intro that(1)) (simp_all add: flush_def)
next
  case RefusedNow
  then show thesis by (intro that(2)) (simp_all add: flush_def)
next
  case (MustWait w)
  show thesis
  proof (cases "\<not> ba_fired b \<and> w = WaitSent")
    case True
    with MustWait show thesis by (intro that(1)) (simp_all add: flush_def)
  next
    case False
    with MustWait show thesis by (cases w) (auto intro!: that(2) simp: flush_def)
  qed
qed

lemma flush_inv:
  assumes "batch_inv Z f limit sent b" and "ba_packed b \<noteq> []"
  shows "batch_inv Z f limit sent (flush outcome b)"
  using assms(1)
proof cases
  case (batch_invI ps groups)
  then have ne: "ps \<noteq> []" using assms(2) by auto
  show ?thesis
  proof (cases rule: flush_cases [of outcome b])
    case 1
    show ?thesis
      by (rule batch_inv.batch_invI [where groups = "groups @ [ps]" and ps = "[]"])
        (use 1 batch_invI ne in auto)
  next
    case 2
    show ?thesis
      by (rule batch_inv.batch_invI [where groups = groups and ps = "[]"])
        (use 2 batch_invI in \<open>auto dest: subseq_prefixD\<close>)
  qed
qed

lemma message_frame_types: "fst (message_frame Z d m) = MESSAGE \<or> fst (message_frame Z d m) = ZSTD_MESSAGE"
  by (auto simp: message_frame_def split: option.splits)

lemma message_frame_len_exact:
  assumes "saturating_add h (message_frame_len n) \<le> limit" and "limit < 2 ^ 62"
  shows "message_frame_len n = n + encoded_len (of_nat n) + 1" "n < 2 ^ 62" "h + message_frame_len n \<le> limit"
proof -
  have big: "limit < USIZE_MAX" using assms(2) by (simp add: USIZE_MAX_def)
  with assms(1) show h: "h + message_frame_len n \<le> limit" by (simp add: saturating_add_le_iff)
  then have "saturating_add (saturating_add n (encoded_len (of_nat n))) 1 \<le> limit" by (simp add: message_frame_len_def)
  with big have "Suc (saturating_add n (encoded_len (of_nat n))) \<le> limit"
    by (simp add: saturating_add_le_iff)
  with big have le: "n + encoded_len (of_nat n) + 1 \<le> limit"
    by (auto simp: saturating_add_def min_def split: if_split_asm)
  then show "n < 2 ^ 62" using assms(2) by simp
  show "message_frame_len n = n + encoded_len (of_nat n) + 1"
    using le big by (simp add: message_frame_len_def saturating_add_exact)
qed

lemma length_frame_bytes:
  assumes "sendable fp"
  shows "length (frame_bytes fp) = length (snd fp) + encoded_len (of_nat (length (snd fp))) + 1"
proof -
  note flds = sendable_fields [OF assms]
  obtain a b where "\<And>out. push_ignored out (fst fp) = out @ a" "length a = 1"
    "\<And>out. push_ignored out (of_nat (length (snd fp))) = out @ b"
    "length b = encoded_len (of_nat (length (snd fp)))"
    using flds by (metis push_ignored_ok)
  then show ?thesis by (simp add: frame_bytes_def put_message_frame_def)
qed

lemma batch_message_pack:
  assumes "batch_inv Z f (Some n) sent b" and "n < 2 ^ 62"
    and "length message \<le> fs_max_frame_size f"
    and "saturating_add (length (fs_header f)) (message_frame_len (length payload)) \<le> n"
    and mf: "message_frame Z d message = (frame_type, payload)"
    and room: "ba_packed b \<noteq> [] \<Longrightarrow>
      saturating_add (length (ba_datagram b)) (message_frame_len (length payload)) \<le> n"
  shows "batch_inv Z f (Some n) (sent @ [(d, message)])
    ((if ba_packed b = [] then b\<lparr>ba_datagram := ba_datagram b @ fs_header f\<rparr> else b)
       \<lparr>ba_datagram := put_message_frame (ba_datagram (if ba_packed b = []
            then b\<lparr>ba_datagram := ba_datagram b @ fs_header f\<rparr> else b)) frame_type payload,
        ba_packed := ba_packed b @ [message]\<rparr>)"
  using assms(1)
proof cases
  case (batch_invI ps groups)
  note len = message_frame_len_exact [OF assms(4,2)]
  have send: "sendable (frame_type, payload)"
    using message_frame_types [of Z d message] len(2) by (simp add: sendable_def mf)
  have dg: "put_message_frame (ba_datagram (if ba_packed b = []
      then b\<lparr>ba_datagram := ba_datagram b @ fs_header f\<rparr> else b)) frame_type payload =
      datagram_of Z f (ps @ [(d, message)])"
    using put_message_frame_append [OF send] batch_invI(1,2) by (auto simp: datagram_of_def mf)
  have frame: "length (frame_bytes (frame_type, payload)) = message_frame_len (length payload)"
    using length_frame_bytes [OF send] len(1) by simp
  have "length (datagram_of Z f (ps @ [(d, message)])) \<le> n"
  proof (cases "ps = []")
    case True
    then show ?thesis using len(3) frame by (simp add: datagram_of_def mf)
  next
    case False
    then have "length (datagram_of Z f ps) + message_frame_len (length payload) \<le> n"
      using room batch_invI(1,2) message_frame_len_exact(3) [OF _ assms(2)] by simp
    then show ?thesis using frame by (simp add: datagram_of_def mf)
  qed
  then have fit: "fits Z f (Some n) (ps @ [(d, message)])"
    using batch_invI(5) send assms(3) by (auto simp: fits_def mf)
  show ?thesis
    by (rule batch_inv.batch_invI [where groups = groups and ps = "ps @ [(d, message)]"])
      (use batch_invI fit dg in \<open>simp_all add: list_emb_append_mono flip: append_assoc\<close>)
qed

lemma batch_message_inv:
  assumes inv: "batch_inv Z f limit sent b" and limit: "\<And>n. limit = Some n \<Longrightarrow> n < 2 ^ 62"
  shows "batch_inv Z f limit (sent @ [(d, message)]) (batch_message Z d outcome f limit message b)"
proof -
  obtain frame_type payload where mf: "message_frame Z d message = (frame_type, payload)" by (rule prod.exhaust)
  define frame where "frame = message_frame_len (length payload)"
  show ?thesis
  proof (cases "option_filter (\<lambda>limit. length message \<le> fs_max_frame_size f \<and>
             saturating_add (length (fs_header f)) frame \<le> limit) limit")
    case None
    then have step: "batch_message Z d outcome f limit message b = b\<lparr>ba_on_stream := ba_on_stream b @ [message]\<rparr>"
      by (simp add: batch_message_def mf frame_def)
    from inv show ?thesis
    proof cases
      case (batch_invI ps groups)
      then show ?thesis
        unfolding step
        by (intro batch_inv.batch_invI [where groups = groups and ps = ps]) (simp_all add: subseq_extend)
    qed
  next
    case (Some n)
    then have n: "limit = Some n" "length message \<le> fs_max_frame_size f" "saturating_add (length (fs_header f)) frame \<le> n"
      by (auto simp: option_filter_def split: option.splits if_split_asm)
    define b1 where "b1 = (if ba_packed b \<noteq> [] \<and> n < saturating_add (length (ba_datagram b)) frame
                    then flush outcome b else b)"
    have inv1: "batch_inv Z f (Some n) sent b1" using inv flush_inv n(1) by (simp add: b1_def)
    have "ba_packed (flush outcome b) = []" by (cases rule: flush_cases [of outcome b])
    then have "ba_packed b1 \<noteq> [] \<Longrightarrow> saturating_add (length (ba_datagram b1)) frame \<le> n"
      by (auto simp: b1_def split: if_split_asm)
    from batch_message_pack [OF inv1 limit [OF n(1)] n(2) n(3) [unfolded frame_def] mf this [unfolded frame_def]]
    show ?thesis
      using Some by (cases "ba_packed b1 = []")
        (simp_all add: batch_message_def mf Let_def frame_def [symmetric] b1_def [symmetric] n(1))
  qed
qed

lemma send_batch_inv:
  assumes "\<And>n. fst (link_max_size current elapsed l) = Some n \<Longrightarrow> n < 2 ^ 62"
  shows "batch_inv Z f (fst (link_max_size current elapsed l)) messages
      (send_batch Z outcome f current elapsed queued l messages) \<and>
    ba_packed (send_batch Z outcome f current elapsed queued l messages) = []"
proof -
  obtain limit l' where l': "link_max_size current elapsed l = (limit, l')" by (rule prod.exhaust)
  define b where "b = foldl (\<lambda>b (d, message). batch_message Z d outcome f limit message b) (batch_start queued l') messages"
  have "batch_inv Z f limit (sent @ messages)
      (foldl (\<lambda>b (d, message). batch_message Z d outcome f limit message b) b0 messages)"
    if "batch_inv Z f limit sent b0" for b0 sent messages
    using that
  proof (induction messages arbitrary: sent b0)
    case (Cons dm messages)
    obtain d m where dm: "dm = (d, m)" by (rule prod.exhaust)
    have "batch_inv Z f limit ((sent @ [dm]) @ messages)
        (foldl (\<lambda>b (d, message). batch_message Z d outcome f limit message b) (batch_message Z d outcome f limit m b0) messages)"
      unfolding dm using assms l' Cons.prems by (intro Cons.IH batch_message_inv) simp_all
    then show ?case by (simp add: dm)
  qed simp
  from this [of "[]" "batch_start queued l'" messages] have inv: "batch_inv Z f limit messages b"
    by (simp add: b_def batch_start_def batch_inv.simps)
  have "ba_packed (flush outcome b) = []" by (cases rule: flush_cases [of outcome b])
  then show ?thesis
    using inv flush_inv [OF inv] by (simp add: send_batch_def l' b_def [symmetric] Let_def)
qed

lemma flow_header_push:
  assumes "flow_header pre flow = Some header"
  obtains id_bytes where "header = pre @ id_bytes" "push [] flow = Inr id_bytes"
proof -
  have "push pre flow = Inr header" using assms by (simp add: flow_header_def)
  then have "\<exists>id_bytes. header = pre @ id_bytes \<and> push [] flow = Inr id_bytes"
    by (auto simp: push_def Let_def and_then_def split: sum.splits if_split_asm)
  then show thesis using that by blast
qed

lemma inflate_shared:
  assumes "zstd_laws Z" "message_frame Z d message = (ZSTD_MESSAGE, payload)" "shares_dict accept d"
    "length message \<le> limit" "limit \<le> USIZE_MAX"
  shows "\<exists>accept'. inflate Z accept payload limit = (Inr message, accept') \<and>
    accept_lookup accept' = accept_lookup accept"
proof -
  from assms(2) obtain e where e: "d = Some e" "dict_compress Z e message = Some payload"
    by (auto simp: message_frame_def MESSAGE_def ZSTD_MESSAGE_def bind_eq_Some_conv split: option.splits)
  with assms(3) obtain e' where "dictionary_id (d_data e) = (if d_id e = PLAIN_ID then None else Some (d_id e))"
    "accept_lookup accept (d_id e) = Some e'" "d_data e' = d_data e" "d_id e' = d_id e"
    by (auto simp: shares_dict_def split: option.splits)
  from inflate_compressed [OF assms(1) e(2) this assms(4,5)] show ?thesis by simp
qed

lemma message_frame_cases:
  obtains "message_frame Z d message = (MESSAGE, message)"
  | payload where "message_frame Z d message = (ZSTD_MESSAGE, payload)"
  by (cases "Option.bind d (\<lambda>d. dict_compress Z d message)") (auto simp: message_frame_def)

lemma inflate_frames:
  assumes "zstd_laws Z" "limit \<le> USIZE_MAX" "\<forall>(d, m) \<in> set g. shares_dict accept d \<and> length m \<le> limit"
  shows "fst (inflate_messages Z limit accept (map (\<lambda>(d, m). message_frame Z d m) g)) = Some (map snd g)"
  using assms(3)
proof (induction g arbitrary: accept)
  case Nil
  then show ?case by simp
next
  case (Cons dm g)
  obtain d m where dm: "dm = (d, m)" by (rule prod.exhaust)
  from Cons.prems have dict: "shares_dict accept d" "length m \<le> limit" by (auto simp: dm)
  have "\<exists>accept'. (if fst (message_frame Z d m) = ZSTD_MESSAGE then inflate Z accept (snd (message_frame Z d m)) limit
      else (Inr (snd (message_frame Z d m)), accept)) = (Inr m, accept') \<and> accept_lookup accept' = accept_lookup accept"
    using inflate_shared [OF assms(1) _ dict assms(2)]
    by (cases rule: message_frame_cases [of Z d m]) (auto simp: MESSAGE_def ZSTD_MESSAGE_def)
  then obtain accept' where step: "(if fst (message_frame Z d m) = ZSTD_MESSAGE then
        inflate Z accept (snd (message_frame Z d m)) limit else (Inr (snd (message_frame Z d m)), accept)) = (Inr m, accept')"
    and same: "accept_lookup accept' = accept_lookup accept" by blast
  have "fst (inflate_messages Z limit accept' (map (\<lambda>(d, m). message_frame Z d m) g)) = Some (map snd g)"
    using Cons.prems shares_dict_cong [OF same] by (intro Cons.IH) auto
  with step show ?case
    by (cases "message_frame Z d m") (auto simp: dm split: prod.splits)
qed

lemma fits_carries:
  assumes "flow_header pre flow = Some (fs_header f)" and "flow \<noteq> 0"
    and "fits Z f limit g" and "\<And>n. limit = Some n \<Longrightarrow> n < 2 ^ 62"
    and "zstd_laws Z" and "fs_max_frame_size f \<le> USIZE_MAX"
  shows "carries Z f pre flow limit (datagram_of Z f g) g"
proof -
  obtain id_bytes where header: "fs_header f = pre @ id_bytes" and i: "push [] flow = Inr id_bytes"
    using flow_header_push [OF assms(1)] by blast
  define fs where "fs = map (\<lambda>(d, m). message_frame Z d m) g"
  obtain n where n: "limit = Some n" "length (datagram_of Z f g) \<le> n" and
    g: "list_all (\<lambda>(d, m). sendable (message_frame Z d m) \<and> length m \<le> fs_max_frame_size f) g"
    using assms(3) by (auto simp: fits_def)
  have dg: "datagram_of Z f g = pre @ id_bytes @ concat (map frame_bytes fs)"
    by (simp add: datagram_of_def header fs_def comp_def case_prod_unfold)
  have "list_all sendable fs" using g by (auto simp: fs_def list_all_iff)
  moreover have "length (id_bytes @ concat (map frame_bytes fs)) \<le> USIZE_MAX"
    using n assms(4) [OF n(1)] by (simp add: dg USIZE_MAX_def)
  moreover have "list_all (\<lambda>fp. fst fp = MESSAGE \<longrightarrow> length (snd fp) \<le> fs_max_frame_size f) fs"
    using g by (auto simp: fs_def list_all_iff message_frame_def MESSAGE_def ZSTD_MESSAGE_def split: option.splits)
  ultimately obtain ms where ms: "datagram_decode (id_bytes @ concat (map frame_bytes fs)) (fs_max_frame_size f) = Some (flow, ms)"
    "messages_all ms = fs"
    using datagram_decode_frames [OF i assms(2), of fs] by blast
  have "fst (messages_inflate Z (fs_max_frame_size f) accept ms) = Some (map snd g)"
    if "\<forall>(d, m) \<in> set g. shares_dict accept d" for accept
    unfolding messages_inflate_def ms(2) fs_def
    by (rule inflate_frames [OF assms(5,6)]) (use that g in \<open>auto simp: list_all_iff\<close>)
  with ms n show ?thesis unfolding carries_def dg fs_def [symmetric] by auto
qed

text \<open>
  C16. Nothing is lost or invented between a batch and the wire, whatever the transport does with each
  datagram: every message is either in exactly one datagram that was sent or handed to the stream.
  Each datagram is within the size limit and starts with the transport's prefix; a receiver decodes it to
  the call's flow and, if it shares the dictionaries of the messages, inflates it to exactly those
  messages. The messages keep their order across datagrams.
\<close>

theorem send_batch_delivers:
  assumes "flow_header pre flow = Some (fs_header f)" and "flow \<noteq> 0"
    and "link_max_size current elapsed l = (limit, l')" and "\<forall>n. limit = Some n \<longrightarrow> n < 2 ^ 62"
    and "b = send_batch Z outcome f current elapsed queued l messages"
    and "zstd_laws Z" and "fs_max_frame_size f \<le> USIZE_MAX"
  shows "\<exists>groups. list_all2 (carries Z f pre flow limit) (ba_wire b) groups \<and>
    mset (map snd messages) = mset (map snd (concat groups)) + mset (ba_on_stream b) \<and>
    subseq (concat groups) messages"
proof -
  have limit: "limit = Some k \<Longrightarrow> k < 2 ^ 62" for k using assms(4) by blast
  have "batch_inv Z f limit messages b" and packed: "ba_packed b = []"
    using send_batch_inv [of current elapsed l Z f messages outcome queued] limit assms(3,5) by auto
  then show ?thesis
  proof cases
    case (batch_invI ps groups)
    then have "list_all2 (carries Z f pre flow limit) (ba_wire b) groups"
      using fits_carries [OF assms(1,2) _ limit assms(6,7)] by (auto simp: list_all2_conv_all_nth)
    with batch_invI packed show ?thesis by (intro exI [of _ groups]) auto
  qed
qed

lemma example_link: "link_max_size (Some 10) 0 link_new = (Some 10, \<lparr>lk_max_size = 11, lk_read_at = 0\<rparr>)"
  by (simp add: link_max_size_def link_new_def elapsed_millis_def UNREAD_def saturating_add_def USIZE_MAX_def)

lemma example_encoding:
  "message_frame Z None m = (MESSAGE, m)" "message_frame_len (Suc (Suc 0)) = 4" "message_frame_len 20 = 22"
  "put_message_frame out MESSAGE [1, 2] = out @ [0, 2, 1, 2]"
  by (simp_all add: message_frame_def message_frame_len_def saturating_add_def USIZE_MAX_def encoded_len_def
      put_message_frame_def push_ignored_def push_eval MESSAGE_def)

lemmas batch_eval = send_batch_def example_link batch_start_def batch_message_def example_encoding
  example_sender_def option_filter_def flush_def saturating_add_def USIZE_MAX_def Let_def

theorem send_batch_delivers_witness:
  "\<exists>groups. list_all2 (carries rle_zstd example_sender [] 9 (Some 10))
      (ba_wire (send_batch rle_zstd (\<lambda>_. SentNow) example_sender (Some 10) 0 0 link_new
         [(None, [1, 2]), (None, replicate 20 3)])) groups \<and>
    mset [[1, 2], replicate 20 3] = mset (map snd (concat groups)) + {#replicate 20 3#}"
proof -
  let ?ms = "[(None, [1, 2]), (None, replicate 20 3)] :: (dict option \<times> bytes) list"
  have "flow_header [] 9 = Some (fs_header example_sender)" "fs_max_frame_size example_sender \<le> USIZE_MAX"
    by (simp_all add: flow_header_def example_sender_def push_eval USIZE_MAX_def)
  then obtain groups where groups:
    "list_all2 (carries rle_zstd example_sender [] 9 (Some 10))
      (ba_wire (send_batch rle_zstd (\<lambda>_. SentNow) example_sender (Some 10) 0 0 link_new ?ms)) groups"
    "mset (map snd ?ms) = mset (map snd (concat groups)) +
      mset (ba_on_stream (send_batch rle_zstd (\<lambda>_. SentNow) example_sender (Some 10) 0 0 link_new ?ms))"
    using send_batch_delivers [OF _ _ example_link _ refl rle_zstd_laws, of "[]" 9 example_sender "\<lambda>_. SentNow" 0 ?ms]
    by auto
  have "ba_on_stream (send_batch rle_zstd (\<lambda>_. SentNow) example_sender (Some 10) 0 0 link_new ?ms) = [replicate 20 3]"
    by (simp add: batch_eval)
  with groups show ?thesis by (intro exI [of _ groups]) simp
qed


end
