(* ===== verification/Msg_Queue.thy ===== *)
theory Msg_Queue
  imports Rust_Prelude
begin

text \<open>
  The bounded queue between tasks, \<open>queue.rs\<close>. Every operation runs under the queue's lock, so it
  is one atomic function on the state; it returns the wakers it wakes after releasing the lock. A
  waker is a number, and two wakers wake the same task when they are equal (\<open>will_wake\<close>). A future
  is modelled by its poll function. The limits, the FIFO order and the absence of lost wake-ups are
  invariants of the step relation \<open>queue_step\<close>, in which any number of producers and the one
  consumer interleave.
\<close>

subsection \<open>State and operations\<close>

type_synonym waker = nat

datatype 'a poll = Ready 'a | Pending

text \<open>
  A stream that is not part of a component is the list of the results of its future polls, and pends
  when the list runs out. What it yields, and its items up to its end:
\<close>

definition yields :: "'a option poll list \<Rightarrow> 'a option list" where
  "yields polls = concat (map (\<lambda>p. case p of Ready x \<Rightarrow> [x] | Pending \<Rightarrow> []) polls)"

definition stream_items :: "'a option poll list \<Rightarrow> 'a list" where
  "stream_items polls = map the (takeWhile (\<lambda>x. x \<noteq> None) (yields polls))"

lemma yields_simps [simp]:
  "yields [] = []" "yields (Pending # ps) = yields ps" "yields (Ready x # ps) = x # yields ps"
  by (simp_all add: yields_def)

lemma stream_items_simps [simp]:
  "stream_items [] = []" "stream_items (Pending # ps) = stream_items ps"
  "stream_items (Ready None # ps) = []" "stream_items (Ready (Some x) # ps) = x # stream_items ps"
  by (simp_all add: stream_items_def)

record limits =
  lim_values :: nat
  lim_bytes :: nat

definition MESSAGE_FRAME_BATCH :: nat where
  "MESSAGE_FRAME_BATCH = 32"

definition MESSAGES :: limits where
  "MESSAGES = \<lparr>lim_values = MESSAGE_FRAME_BATCH, lim_bytes = 64 * 1024\<rparr>"

datatype closed = Closed

datatype 'a try_send_error = Full 'a | TrySendClosed 'a

record 'a queue_state =
  q_queue :: "('a \<times> nat) list"
  q_queued_bytes :: nat
  q_senders :: nat
  q_receiver_open :: bool
  q_receiver_waker :: "waker option"
  q_sender_wakers :: "waker list"

definition has_room :: "limits \<Rightarrow> 'a queue_state \<Rightarrow> bool" where
  "has_room limits s \<longleftrightarrow>
     length (q_queue s) < lim_values limits \<and> q_queued_bytes s < lim_bytes limits"

definition queue_push :: "'a \<Rightarrow> nat \<Rightarrow> 'a queue_state \<Rightarrow> waker option \<times> 'a queue_state" where
  "queue_push v sz s =
     (q_receiver_waker s,
      s\<lparr>q_queued_bytes := saturating_add (q_queued_bytes s) sz,
        q_queue := q_queue s @ [(v, sz)], q_receiver_waker := None\<rparr>)"

definition channel :: "'a queue_state" where
  "channel =
     \<lparr>q_queue = [], q_queued_bytes = 0, q_senders = 1, q_receiver_open = True,
      q_receiver_waker = None, q_sender_wakers = []\<rparr>"

definition wake :: "waker option \<Rightarrow> waker list" where
  "wake w = (case w of None \<Rightarrow> [] | Some w \<Rightarrow> [w])"

definition try_send ::
  "limits \<Rightarrow> 'a \<Rightarrow> nat \<Rightarrow> 'a queue_state \<Rightarrow> ('a try_send_error + unit) \<times> waker list \<times> 'a queue_state" where
  "try_send limits v sz s =
     (if \<not> q_receiver_open s then (Inl (TrySendClosed v), [], s)
      else if \<not> has_room limits s then (Inl (Full v), [], s)
      else (let (w, s) = queue_push v sz s in (Inr (), wake w, s)))"

definition register :: "waker list \<Rightarrow> waker \<Rightarrow> waker list" where
  "register wakers cx = (if cx \<in> set wakers then wakers else wakers @ [cx])"

text \<open>The future of \<open>send\<close> owns the value until it is queued, then \<open>None\<close>.\<close>

definition poll_send ::
  "limits \<Rightarrow> waker \<Rightarrow> 'a option \<Rightarrow> nat \<Rightarrow> 'a queue_state \<Rightarrow>
     (closed + unit) poll \<times> 'a option \<times> waker list \<times> 'a queue_state" where
  "poll_send limits cx v sz s =
     (if \<not> q_receiver_open s then (Ready (Inl Closed), v, [], s)
      else if \<not> has_room limits s then
        (Pending, v, [], s\<lparr>q_sender_wakers := register (q_sender_wakers s) cx\<rparr>)
      else
        (case v of
           None \<Rightarrow> (Ready (Inl Closed), None, [], s)
         | Some v \<Rightarrow> (let (w, s) = queue_push v sz s in (Ready (Inr ()), None, wake w, s))))"

text \<open>The permit of \<open>reserve\<close> is the unit value.\<close>

definition poll_reserve ::
  "limits \<Rightarrow> waker \<Rightarrow> 'a queue_state \<Rightarrow> (closed + unit) poll \<times> 'a queue_state" where
  "poll_reserve limits cx s =
     (if \<not> q_receiver_open s then (Ready (Inl Closed), s)
      else if has_room limits s then (Ready (Inr ()), s)
      else (Pending, s\<lparr>q_sender_wakers := register (q_sender_wakers s) cx\<rparr>))"

definition clone_sender :: "'a queue_state \<Rightarrow> 'a queue_state" where
  "clone_sender s = s\<lparr>q_senders := saturating_add (q_senders s) 1\<rparr>"

definition drop_sender :: "'a queue_state \<Rightarrow> waker list \<times> 'a queue_state" where
  "drop_sender s =
     (let s = s\<lparr>q_senders := q_senders s - 1\<rparr> in
      if q_senders s = 0 then (wake (q_receiver_waker s), s\<lparr>q_receiver_waker := None\<rparr>)
      else ([], s))"

definition permit_send :: "'a \<Rightarrow> nat \<Rightarrow> 'a queue_state \<Rightarrow> waker list \<times> 'a queue_state" where
  "permit_send v sz s =
     (if \<not> q_receiver_open s then ([], s)
      else (let (w, s) = queue_push v sz s in (wake w, s)))"

definition poll_pop ::
  "limits \<Rightarrow> waker option \<Rightarrow> 'a queue_state \<Rightarrow> 'a option poll \<times> waker list \<times> 'a queue_state" where
  "poll_pop limits cx s =
     (case q_queue s of
        [] \<Rightarrow>
          (if q_senders s = 0 then (Ready None, [], s)
           else
             (case cx of
                Some cx \<Rightarrow> (Pending, [], s\<lparr>q_receiver_waker := Some cx\<rparr>)
              | None \<Rightarrow> (Pending, [], s)))
      | (v, sz) # queue \<Rightarrow>
          (let s = s\<lparr>q_queue := queue, q_queued_bytes := q_queued_bytes s - sz\<rparr> in
           if has_room limits s
           then (Ready (Some v), q_sender_wakers s, s\<lparr>q_sender_wakers := []\<rparr>)
           else (Ready (Some v), [], s)))"

definition poll_recv ::
  "limits \<Rightarrow> waker \<Rightarrow> 'a queue_state \<Rightarrow> 'a option poll \<times> waker list \<times> 'a queue_state" where
  "poll_recv limits cx s = poll_pop limits (Some cx) s"

definition try_recv ::
  "limits \<Rightarrow> 'a queue_state \<Rightarrow> 'a option \<times> waker list \<times> 'a queue_state" where
  "try_recv limits s =
     (case poll_pop limits None s of
        (Ready v, ws, s) \<Rightarrow> (v, ws, s)
      | (Pending, ws, s) \<Rightarrow> (None, ws, s))"

definition drop_receiver :: "'a queue_state \<Rightarrow> waker list \<times> 'a queue_state" where
  "drop_receiver s =
     (q_sender_wakers s,
      s\<lparr>q_receiver_open := False, q_queued_bytes := 0, q_queue := [], q_sender_wakers := []\<rparr>)"

lemmas queue_op_defs = try_send_def poll_send_def poll_reserve_def clone_sender_def
  drop_sender_def permit_send_def poll_pop_def drop_receiver_def queue_push_def

lemma has_room_update [simp]:
  "has_room limits (s\<lparr>q_senders := n\<rparr>) = has_room limits s"
  "has_room limits (s\<lparr>q_receiver_waker := w\<rparr>) = has_room limits s"
  "has_room limits (s\<lparr>q_sender_wakers := ws\<rparr>) = has_room limits s"
  by (simp_all add: has_room_def)

subsection \<open>Interleavings\<close>

text \<open>
  One configuration is the state and whether a permit of \<open>reserve\<close> is outstanding. The permit
  borrows the queue's only sender, so until it is used or dropped no other value is queued and no
  sender is added or dropped. The sizes queued fit the address space together, as the values do.
\<close>

datatype 'a queue_event = Sent 'a | Received 'a | Silent

text \<open>What a step means for the tasks: the one whose poll it leaves pending, and those it wakes.\<close>

datatype waiter = Producer waker | Consumer waker

type_synonym schedule = "waiter option \<times> waker list"

inductive queue_step ::
  "limits \<Rightarrow> 'a queue_state \<times> bool \<Rightarrow> 'a queue_event \<Rightarrow> schedule \<Rightarrow> 'a queue_state \<times> bool \<Rightarrow> bool"
  for limits :: limits where
  try_sent: "try_send limits v sz s = (Inr (), ws, s') \<Longrightarrow> q_queued_bytes s + sz \<le> USIZE_MAX \<Longrightarrow>
    queue_step limits (s, False) (Sent v) (None, ws) (s', False)"
| try_refused: "try_send limits v sz s = (Inl e, ws, s') \<Longrightarrow>
    queue_step limits (s, False) Silent (None, ws) (s', False)"
| sent: "poll_send limits cx (Some v) sz s = (Ready (Inr ()), v', ws, s') \<Longrightarrow>
    q_queued_bytes s + sz \<le> USIZE_MAX \<Longrightarrow> queue_step limits (s, False) (Sent v) (None, ws) (s', False)"
| send_refused: "poll_send limits cx v sz s = (Ready (Inl e), v', ws, s') \<Longrightarrow>
    queue_step limits (s, False) Silent (None, ws) (s', False)"
| send_waits: "poll_send limits cx v sz s = (Pending, v', ws, s') \<Longrightarrow>
    queue_step limits (s, False) Silent (Some (Producer cx), ws) (s', False)"
| reserved: "poll_reserve limits cx s = (Ready (Inr ()), s') \<Longrightarrow> q_senders s = 1 \<Longrightarrow>
    queue_step limits (s, False) Silent (None, []) (s', True)"
| reserve_refused: "poll_reserve limits cx s = (Ready (Inl e), s') \<Longrightarrow>
    queue_step limits (s, False) Silent (None, []) (s', False)"
| reserve_waits: "poll_reserve limits cx s = (Pending, s') \<Longrightarrow>
    queue_step limits (s, False) Silent (Some (Producer cx), []) (s', False)"
| permit_used: "permit_send v sz s = (ws, s') \<Longrightarrow> q_receiver_open s \<Longrightarrow>
    q_queued_bytes s + sz \<le> USIZE_MAX \<Longrightarrow> queue_step limits (s, True) (Sent v) (None, ws) (s', False)"
| permit_lost: "permit_send v sz s = (ws, s') \<Longrightarrow> \<not> q_receiver_open s \<Longrightarrow>
    queue_step limits (s, True) Silent (None, ws) (s', False)"
| permit_dropped: "queue_step limits (s, True) Silent (None, []) (s, False)"
| cloned: "0 < q_senders s \<Longrightarrow> queue_step limits (s, False) Silent (None, []) (clone_sender s, False)"
| sender_dropped: "0 < q_senders s \<Longrightarrow> drop_sender s = (ws, s') \<Longrightarrow>
    queue_step limits (s, False) Silent (None, ws) (s', False)"
| popped: "q_receiver_open s \<Longrightarrow> poll_pop limits cx s = (Ready (Some v), ws, s') \<Longrightarrow>
    queue_step limits (s, r) (Received v) (None, ws) (s', r)"
| pop_ended: "q_receiver_open s \<Longrightarrow> poll_pop limits cx s = (Ready None, ws, s') \<Longrightarrow>
    queue_step limits (s, r) Silent (None, ws) (s', r)"
| pop_waits: "q_receiver_open s \<Longrightarrow> poll_pop limits cx s = (Pending, ws, s') \<Longrightarrow>
    queue_step limits (s, r) Silent (map_option Consumer cx, ws) (s', r)"
| receiver_dropped: "q_receiver_open s \<Longrightarrow> drop_receiver s = (ws, s') \<Longrightarrow>
    queue_step limits (s, r) Silent (None, ws) (s', r)"

inductive queue_run :: "limits \<Rightarrow> 'a queue_event list \<Rightarrow> 'a queue_state \<times> bool \<Rightarrow> bool"
  for limits :: limits where
  run_start: "queue_run limits [] (channel, False)"
| run_step: "queue_run limits es c \<Longrightarrow> queue_step limits c e t c' \<Longrightarrow> queue_run limits (es @ [e]) c'"

text \<open>
  The same runs with the tasks that wait: the producers whose poll pended and who were not woken
  since, and the consumer if its poll pended and it was not woken since.
\<close>

definition producers_left :: "waker set \<Rightarrow> schedule \<Rightarrow> waker set" where
  "producers_left producers t =
     (producers - set (snd t)) \<union> (case fst t of Some (Producer cx) \<Rightarrow> {cx} | _ \<Rightarrow> {})"

definition consumer_left :: "waker option \<Rightarrow> schedule \<Rightarrow> waker option" where
  "consumer_left consumer t =
     (case fst t of
        Some (Consumer cx) \<Rightarrow> Some cx
      | _ \<Rightarrow> if consumer \<in> Some ` set (snd t) then None else consumer)"

inductive wait_run ::
  "limits \<Rightarrow> waker set \<Rightarrow> waker option \<Rightarrow> 'a queue_state \<times> bool \<Rightarrow> bool"
  for limits :: limits where
  wait_start: "wait_run limits {} None (channel, False)"
| wait_step: "wait_run limits producers consumer c \<Longrightarrow> queue_step limits c e t c' \<Longrightarrow>
    wait_run limits (producers_left producers t) (consumer_left consumer t) c'"

definition sent_values :: "'a queue_event list \<Rightarrow> 'a list" where
  "sent_values es = concat (map (\<lambda>e. case e of Sent v \<Rightarrow> [v] | _ \<Rightarrow> []) es)"

definition received_values :: "'a queue_event list \<Rightarrow> 'a list" where
  "received_values es = concat (map (\<lambda>e. case e of Received v \<Rightarrow> [v] | _ \<Rightarrow> []) es)"

lemma event_values_simps [simp]:
  "sent_values [] = []" "received_values [] = []"
  "sent_values (es @ [Sent v]) = sent_values es @ [v]"
  "sent_values (es @ [Received v]) = sent_values es"
  "sent_values (es @ [Silent]) = sent_values es"
  "received_values (es @ [Sent v]) = received_values es"
  "received_values (es @ [Received v]) = received_values es @ [v]"
  "received_values (es @ [Silent]) = received_values es"
  by (simp_all add: sent_values_def received_values_def)

subsection \<open>The invariant\<close>

abbreviation queue_bytes :: "('a \<times> nat) list \<Rightarrow> nat" where
  "queue_bytes q \<equiv> sum_list (map snd q)"

definition queue_inv :: "limits \<Rightarrow> 'a queue_state \<times> bool \<Rightarrow> bool" where
  "queue_inv limits c = (case c of (s, permit) \<Rightarrow>
     q_queued_bytes s = queue_bytes (q_queue s) \<and>
     length (q_queue s) \<le> lim_values limits \<and>
     (q_queue s = [] \<or> queue_bytes (butlast (q_queue s)) < lim_bytes limits) \<and>
     distinct (q_sender_wakers s) \<and>
     (q_sender_wakers s = [] \<or> q_receiver_open s \<and> \<not> has_room limits s) \<and>
     (q_receiver_waker s = None \<or> q_queue s = [] \<and> 0 < q_senders s) \<and>
     (q_receiver_open s \<or> q_queue s = []) \<and>
     (permit \<and> q_receiver_open s \<longrightarrow> has_room limits s))"

lemma queue_inv_start: "queue_inv limits (channel, False)"
  by (simp add: queue_inv_def channel_def)

lemma queue_push_inv:
  assumes "queue_inv limits (s, r)" "has_room limits s" "q_receiver_open s"
    and "q_queued_bytes s + sz \<le> USIZE_MAX"
  shows "queue_inv limits (snd (queue_push v sz s), False)"
  using assms
  by (auto simp: queue_inv_def queue_push_def has_room_def saturating_add_exact)

lemma register_inv:
  assumes "queue_inv limits (s, False)" "\<not> has_room limits s" "q_receiver_open s"
  shows "queue_inv limits (s\<lparr>q_sender_wakers := register (q_sender_wakers s) cx\<rparr>, False)"
  using assms by (auto simp: queue_inv_def register_def)

lemma butlast_tl_bytes: "queue_bytes (butlast q) \<le> queue_bytes (butlast (x # q))"
  by (cases q) auto

lemma poll_pop_inv:
  assumes "queue_inv limits (s, r)" "q_receiver_open s" "poll_pop limits cx s = (res, ws, s')"
  shows "queue_inv limits (s', r)"
proof (cases "q_queue s")
  case Nil
  with assms show ?thesis
    by (auto simp: poll_pop_def queue_inv_def split: option.splits if_splits)
next
  case (Cons x q)
  obtain v sz where x: "x = (v, sz)" by (rule prod.exhaust)
  have "q = [] \<or> queue_bytes (butlast q) < lim_bytes limits"
    using assms(1) Cons butlast_tl_bytes [of q x] by (auto simp: queue_inv_def)
  with assms Cons x show ?thesis
    by (auto simp: poll_pop_def queue_inv_def has_room_def Let_def split: if_splits)
qed

lemma queue_step_inv:
  assumes "queue_step limits c e t c'" "queue_inv limits c"
  shows "queue_inv limits c'"
  using assms
proof (induction rule: queue_step.induct)
  case (try_sent v sz s ws s')
  then show ?case
    using queue_push_inv [of limits s False sz v]
    by (auto simp: try_send_def split: if_splits prod.splits)
next
  case (sent cx v sz s v' ws s')
  then show ?case
    using queue_push_inv [of limits s False sz v]
    by (auto simp: poll_send_def split: if_splits prod.splits)
next
  case (permit_used v sz s ws s')
  then show ?case
    using queue_push_inv [of limits s True sz v]
    by (auto simp: permit_send_def queue_inv_def split: if_splits prod.splits)
next
  case (send_waits cx v sz s v' ws s')
  then show ?case using register_inv [of limits s cx]
    by (auto simp: poll_send_def split: if_splits prod.splits option.splits)
next
  case (reserve_waits cx s s')
  then show ?case using register_inv [of limits s cx]
    by (auto simp: poll_reserve_def split: if_splits)
next
  case (receiver_dropped s ws s' r)
  from receiver_dropped.prems have "q_receiver_waker s = None \<or> 0 < q_senders s"
    by (simp add: queue_inv_def) metis
  moreover from receiver_dropped have "s' = snd (drop_receiver s)" by simp
  ultimately show ?case by (simp add: drop_receiver_def queue_inv_def)
next
  case (sender_dropped s ws s')
  then have "s' = snd (drop_sender s)" by simp
  with sender_dropped.prems show ?case
    by (cases "q_senders s - 1 = 0") (simp_all add: drop_sender_def queue_inv_def Let_def)
next
  case (try_refused v sz s e ws s')
  then show ?case by (auto simp: try_send_def split: if_splits prod.splits)
next
  case (send_refused cx v sz s e v' ws s')
  then show ?case by (auto simp: poll_send_def split: if_splits prod.splits option.splits)
next
  case (reserved cx s s')
  then show ?case by (auto simp: poll_reserve_def queue_inv_def split: if_splits)
next
  case (reserve_refused cx s e s')
  then show ?case by (auto simp: poll_reserve_def split: if_splits)
next
  case (permit_lost v sz s ws s')
  then show ?case by (auto simp: permit_send_def queue_inv_def)
next
  case (cloned s)
  then show ?case
    by (auto simp: clone_sender_def queue_inv_def saturating_add_def USIZE_MAX_def)
next
  case (permit_dropped s)
  then show ?case by (simp add: queue_inv_def)
qed (blast dest: poll_pop_inv)+

lemma queue_run_inv: "queue_run limits es c \<Longrightarrow> queue_inv limits c"
  by (induction rule: queue_run.induct) (auto intro: queue_inv_start queue_step_inv)

subsection \<open>First in, first out\<close>

text \<open>
  A first-in-first-out store as its clients see it: what is put in, seen through \<open>item\<close>, comes out
  in order. A client that puts and gets in any order gets a prefix of what was there and what it
  put, and the rest is still stored.
\<close>

datatype 'b queue_op = Put 'b | Get

fun run_ops ::
  "('b \<Rightarrow> 's \<Rightarrow> 's) \<Rightarrow> ('s \<Rightarrow> ('a \<times> 's) option) \<Rightarrow> 'b queue_op list \<Rightarrow> 's \<Rightarrow> 'a list \<times> 's" where
  "run_ops enq deq [] s = ([], s)"
| "run_ops enq deq (Put b # ops) s = run_ops enq deq ops (enq b s)"
| "run_ops enq deq (Get # ops) s =
     (case deq s of
        None \<Rightarrow> run_ops enq deq ops s
      | Some (a, s) \<Rightarrow> (let (out, s) = run_ops enq deq ops s in (a # out, s)))"

fun puts :: "'b queue_op list \<Rightarrow> 'b list" where
  "puts [] = []"
| "puts (Put b # ops) = b # puts ops"
| "puts (Get # ops) = puts ops"

locale fifo_queue =
  fixes contents :: "'s \<Rightarrow> 'a list" and enq :: "'b \<Rightarrow> 's \<Rightarrow> 's" and item :: "'b \<Rightarrow> 'a"
    and deq :: "'s \<Rightarrow> ('a \<times> 's) option"
  assumes contents_enq: "contents (enq b s) = contents s @ [item b]"
    and contents_deq: "deq s = Some (a, s') \<Longrightarrow> contents s = a # contents s'"
    and deq_empty: "deq s = None \<longleftrightarrow> contents s = []"
begin

lemma ops_in_order:
  "run_ops enq deq ops s = (out, s') \<Longrightarrow> contents s @ map item (puts ops) = out @ contents s'"
proof (induction ops arbitrary: s out rule: puts.induct)
  case (2 b ops)
  from "2.IH" [of "enq b s" out] "2.prems" show ?case by (simp add: contents_enq)
next
  case (3 ops)
  then show ?case
    by (auto simp: contents_deq split: option.splits prod.splits)
qed simp

lemma drained:
  "run_ops enq deq (replicate (length (contents s)) Get) s = (out, s') \<Longrightarrow>
     out = contents s \<and> contents s' = []"
proof (induction "length (contents s)" arbitrary: s out)
  case 0
  then show ?case by simp
next
  case (Suc n)
  then obtain a s1 where deq: "deq s = Some (a, s1)"
    using deq_empty [of s] by (cases "deq s") auto
  from Suc.hyps(2) have n: "n = length (contents s1)" by (simp add: contents_deq [OF deq])
  from Suc.prems have "run_ops enq deq (replicate (Suc n) Get) s = (out, s')"
    unfolding Suc.hyps(2) .
  then obtain out' where
    "run_ops enq deq (replicate n Get) s1 = (out', s')" "out = a # out'"
    by (auto simp: deq split: prod.splits)
  with Suc.hyps(1) [of s1 out'] n contents_deq [OF deq] show ?case by simp
qed

end

definition pop_value :: "limits \<Rightarrow> waker option \<Rightarrow> 'a queue_state \<Rightarrow> ('a \<times> 'a queue_state) option" where
  "pop_value limits cx s =
     (case poll_pop limits cx s of
        (Ready (Some v), ws, s') \<Rightarrow> Some (v, s')
      | _ \<Rightarrow> None)"

definition push_value :: "'a \<times> nat \<Rightarrow> 'a queue_state \<Rightarrow> 'a queue_state" where
  "push_value b s = snd (queue_push (fst b) (snd b) s)"

definition queued :: "'a queue_state \<Rightarrow> 'a list" where
  "queued s = map fst (q_queue s)"

interpretation mq: fifo_queue queued push_value fst "pop_value limits cx" for limits cx
  by unfold_locales
    (auto simp: queued_def push_value_def queue_push_def pop_value_def poll_pop_def Let_def
      split: list.splits if_splits option.splits)

lemma queue_step_values:
  assumes "queue_step limits c e t c'" "q_receiver_open (fst c')"
  shows "q_receiver_open (fst c) \<and>
    (case e of
       Sent v \<Rightarrow> queued (fst c') = queued (fst c) @ [v]
     | Received v \<Rightarrow> queued (fst c) = v # queued (fst c')
     | Silent \<Rightarrow> queued (fst c') = queued (fst c))"
  using assms
proof (induction rule: queue_step.induct)
  case (popped s cx v ws s' r)
  then have "pop_value limits cx s = Some (v, s')" by (simp add: pop_value_def)
  with popped show ?case by (simp add: mq.contents_deq)
next
  case (receiver_dropped s ws s' r)
  then show ?case by (auto simp: drop_receiver_def)
next
  case (sender_dropped s ws s')
  then have "s' = snd (drop_sender s)" by simp
  with sender_dropped.prems show ?case by (simp add: drop_sender_def Let_def queued_def split: if_splits)
next
  case (pop_ended s cx ws s' r)
  then show ?case
    by (auto simp: poll_pop_def queued_def Let_def split: if_splits option.splits list.splits)
next
  case (pop_waits s cx ws s' r)
  then show ?case
    by (auto simp: poll_pop_def queued_def Let_def split: if_splits option.splits list.splits)
next
  case (try_sent v sz s ws s')
  then show ?case by (auto simp: try_send_def queue_push_def queued_def split: if_splits)
next
  case (sent cx v sz s v' ws s')
  then show ?case by (auto simp: poll_send_def queue_push_def queued_def split: if_splits)
next
  case (permit_used v sz s ws s')
  then show ?case by (auto simp: permit_send_def queue_push_def queued_def split: if_splits)
next
  case (try_refused v sz s e ws s')
  then show ?case by (auto simp: try_send_def split: if_splits prod.splits)
next
  case (send_refused cx v sz s e v' ws s')
  then show ?case by (auto simp: poll_send_def split: if_splits prod.splits option.splits)
next
  case (send_waits cx v sz s v' ws s')
  then show ?case
    by (auto simp: poll_send_def queued_def split: if_splits prod.splits option.splits)
next
  case (permit_lost v sz s ws s')
  then show ?case by (auto simp: permit_send_def)
qed (auto simp: poll_reserve_def clone_sender_def queued_def split: if_splits)

text \<open>
  C22. Values cross the queue in order and none is lost or made up: however producers and the
  consumer interleave, as long as the receiver lives the values queued so far are the values
  received so far followed by the values still in the queue.
\<close>

theorem queue_fifo:
  assumes "queue_run limits es c" and "q_receiver_open (fst c)"
  shows "sent_values es = received_values es @ queued (fst c)"
  using assms
proof (induction rule: queue_run.induct)
  case run_start
  show ?case by (simp add: channel_def queued_def)
next
  case (run_step es c e c')
  with queue_step_values [OF run_step.hyps(2)] show ?case
    by (cases e) simp_all
qed

text \<open>A run of two values sent and one received, with room for two values.\<close>

lemma queue_run_example:
  "queue_run \<lparr>lim_values = 2, lim_bytes = 100\<rparr> [Sent 5, Sent 6, Received (5 :: nat)]
     (channel\<lparr>q_queue := [(6, 20)], q_queued_bytes := 20\<rparr>, False)"
proof -
  let ?l = "\<lparr>lim_values = 2, lim_bytes = 100\<rparr>"
  let ?s1 = "channel\<lparr>q_queue := [(5 :: nat, 10)], q_queued_bytes := 10\<rparr>"
  let ?s2 = "channel\<lparr>q_queue := [(5, 10), (6 :: nat, 20)], q_queued_bytes := 30\<rparr>"
  have fits: "n \<le> USIZE_MAX" if "n \<le> 100" for n using that by (simp add: USIZE_MAX_def)
  have 1: "queue_step ?l (channel, False) (Sent 5) (None, []) (?s1, False)"
    by (rule queue_step.try_sent [of _ _ 10 _ "[]"])
      (simp_all add: try_send_def has_room_def queue_push_def wake_def channel_def
        saturating_add_exact fits)
  have 2: "queue_step ?l (?s1, False) (Sent 6) (None, []) (?s2, False)"
    by (rule queue_step.try_sent [of _ _ 20 _ "[]"])
      (simp_all add: try_send_def has_room_def queue_push_def wake_def channel_def
        saturating_add_exact fits)
  have 3: "queue_step ?l (?s2, False) (Received 5) (None, [])
      (channel\<lparr>q_queue := [(6, 20)], q_queued_bytes := 20\<rparr>, False)"
    by (rule queue_step.popped [of _ _ None _ "[]"])
      (simp_all add: poll_pop_def has_room_def channel_def)
  from run_step [OF run_step [OF run_step [OF run_start 1] 2] 3] show ?thesis by simp
qed

theorem queue_fifo_witness:
  "sent_values [Sent 5, Sent 6, Received (5 :: nat)] =
     received_values [Sent 5, Sent 6, Received 5] @ [6]"
  using queue_fifo [OF queue_run_example] by (simp add: channel_def queued_def)

text \<open>
  C23. The queue stays within its limits in every interleaving: never more values than the count
  limit, and the values queued before the newest one weigh less than the byte limit, so the queue
  holds at most one value beyond it. The byte counter is exact.
\<close>

theorem queue_bounds:
  assumes "queue_run limits es (s, permit)"
  shows "length (q_queue s) \<le> lim_values limits \<and>
    q_queued_bytes s = queue_bytes (q_queue s) \<and>
    (q_queue s = [] \<or> queue_bytes (butlast (q_queue s)) < lim_bytes limits)"
  using queue_run_inv [OF assms] by (simp add: queue_inv_def)

theorem queue_bounds_witness:
  "length [(6 :: nat, 20 :: nat)] \<le> (2 :: nat) \<and> queue_bytes [(6 :: nat, 20)] = 20 \<and>
   queue_bytes (butlast [(6 :: nat, 20)]) < 100"
  using queue_bounds [OF queue_run_example] by simp

subsection \<open>Wake-ups\<close>

definition wait_inv :: "limits \<Rightarrow> waker set \<Rightarrow> waker option \<Rightarrow> 'a queue_state \<times> bool \<Rightarrow> bool" where
  "wait_inv limits producers consumer c \<longleftrightarrow> queue_inv limits c \<and>
     producers \<subseteq> set (q_sender_wakers (fst c)) \<and>
     (consumer = None \<or> consumer = q_receiver_waker (fst c))"

lemma set_register: "set (register ws cx) = insert cx (set ws)"
  by (auto simp: register_def)

lemma set_wake: "set (wake w) = set_option w"
  by (cases w) (simp_all add: wake_def)

lemmas waits_left = producers_left_def consumer_left_def

lemma poll_pop_waits:
  assumes "poll_pop limits cx s = (res, ws, s')"
  shows "q_sender_wakers s' = q_sender_wakers s \<and> ws = [] \<or> q_sender_wakers s' = [] \<and> ws = q_sender_wakers s"
    and "res = Pending \<Longrightarrow> cx = Some w \<Longrightarrow> q_receiver_waker s' = Some w"
    and "res \<noteq> Pending \<or> cx = None \<Longrightarrow> q_receiver_waker s' = q_receiver_waker s"
  using assms
  by (auto simp: poll_pop_def Let_def split: list.splits if_splits option.splits)

lemma queue_step_waits:
  assumes "queue_step limits c e t c'" and "producers \<subseteq> set (q_sender_wakers (fst c))"
    and "consumer = None \<or> consumer = q_receiver_waker (fst c)"
  shows "producers_left producers t \<subseteq> set (q_sender_wakers (fst c')) \<and>
    (consumer_left consumer t = None \<or> consumer_left consumer t = q_receiver_waker (fst c'))"
  using assms
proof (induction rule: queue_step.induct)
  case (popped s cx v ws s' r)
  then show ?case using poll_pop_waits [OF popped(2)]
    by (auto simp: waits_left)
next
  case (pop_ended s cx ws s' r)
  then show ?case using poll_pop_waits [OF pop_ended(2)]
    by (auto simp: waits_left)
next
  case (pop_waits s cx ws s' r)
  then show ?case using poll_pop_waits [OF pop_waits(2)]
    by (cases cx) (auto simp: waits_left)
next
  case (try_sent v sz s ws s')
  then show ?case
    by (auto simp: waits_left try_send_def queue_push_def set_wake split: if_split_asm)
next
  case (sent cx v sz s v' ws s')
  then show ?case
    by (auto simp: waits_left poll_send_def queue_push_def set_wake split: if_split_asm)
next
  case (permit_used v sz s ws s')
  then show ?case
    by (auto simp: waits_left permit_send_def queue_push_def set_wake split: if_split_asm)
next
  case (send_waits cx v sz s v' ws s')
  then show ?case
    by (auto simp: waits_left poll_send_def set_register queue_push_def split: if_split_asm option.split_asm)
next
  case (reserve_waits cx s s')
  then show ?case
    by (auto simp: waits_left poll_reserve_def set_register split: if_split_asm)
next
  case (sender_dropped s ws s')
  then show ?case
    by (auto simp: waits_left drop_sender_def Let_def set_wake split: if_split_asm)
next
  case (receiver_dropped s ws s' r)
  then show ?case by (auto simp: waits_left drop_receiver_def)
next
  case (try_refused v sz s e ws s')
  then show ?case by (auto simp: waits_left try_send_def queue_push_def split: if_split_asm)
next
  case (send_refused cx v sz s e v' ws s')
  then show ?case
    by (auto simp: waits_left poll_send_def queue_push_def split: if_split_asm option.split_asm)
next
  case (permit_lost v sz s ws s')
  then show ?case by (auto simp: waits_left permit_send_def)
qed (auto simp: waits_left poll_reserve_def clone_sender_def split: if_split_asm)

lemma wait_run_inv: "wait_run limits producers consumer c \<Longrightarrow> wait_inv limits producers consumer c"
proof (induction rule: wait_run.induct)
  case wait_start
  show ?case by (simp add: wait_inv_def queue_inv_start)
next
  case (wait_step producers consumer c e t c')
  then show ?case
    using queue_step_waits [OF wait_step(2), of producers consumer] queue_step_inv [OF wait_step(2)]
    by (simp add: wait_inv_def)
qed

text \<open>A producer that finds the queue of one value full waits.\<close>

lemma wait_run_example:
  "wait_run \<lparr>lim_values = 1, lim_bytes = 100\<rparr> {9} None
     ((channel :: nat queue_state)\<lparr>q_queue := [(5, 10)], q_queued_bytes := 10, q_sender_wakers := [9]\<rparr>, False)"
proof -
  let ?l = "\<lparr>lim_values = 1, lim_bytes = 100\<rparr>"
  let ?s1 = "channel\<lparr>q_queue := [(5 :: nat, 10)], q_queued_bytes := 10\<rparr>"
  have 1: "queue_step ?l (channel, False) (Sent 5) (None, []) (?s1, False)"
    by (rule queue_step.try_sent [of _ _ 10 _ "[]"])
      (simp_all add: try_send_def has_room_def queue_push_def wake_def channel_def
        saturating_add_exact USIZE_MAX_def)
  have 2: "queue_step ?l (?s1, False) Silent (Some (Producer 9), []) (?s1\<lparr>q_sender_wakers := [9]\<rparr>, False)"
    by (rule queue_step.send_waits [of _ _ "Some 6" 20 _ "Some 6"])
      (simp_all add: poll_send_def has_room_def register_def channel_def)
  from wait_step [OF wait_step [OF wait_start 1] 2] show ?thesis
    by (simp add: waits_left)
qed

text \<open>
  C10. No wake-up is lost, whatever producers and the consumer interleave: while a producer whose poll
  pended is left unwoken the receiver lives and the queue has no room, so there is nothing it could
  do, and while the consumer whose poll pended is left unwoken the queue is empty and a producer is
  left. For this a pending poll leaves its task registered, the pop that makes room wakes every
  registered producer, queueing a value wakes the registered receiver, and so do the drop of the
  last sender for the receiver and the drop of the receiver for all producers; no waker that was
  woken stays registered.
\<close>

theorem queue_no_lost_wakeup:
  assumes "wait_run limits producers consumer (s, permit)"
  shows "(producers \<noteq> {} \<longrightarrow> q_receiver_open s \<and> \<not> has_room limits s) \<and>
    (consumer \<noteq> None \<longrightarrow> q_queue s = [] \<and> 0 < q_senders s) \<and>
    producers \<subseteq> set (q_sender_wakers s) \<and> (consumer \<noteq> None \<longrightarrow> q_receiver_waker s = consumer) \<and>
    (q_sender_wakers s \<noteq> [] \<longrightarrow> q_receiver_open s \<and> \<not> has_room limits s) \<and>
    (q_receiver_waker s \<noteq> None \<longrightarrow> q_queue s = [] \<and> 0 < q_senders s) \<and>
    (\<forall>cx v sz v' ws s'. poll_send limits cx v sz s = (Pending, v', ws, s') \<longrightarrow> cx \<in> set (q_sender_wakers s')) \<and>
    (\<forall>cx s'. poll_reserve limits cx s = (Pending, s') \<longrightarrow> cx \<in> set (q_sender_wakers s')) \<and>
    (\<forall>cx ws s'. poll_recv limits cx s = (Pending, ws, s') \<longrightarrow> q_receiver_waker s' = Some cx) \<and>
    (\<forall>cx v ws s'. poll_pop limits cx s = (Ready (Some v), ws, s') \<longrightarrow> has_room limits s' \<longrightarrow>
       ws = q_sender_wakers s \<and> q_sender_wakers s' = []) \<and>
    (\<forall>v sz ws s'. try_send limits v sz s = (Inr (), ws, s') \<longrightarrow>
       ws = wake (q_receiver_waker s) \<and> q_receiver_waker s' = None) \<and>
    (q_senders s = 1 \<longrightarrow> fst (drop_sender s) = wake (q_receiver_waker s)) \<and>
    fst (drop_receiver s) = q_sender_wakers s"
proof -
  note wait = wait_run_inv [OF assms, unfolded wait_inv_def, simplified]
  then have inv: "q_sender_wakers s = [] \<or> q_receiver_open s \<and> \<not> has_room limits s"
    "q_receiver_waker s = None \<or> q_queue s = [] \<and> 0 < q_senders s"
    by (simp_all add: queue_inv_def)
  have send: "cx \<in> set (q_sender_wakers s')" if "poll_send limits cx v sz s = (Pending, v', ws, s')"
    for cx v sz v' ws s'
    using that by (auto simp: poll_send_def set_register queue_push_def split: if_split_asm option.split_asm)
  have reserve: "cx \<in> set (q_sender_wakers s')" if "poll_reserve limits cx s = (Pending, s')" for cx s'
    using that by (auto simp: poll_reserve_def set_register split: if_split_asm)
  have recv: "q_receiver_waker s' = Some cx" if "poll_recv limits cx s = (Pending, ws, s')" for cx ws s'
    using that poll_pop_waits(2) [of limits "Some cx" s Pending ws s' cx] by (simp add: poll_recv_def)
  have pop: "ws = q_sender_wakers s \<and> q_sender_wakers s' = []"
    if "poll_pop limits cx s = (Ready (Some v), ws, s')" "has_room limits s'" for cx v ws s'
    using that by (auto simp: poll_pop_def Let_def split: list.splits if_splits option.splits)
  have push: "ws = wake (q_receiver_waker s) \<and> q_receiver_waker s' = None"
    if "try_send limits v sz s = (Inr (), ws, s')" for v sz ws s'
    using that by (auto simp: try_send_def queue_push_def split: if_splits)
  have drops: "q_senders s = 1 \<Longrightarrow> fst (drop_sender s) = wake (q_receiver_waker s)"
    "fst (drop_receiver s) = q_sender_wakers s"
    by (simp_all add: drop_sender_def drop_receiver_def Let_def)
  have waiting: "producers \<noteq> {} \<longrightarrow> q_receiver_open s \<and> \<not> has_room limits s"
    "consumer \<noteq> None \<longrightarrow> q_queue s = [] \<and> 0 < q_senders s"
    "producers \<subseteq> set (q_sender_wakers s)" "consumer \<noteq> None \<longrightarrow> q_receiver_waker s = consumer"
    using wait inv by auto
  show ?thesis
    using waiting inv by (intro conjI allI impI; (simp only: drops send reserve recv pop push)?) simp_all
qed

theorem queue_no_lost_wakeup_witness:
  "let s = (channel :: nat queue_state)\<lparr>q_queue := [(5, 10)], q_queued_bytes := 10, q_sender_wakers := [9]\<rparr> in
   \<not> has_room \<lparr>lim_values = 1, lim_bytes = 100\<rparr> s \<and> fst (drop_receiver s) = [9] \<and> fst (drop_sender s) = []"
  using queue_no_lost_wakeup [OF wait_run_example]
  by (simp add: Let_def channel_def wake_def)

end
