(* ===== verification/Datagram_Demux.thy ===== *)
theory Datagram_Demux
  imports Datagram Msg_Queue "HOL-Library.AList"
begin

text \<open>
  The demultiplexer of a connection's datagrams, \<open>datagram.rs\<close>: the flows that have ended, the
  datagrams held for flows that have not started, the registered flows with the queues of their
  calls, and the operations that open, end and feed them. Each operation runs under the lock of
  the shared state, so it is one function; it returns the wakers it wakes. The queues of the calls
  are numbered, and \<open>dm_queues\<close> holds their states: a queue is shared by the demultiplexer and the
  call that receives from it. Instants are nanoseconds.
\<close>

subsection \<open>Ended flows\<close>

record ended_flows =
  ef_capacity :: usize
  ef_order :: "u64 list"
  ef_set :: "u64 set"

definition ended_new :: "usize \<Rightarrow> ended_flows" where
  "ended_new capacity = \<lparr>ef_capacity = capacity, ef_order = [], ef_set = {}\<rparr>"

definition ended_contains :: "ended_flows \<Rightarrow> u64 \<Rightarrow> bool" where
  "ended_contains e flow \<longleftrightarrow> flow \<in> ef_set e"

fun ended_trim :: "usize \<Rightarrow> u64 list \<Rightarrow> u64 set \<Rightarrow> u64 list \<times> u64 set" where
  "ended_trim capacity [] flows = ([], flows)"
| "ended_trim capacity (oldest # order) flows =
     (if capacity < length (oldest # order) then ended_trim capacity order (flows - {oldest})
      else (oldest # order, flows))"

definition ended_insert :: "u64 \<Rightarrow> ended_flows \<Rightarrow> ended_flows" where
  "ended_insert flow e =
     (if flow \<in> ef_set e then e
      else (case ended_trim (ef_capacity e) (ef_order e @ [flow]) (insert flow (ef_set e)) of
              (order, flows) \<Rightarrow> e\<lparr>ef_order := order, ef_set := flows\<rparr>))"

definition ended_remove :: "u64 \<Rightarrow> ended_flows \<Rightarrow> ended_flows" where
  "ended_remove flow e =
     (if flow \<in> ef_set e
      then e\<lparr>ef_set := ef_set e - {flow}, ef_order := filter (\<lambda>ended. ended \<noteq> flow) (ef_order e)\<rparr>
      else e)"

subsection \<open>Held datagrams\<close>

definition MAX_HELD_DATAGRAMS :: nat where
  "MAX_HELD_DATAGRAMS = 64"

definition MAX_HELD_BYTES :: nat where
  "MAX_HELD_BYTES = 64 * 1024"

definition HELD_DATAGRAM_TTL :: nat where
  "HELD_DATAGRAM_TTL = 500 * 1000000"

record held =
  he_flow :: u64
  he_messages :: messages
  he_at :: nat

definition held_len :: "held \<Rightarrow> usize" where
  "held_len h = length (ms_datagram (he_messages h))"

record held_datagrams =
  hs_held :: "held list"
  hs_bytes :: usize

definition held_default :: held_datagrams where
  "held_default = \<lparr>hs_held = [], hs_bytes = 0\<rparr>"

fun expire_front :: "nat \<Rightarrow> held list \<Rightarrow> usize \<Rightarrow> held list \<times> usize" where
  "expire_front now [] bytes = ([], bytes)"
| "expire_front now (front # held) bytes =
     (if now - he_at front < HELD_DATAGRAM_TTL then (front # held, bytes)
      else expire_front now held (bytes - held_len front))"

definition expire :: "nat \<Rightarrow> held_datagrams \<Rightarrow> held_datagrams" where
  "expire now h =
     (case expire_front now (hs_held h) (hs_bytes h) of
        (held, bytes) \<Rightarrow> h\<lparr>hs_held := held, hs_bytes := bytes\<rparr>)"

definition hold :: "u64 \<Rightarrow> messages \<Rightarrow> nat \<Rightarrow> held_datagrams \<Rightarrow> held_datagrams" where
  "hold flow ms now h =
     (let h = expire now h;
          len = length (ms_datagram ms) in
      if MAX_HELD_DATAGRAMS \<le> length (hs_held h) \<or> MAX_HELD_BYTES < saturating_add (hs_bytes h) len
      then h
      else h\<lparr>hs_bytes := saturating_add (hs_bytes h) len,
             hs_held := hs_held h @ [\<lparr>he_flow = flow, he_messages = ms, he_at = now\<rparr>]\<rparr>)"

fun claim_drain ::
  "u64 \<Rightarrow> held list \<Rightarrow> usize \<Rightarrow> messages list \<Rightarrow> held list \<Rightarrow> messages list \<times> held list \<times> usize" where
  "claim_drain flow [] bytes claimed kept = (claimed, kept, bytes)"
| "claim_drain flow (h # held) bytes claimed kept =
     (if he_flow h = flow
      then claim_drain flow held (bytes - held_len h) (claimed @ [he_messages h]) kept
      else claim_drain flow held bytes claimed (kept @ [h]))"

definition claim :: "u64 \<Rightarrow> nat \<Rightarrow> held_datagrams \<Rightarrow> messages list \<times> held_datagrams" where
  "claim flow now h =
     (let h = expire now h in
      if \<not> list_ex (\<lambda>held. he_flow held = flow) (hs_held h) then ([], h)
      else (case claim_drain flow (hs_held h) (hs_bytes h) [] [] of
              (claimed, kept, bytes) \<Rightarrow> (claimed, h\<lparr>hs_held := kept, hs_bytes := bytes\<rparr>)))"

subsection \<open>Shared state\<close>

definition QUEUE :: limits where
  "QUEUE = \<lparr>lim_values = min (lim_values MESSAGES * 4) USIZE_MAX, lim_bytes = lim_bytes MESSAGES\<rparr>"

definition MAX_DRAINED :: nat where
  "MAX_DRAINED = 1024"

definition MIN_ENDED_FLOWS :: nat where
  "MIN_ENDED_FLOWS = 16"

definition ENDED_FLOWS_PER_STREAM :: nat where
  "ENDED_FLOWS_PER_STREAM = 2"

definition UNLIMITED_STREAMS_ASSUMED :: nat where
  "UNLIMITED_STREAMS_ASSUMED = 1024"

datatype role = Server | Client

record slot =
  sl_sink :: "nat option"
  sl_accept :: accept

record demux =
  dm_role :: role
  dm_prefix :: bytes
  dm_link :: link
  dm_flows :: "(u64 \<times> slot) list"
  dm_ended :: ended_flows
  dm_held :: held_datagrams
  dm_max_frame_size :: usize
  dm_next_flow :: u64
  dm_queues :: "bytes queue_state list"
  dm_reader :: bool

definition demux_new :: "bytes \<Rightarrow> role \<Rightarrow> usize \<Rightarrow> usize \<Rightarrow> demux" where
  "demux_new pre role ended_capacity max_frame_size =
     \<lparr>dm_role = role, dm_prefix = pre, dm_link = link_new, dm_flows = [],
      dm_ended = ended_new ended_capacity, dm_held = held_default,
      dm_max_frame_size = max_frame_size, dm_next_flow = 1, dm_queues = [], dm_reader = False\<rparr>"

definition ensure_reader :: "demux \<Rightarrow> demux" where
  "ensure_reader s = s\<lparr>dm_reader := True\<rparr>"

definition supported :: "usize option \<Rightarrow> nat \<Rightarrow> demux \<Rightarrow> bool \<times> demux" where
  "supported current elapsed s =
     (case link_max_size current elapsed (dm_link s) of (limit, l) \<Rightarrow> (limit \<noteq> None, s\<lparr>dm_link := l\<rparr>))"

definition demux_server :: "bytes \<Rightarrow> usize option \<Rightarrow> usize \<Rightarrow> usize option \<Rightarrow> nat \<Rightarrow> demux" where
  "demux_server pre max_streams max_frame_size current elapsed =
     (let capacity = max (min ((case max_streams of None \<Rightarrow> UNLIMITED_STREAMS_ASSUMED | Some n \<Rightarrow> n) *
                              ENDED_FLOWS_PER_STREAM) USIZE_MAX) MIN_ENDED_FLOWS;
          (accepts, s) = supported current elapsed (demux_new pre Server capacity max_frame_size) in
      if accepts then ensure_reader s else s)"

definition demux_client :: "bytes \<Rightarrow> usize \<Rightarrow> demux" where
  "demux_client pre max_frame_size = demux_new pre Client 0 max_frame_size"

text \<open>Sending messages to a queue, dropping what does not fit.\<close>

fun deliver :: "bytes list \<Rightarrow> bytes queue_state \<Rightarrow> waker list \<times> bytes queue_state" where
  "deliver [] q = ([], q)"
| "deliver (message # ms) q =
     (case try_send QUEUE message (length message) q of
        (_, ws, q) \<Rightarrow> (case deliver ms q of (ws', q) \<Rightarrow> (ws @ ws', q)))"

definition dispatch :: "zstd_lib \<Rightarrow> nat \<Rightarrow> bytes \<Rightarrow> demux \<Rightarrow> waker list \<times> demux" where
  "dispatch Z now datagram s =
     (if \<not> starts_with datagram (dm_prefix s) then ([], s)
      else
        (case datagram_decode (drop (length (dm_prefix s)) datagram) (dm_max_frame_size s) of
           None \<Rightarrow> ([], s)
         | Some (flow, ms) \<Rightarrow>
             (case map_of (dm_flows s) flow of
                Some slot \<Rightarrow>
                  (case sl_sink slot of
                     None \<Rightarrow> ([], s)
                   | Some q \<Rightarrow>
                       (case messages_inflate Z (dm_max_frame_size s) (sl_accept slot) ms of
                          (None, accept) \<Rightarrow>
                            ([], s\<lparr>dm_flows := AList.update flow (slot\<lparr>sl_accept := accept\<rparr>) (dm_flows s)\<rparr>)
                        | (Some messages, accept) \<Rightarrow>
                            (case deliver messages (dm_queues s ! q) of
                               (ws, queue) \<Rightarrow>
                                 (ws, s\<lparr>dm_flows := AList.update flow (slot\<lparr>sl_accept := accept\<rparr>) (dm_flows s),
                                        dm_queues := (dm_queues s)[q := queue]\<rparr>))))
              | None \<Rightarrow>
                  if dm_role s = Server \<and> \<not> ended_contains (dm_ended s) flow
                  then ([], s\<lparr>dm_held := hold flow ms now (dm_held s)\<rparr>)
                  else ([], s))))"

text \<open>
  \<open>drain\<close> and the reader task: the datagrams the transport has received, as many as \<open>MAX_DRAINED\<close>
  at once in the former. The result holds those left in the transport.
\<close>

fun dispatch_all :: "zstd_lib \<Rightarrow> nat \<Rightarrow> bytes list \<Rightarrow> demux \<Rightarrow> waker list \<times> demux" where
  "dispatch_all Z now [] s = ([], s)"
| "dispatch_all Z now (datagram # ds) s =
     (case dispatch Z now datagram s of
        (ws, s) \<Rightarrow> (case dispatch_all Z now ds s of (ws', s) \<Rightarrow> (ws @ ws', s)))"

definition drain :: "zstd_lib \<Rightarrow> nat \<Rightarrow> bytes list \<Rightarrow> demux \<Rightarrow> waker list \<times> bytes list \<times> demux" where
  "drain Z now received s =
     (case dispatch_all Z now (take MAX_DRAINED received) s of
        (ws, s) \<Rightarrow> (ws, drop MAX_DRAINED received, s))"

text \<open>Removing a flow's slot drops its sender of the queue.\<close>

definition unregister :: "u64 \<Rightarrow> demux \<Rightarrow> waker list \<times> demux" where
  "unregister flow s =
     (let (ws, queues) =
            (case Option.bind (map_of (dm_flows s) flow) sl_sink of
               None \<Rightarrow> ([], dm_queues s)
             | Some q \<Rightarrow>
                 (case drop_sender (dm_queues s ! q) of (ws, queue) \<Rightarrow> (ws, (dm_queues s)[q := queue])));
          s = s\<lparr>dm_flows := AList.delete flow (dm_flows s), dm_queues := queues\<rparr> in
      (ws, if dm_role s = Server then s\<lparr>dm_ended := ended_insert flow (dm_ended s)\<rparr> else s))"

definition demux_sender :: "u64 \<Rightarrow> demux \<Rightarrow> flow_sender option" where
  "demux_sender flow s =
     map_option (\<lambda>header.
       \<lparr>fs_header = header, fs_max_frame_size = dm_max_frame_size s, fs_compress = NoDict\<rparr>)
       (flow_header (dm_prefix s) flow)"

definition demux_sink :: "bool \<Rightarrow> demux \<Rightarrow> nat option \<times> demux" where
  "demux_sink streams s =
     (if streams then (Some (length (dm_queues s)), s\<lparr>dm_queues := dm_queues s @ [channel]\<rparr>)
      else (None, s))"

record client_flow =
  cfl_flow :: u64
  cfl_requests :: "flow_sender option"
  cfl_responses :: "nat option"

definition open_client_flow ::
  "usize option \<Rightarrow> nat \<Rightarrow> rpc_kind \<Rightarrow> unreliable \<Rightarrow> accept \<Rightarrow> demux \<Rightarrow> client_flow option \<times> demux" where
  "open_client_flow current elapsed kind u accept s =
     (let u = unreliable_effective u kind in
      if \<not> unreliable_any u then (None, s)
      else
        (case supported current elapsed s of
           (accepts, s) \<Rightarrow>
             if \<not> accepts then (None, s)
             else
               (let flow = dm_next_flow s;
                    s = s\<lparr>dm_next_flow := flow + 1\<rparr> in
                if VARINT_MAX < flow then (None, s)
                else
                  (case demux_sender flow s of
                     None \<Rightarrow> (None, s)
                   | Some sender \<Rightarrow>
                       (case demux_sink (streams_responses kind) s of
                          (sink, s) \<Rightarrow>
                            (Some \<lparr>cfl_flow = flow,
                                   cfl_requests = (if ur_requests u then Some sender else None),
                                   cfl_responses = sink\<rparr>,
                             ensure_reader (s\<lparr>dm_flows := AList.update flow
                               \<lparr>sl_sink = sink, sl_accept = accept\<rparr> (dm_flows s)\<rparr>)))))))"

datatype flow_in_use = FlowInUse

record server_flow =
  sfl_requests :: "nat option"
  sfl_sender :: flow_sender

text \<open>
  The held datagrams go through the call's copy of the \<open>Accept\<close>, which shares the counter of the
  slot's: the slot ends up with the counts.
\<close>

fun deliver_held ::
  "zstd_lib \<Rightarrow> usize \<Rightarrow> accept \<Rightarrow> messages list \<Rightarrow> bytes queue_state \<Rightarrow> accept \<times> waker list \<times> bytes queue_state" where
  "deliver_held Z max_frame_size accept [] q = (accept, [], q)"
| "deliver_held Z max_frame_size accept (ms # held) q =
     (case messages_inflate Z max_frame_size accept ms of
        (inflated, accept) \<Rightarrow>
          (case deliver (case inflated of None \<Rightarrow> [] | Some messages \<Rightarrow> messages) q of
             (ws, q) \<Rightarrow>
               (case deliver_held Z max_frame_size accept held q of
                  (accept, ws', q) \<Rightarrow> (accept, ws @ ws', q))))"

definition open_server_flow ::
  "zstd_lib \<Rightarrow> nat \<Rightarrow> u64 \<Rightarrow> rpc_kind \<Rightarrow> accept \<Rightarrow> demux \<Rightarrow> (flow_in_use + server_flow) \<times> waker list \<times> demux" where
  "open_server_flow Z now flow kind accept s =
     (if flow = 0 \<or> VARINT_MAX < flow then (Inl FlowInUse, [], s)
      else
        (case demux_sender flow s of
           None \<Rightarrow> (Inl FlowInUse, [], s)
         | Some sender \<Rightarrow>
             if map_of (dm_flows s) flow \<noteq> None then (Inl FlowInUse, [], s)
             else
               (case demux_sink (streams_requests kind) s of
                  (sink, s) \<Rightarrow>
                    (let s = s\<lparr>dm_ended := ended_remove flow (dm_ended s)\<rparr> in
                     case claim flow now (dm_held s) of
                       (claimed, h) \<Rightarrow>
                         (let s = s\<lparr>dm_held := h\<rparr>;
                              (accept, ws, s) =
                                (case sink of
                                   None \<Rightarrow> (accept, [], s)
                                 | Some q \<Rightarrow>
                                     (case deliver_held Z (dm_max_frame_size s) accept claimed
                                             (clone_sender (dm_queues s ! q)) of
                                        (accept, ws, queue) \<Rightarrow>
                                          (case drop_sender queue of
                                             (ws', queue) \<Rightarrow>
                                               (accept, ws @ ws', s\<lparr>dm_queues := (dm_queues s)[q := queue]\<rparr>))));
                              s = s\<lparr>dm_flows := AList.update flow
                                    \<lparr>sl_sink = sink, sl_accept = accept\<rparr> (dm_flows s)\<rparr> in
                          (Inr \<lparr>sfl_requests = sink, sfl_sender = sender\<rparr>, ws, ensure_reader s))))))"

subsection \<open>Invariants\<close>

definition ended_wf :: "ended_flows \<Rightarrow> bool" where
  "ended_wf e \<longleftrightarrow> distinct (ef_order e) \<and> set (ef_order e) = ef_set e \<and> length (ef_order e) \<le> ef_capacity e"

definition held_wf :: "nat \<Rightarrow> held_datagrams \<Rightarrow> bool" where
  "held_wf now h \<longleftrightarrow> length (hs_held h) \<le> MAX_HELD_DATAGRAMS \<and>
     hs_bytes h = sum_list (map held_len (hs_held h)) \<and> hs_bytes h \<le> MAX_HELD_BYTES \<and>
     sorted (map he_at (hs_held h)) \<and> (\<forall>held \<in> set (hs_held h). he_at held \<le> now)"

definition checked :: "usize \<Rightarrow> messages \<Rightarrow> bool" where
  "checked limit ms \<longleftrightarrow> list_all (\<lambda>(t, p). t = MESSAGE \<longrightarrow> length p \<le> limit) (messages_all ms)"

text \<open>What a queue takes of the messages delivered to it.\<close>

definition queue_room :: "usize \<Rightarrow> bool" where
  "queue_room limit \<longleftrightarrow> limit + lim_bytes QUEUE \<le> USIZE_MAX"

text \<open>The queue a live flow feeds.\<close>

definition sinks :: "demux \<Rightarrow> u64 \<Rightarrow> nat option" where
  "sinks s flow = Option.bind (map_of (dm_flows s) flow) sl_sink"

definition queues_ok :: "(u64 \<Rightarrow> nat option) \<Rightarrow> bytes queue_state list \<Rightarrow> bool" where
  "queues_ok feeds queues \<longleftrightarrow>
     (\<forall>flow q. feeds flow = Some q \<longrightarrow> q < length queues) \<and>
     (\<forall>flow flow' q. feeds flow = Some q \<longrightarrow> feeds flow' = Some q \<longrightarrow> flow = flow') \<and>
     (\<forall>q < length queues. queue_inv QUEUE (queues ! q, False) \<and>
        q_senders (queues ! q) = (if q \<in> ran feeds then 1 else 0))"

definition held_flows :: "demux \<Rightarrow> u64 set" where
  "held_flows s = he_flow ` set (hs_held (dm_held s))"

definition demux_inv :: "nat \<Rightarrow> demux \<Rightarrow> bool" where
  "demux_inv now s \<longleftrightarrow>
     ended_wf (dm_ended s) \<and> held_wf now (dm_held s) \<and>
     (\<forall>h \<in> set (hs_held (dm_held s)). checked (dm_max_frame_size s) (he_messages h)) \<and>
     queues_ok (sinks s) (dm_queues s) \<and> queue_room (dm_max_frame_size s) \<and>
     dom (map_of (dm_flows s)) \<inter> ef_set (dm_ended s) = {} \<and>
     dom (map_of (dm_flows s)) \<inter> held_flows s = {} \<and>
     ef_set (dm_ended s) \<inter> held_flows s = {}"

definition client_ok :: "demux \<Rightarrow> bool" where
  "client_ok s \<longleftrightarrow> dm_role s = Client \<longrightarrow>
     ef_set (dm_ended s) = {} \<and> hs_held (dm_held s) = [] \<and>
     (\<forall>flow \<in> dom (map_of (dm_flows s)). flow < dm_next_flow s)"

text \<open>The messages of held datagrams, as the call that claims them inflates them.\<close>

fun held_messages :: "zstd_lib \<Rightarrow> usize \<Rightarrow> accept \<Rightarrow> messages list \<Rightarrow> bytes list" where
  "held_messages Z limit accept [] = []"
| "held_messages Z limit accept (ms # mss) =
     (case messages_inflate Z limit accept ms of
        (inflated, accept) \<Rightarrow>
          (case inflated of None \<Rightarrow> [] | Some messages \<Rightarrow> messages) @ held_messages Z limit accept mss)"

definition in_use :: "u64 \<Rightarrow> demux \<Rightarrow> bool" where
  "in_use flow s \<longleftrightarrow> flow = 0 \<or> VARINT_MAX < flow \<or> flow \<in> dom (map_of (dm_flows s))"

text \<open>
  Runs of a demultiplexer: time passes, datagrams arrive, flows are opened by the side that owns the
  demultiplexer and unregistered once by their guard, and calls receive from their queues or drop
  their receivers. A client allocates less than \<open>2 ^ 64\<close> flows.
\<close>

inductive demux_run :: "zstd_lib \<Rightarrow> nat \<Rightarrow> demux \<Rightarrow> bool"
  for Z :: zstd_lib where
  server: "queue_room max_frame_size \<Longrightarrow>
    demux_run Z now (demux_server pre max_streams max_frame_size current elapsed)"
| client: "queue_room max_frame_size \<Longrightarrow> demux_run Z now (demux_client pre max_frame_size)"
| later: "demux_run Z now s \<Longrightarrow> now \<le> now' \<Longrightarrow> demux_run Z now' s"
| dispatched: "demux_run Z now s \<Longrightarrow> dispatch Z now datagram s = (ws, s') \<Longrightarrow> demux_run Z now s'"
| client_opened: "demux_run Z now s \<Longrightarrow> dm_role s = Client \<Longrightarrow> dm_next_flow s \<noteq> - 1 \<Longrightarrow>
    open_client_flow current elapsed kind u accept s = (flow, s') \<Longrightarrow> demux_run Z now s'"
| server_opened: "demux_run Z now s \<Longrightarrow> dm_role s = Server \<Longrightarrow>
    open_server_flow Z now flow kind accept s = (result, ws, s') \<Longrightarrow> demux_run Z now s'"
| unregistered: "demux_run Z now s \<Longrightarrow> flow \<in> dom (map_of (dm_flows s)) \<Longrightarrow>
    unregister flow s = (ws, s') \<Longrightarrow> demux_run Z now s'"
| received: "demux_run Z now s \<Longrightarrow> q < length (dm_queues s) \<Longrightarrow> q_receiver_open (dm_queues s ! q) \<Longrightarrow>
    poll_pop QUEUE cx (dm_queues s ! q) = (result, ws, queue) \<Longrightarrow>
    demux_run Z now (s\<lparr>dm_queues := (dm_queues s)[q := queue]\<rparr>)"
| receiver_dropped: "demux_run Z now s \<Longrightarrow> q < length (dm_queues s) \<Longrightarrow> q_receiver_open (dm_queues s ! q) \<Longrightarrow>
    drop_receiver (dm_queues s ! q) = (ws, queue) \<Longrightarrow>
    demux_run Z now (s\<lparr>dm_queues := (dm_queues s)[q := queue]\<rparr>)"

definition early_datagram :: bytes where
  "early_datagram = [5, 0, 2, 7, 8]"

definition example_demux :: demux where
  "example_demux = demux_server [] None 100 None 0"

definition held_example :: demux where
  "held_example = snd (dispatch rle_zstd 0 early_datagram example_demux)"

definition opened_example :: demux where
  "opened_example = snd (snd (open_server_flow rle_zstd 0 5 ClientStreaming (AcceptOne (dict_plain 1)) held_example))"

subsection \<open>Properties\<close>

lemma ended_trim_spec:
  assumes "distinct order" and "set order = flows" and "ended_trim capacity order flows = (order', flows')"
  shows "distinct order' \<and> set order' = flows' \<and> length order' \<le> capacity \<and> flows' \<subseteq> flows"
  using assms
proof (induction capacity order flows rule: ended_trim.induct)
  case (2 capacity oldest order flows)
  show ?case
  proof (cases "capacity < length (oldest # order)")
    case True
    then show ?thesis using 2 by auto
  next
    case False
    then show ?thesis using 2 by auto
  qed
qed simp

lemma ended_insert_wf:
  assumes "ended_wf e"
  shows "ended_wf (ended_insert flow e)" "ef_set (ended_insert flow e) \<subseteq> insert flow (ef_set e)"
proof -
  obtain order flows where t: "ended_trim (ef_capacity e) (ef_order e @ [flow]) (insert flow (ef_set e)) = (order, flows)"
    by (rule prod.exhaust)
  show "ended_wf (ended_insert flow e)" "ef_set (ended_insert flow e) \<subseteq> insert flow (ef_set e)"
    using assms ended_trim_spec [OF _ _ t] by (auto simp: ended_insert_def t ended_wf_def)
qed

lemma ended_remove_wf:
  assumes "ended_wf e"
  shows "ended_wf (ended_remove flow e)" "ef_set (ended_remove flow e) = ef_set e - {flow}"
  using assms by (auto simp: ended_remove_def ended_wf_def intro: order_trans [OF length_filter_le])

lemma expire_front_spec:
  assumes "sorted (map he_at held)" and "bytes = sum_list (map held_len held)"
  shows "expire_front now held bytes =
    (filter (\<lambda>h. now - he_at h < HELD_DATAGRAM_TTL) held,
     sum_list (map held_len (filter (\<lambda>h. now - he_at h < HELD_DATAGRAM_TTL) held)))"
  using assms
proof (induction held arbitrary: bytes)
  case (Cons h held)
  show ?case
  proof (cases "now - he_at h < HELD_DATAGRAM_TTL")
    case True
    then have "filter (\<lambda>h. now - he_at h < HELD_DATAGRAM_TTL) held = held"
      using Cons.prems(1) by (intro filter_True) (auto intro: le_less_trans [OF diff_le_mono2])
    with True Cons.prems show ?thesis by simp
  next
    case False
    with Cons show ?thesis by simp
  qed
qed simp

lemma held_sum_filter: "sum_list (map held_len (filter P xs)) \<le> sum_list (map held_len xs)"
  by (induction xs) auto

lemma expire_spec:
  assumes "held_wf now h" and "now \<le> now'"
  shows "expire now' h = (let live = filter (\<lambda>h. now' - he_at h < HELD_DATAGRAM_TTL) (hs_held h) in
      h\<lparr>hs_held := live, hs_bytes := sum_list (map held_len live)\<rparr>)"
    and "held_wf now' (expire now' h)"
proof -
  show e: "expire now' h = (let live = filter (\<lambda>h. now' - he_at h < HELD_DATAGRAM_TTL) (hs_held h) in
      h\<lparr>hs_held := live, hs_bytes := sum_list (map held_len live)\<rparr>)"
    using assms(1) by (simp add: expire_def held_wf_def expire_front_spec Let_def)
  show "held_wf now' (expire now' h)"
    using assms unfolding e held_wf_def
    by (auto simp: Let_def intro: order_trans order_trans [OF length_filter_le]
        order_trans [OF held_sum_filter] sorted_filter)
qed

lemma expire_subset: "held_wf now h \<Longrightarrow> now \<le> now' \<Longrightarrow> set (hs_held (expire now' h)) \<subseteq> set (hs_held h)"
  by (auto simp: expire_spec(1) Let_def)

lemma hold_wf:
  assumes "held_wf now h" and "now \<le> now'"
  shows "held_wf now' (hold flow ms now' h)"
    "he_flow ` set (hs_held (hold flow ms now' h)) \<subseteq> insert flow (he_flow ` set (hs_held h))"
proof -
  define e where "e = expire now' h"
  have e: "held_wf now' e" and sub: "set (hs_held e) \<subseteq> set (hs_held h)"
    using expire_spec(2) [OF assms] expire_subset [OF assms] by (simp_all add: e_def)
  have small: "MAX_HELD_BYTES < USIZE_MAX" by (simp add: MAX_HELD_BYTES_def USIZE_MAX_def)
  show "held_wf now' (hold flow ms now' h)"
    using e small unfolding hold_def e_def [symmetric] Let_def
    by (auto simp: held_wf_def held_len_def saturating_add_le_iff saturating_add_exact sorted_append not_le not_less)
  show "he_flow ` set (hs_held (hold flow ms now' h)) \<subseteq> insert flow (he_flow ` set (hs_held h))"
    using sub unfolding hold_def e_def [symmetric] Let_def by auto
qed

lemma claim_drain_spec:
  assumes "bytes = sum_list (map held_len held) + k"
  shows "claim_drain flow held bytes claimed kept =
    (claimed @ map he_messages (filter (\<lambda>h. he_flow h = flow) held),
     kept @ filter (\<lambda>h. he_flow h \<noteq> flow) held, sum_list (map held_len (filter (\<lambda>h. he_flow h \<noteq> flow) held)) + k)"
  using assms
proof (induction held arbitrary: bytes claimed kept k)
  case (Cons h held)
  show ?case
  proof (cases "he_flow h = flow")
    case True
    then show ?thesis using Cons.IH [of "bytes - held_len h" k] Cons.prems by simp
  next
    case False
    then show ?thesis using Cons.IH [of bytes "k + held_len h"] Cons.prems by simp
  qed
qed simp

lemma claim_spec:
  assumes "held_wf now h" and "now \<le> now'"
  shows "fst (claim flow now' h) =
      map he_messages (filter (\<lambda>h. he_flow h = flow \<and> now' - he_at h < HELD_DATAGRAM_TTL) (hs_held h))"
    and "held_wf now' (snd (claim flow now' h))"
    and "he_flow ` set (hs_held (snd (claim flow now' h))) \<subseteq> he_flow ` set (hs_held h) - {flow}"
proof -
  define e where "e = expire now' h"
  define live where "live = filter (\<lambda>h. now' - he_at h < HELD_DATAGRAM_TTL) (hs_held h)"
  have wf: "held_wf now' e" and held: "hs_held e = live" and sub: "set live \<subseteq> set (hs_held h)"
    using expire_spec [OF assms] by (simp_all add: e_def Let_def live_def)
  have drain: "claim_drain flow (hs_held e) (hs_bytes e) [] [] =
      (map he_messages (filter (\<lambda>h. he_flow h = flow) live), filter (\<lambda>h. he_flow h \<noteq> flow) live,
       sum_list (map held_len (filter (\<lambda>h. he_flow h \<noteq> flow) live)))"
    using claim_drain_spec [of "hs_bytes e" "hs_held e" 0] wf by (simp add: held_wf_def held)
  have c: "claim flow now' h = (map he_messages (filter (\<lambda>h. he_flow h = flow) live),
      e\<lparr>hs_held := filter (\<lambda>h. he_flow h \<noteq> flow) live,
        hs_bytes := sum_list (map held_len (filter (\<lambda>h. he_flow h \<noteq> flow) live))\<rparr>)"
  proof (cases "list_ex (\<lambda>held. he_flow held = flow) (hs_held e)")
    case True
    then show ?thesis unfolding claim_def e_def [symmetric] Let_def by (simp add: drain)
  next
    case False
    then have "filter (\<lambda>h. he_flow h = flow) live = []" "filter (\<lambda>h. he_flow h \<noteq> flow) live = live"
      by (auto simp: held list_ex_iff filter_empty_conv intro: filter_True)
    with False wf show ?thesis
      unfolding claim_def e_def [symmetric] Let_def by (simp add: held held_wf_def flip: held)
  qed
  show "fst (claim flow now' h) =
      map he_messages (filter (\<lambda>h. he_flow h = flow \<and> now' - he_at h < HELD_DATAGRAM_TTL) (hs_held h))"
    by (simp add: c live_def conj_commute)
  show "held_wf now' (snd (claim flow now' h))"
    using wf by (auto simp: c held_wf_def held intro: order_trans [OF length_filter_le]
        order_trans [OF held_sum_filter] sorted_filter)
  show "he_flow ` set (hs_held (snd (claim flow now' h))) \<subseteq> he_flow ` set (hs_held h) - {flow}"
    using sub by (auto simp: c)
qed

lemma messages_next_checked:
  assumes "frames_fill (ms_datagram ms) limit (ms_offset ms)" and "messages_next ms = (Some (t, p), ms')"
  shows "frames_fill (ms_datagram ms') limit (ms_offset ms') \<and> (t = MESSAGE \<longrightarrow> length p \<le> limit)"
  using assms
proof (induction ms rule: messages_next.induct)
  case (1 ms)
  show ?case
  proof (cases "next_frame (ms_datagram ms) (ms_offset ms)")
    case None
    then show ?thesis using 1(3) by (simp add: messages_next.simps [of ms])
  next
    case (Some f)
    obtain frame_type start stop where f: "f = (frame_type, start, stop)" by (rule prod_cases3)
    note grows = next_frame_grows [OF Some [unfolded f]]
    have fill: "frames_fill (ms_datagram ms) limit stop" "frame_type = MESSAGE \<Longrightarrow> stop - start \<le> limit"
      using 1(2) grows by (auto simp: frames_fill.simps [of _ _ "ms_offset ms"] Some f split: if_split_asm)
    show ?thesis
    proof (cases "frame_type = MESSAGE \<or> frame_type = ZSTD_MESSAGE")
      case True
      then show ?thesis
        using 1(3) fill by (auto simp: messages_next.simps [of ms] Some f Let_def min_def)
    next
      case False
      then have "messages_next (ms\<lparr>ms_offset := stop\<rparr>) = (Some (t, p), ms')"
        using 1(3) by (simp add: messages_next.simps [of ms] Some f Let_def)
      from 1(1) [OF Some [unfolded f] refl refl refl False _ this] fill show ?thesis by simp
    qed
  qed
qed

lemma messages_all_checked: "frames_fill (ms_datagram ms) limit (ms_offset ms) \<Longrightarrow> checked limit ms"
proof (induction ms rule: messages_all.induct)
  case (1 ms)
  show ?case
  proof (cases "messages_next ms")
    case (Pair m ms')
    then show ?thesis
      using 1 messages_next_checked [OF 1(2), of _ _ ms']
      by (cases m) (auto simp: checked_def messages_all.simps [of ms])
  qed
qed

lemma datagram_decode_checked: "datagram_decode datagram limit = Some (flow, ms) \<Longrightarrow> checked limit ms \<and> flow \<noteq> 0"
  by (auto simp: datagram_decode_def bind_eq_Some_conv split: if_split_asm intro: messages_all_checked)

lemma inflate_size: "inflate Z accept payload limit = (Inr message, accept') \<Longrightarrow> length message \<le> limit"
  by (auto simp: inflate_def dict_decompress_def Let_def split: if_split_asm option.splits sum.splits)

lemma inflate_messages_size:
  assumes "inflate_messages Z limit accept fs = (Some messages, accept')"
    and "list_all (\<lambda>(t, p). t = MESSAGE \<longrightarrow> length p \<le> limit) fs" and "list_all (\<lambda>(t, p). t = MESSAGE \<or> t = ZSTD_MESSAGE) fs"
  shows "list_all (\<lambda>message. length message \<le> limit) messages"
  using assms
proof (induction Z limit accept fs arbitrary: messages accept' rule: inflate_messages.induct)
  case (2 Z limit accept t p rest)
  then show ?case
    by (fastforce split: prod.splits sum.splits option.splits if_split_asm dest: inflate_size)
qed simp

lemma messages_next_types: "messages_next ms = (Some (t, p), ms') \<Longrightarrow> t = MESSAGE \<or> t = ZSTD_MESSAGE"
proof (induction ms rule: messages_next.induct)
  case (1 ms)
  show ?case
    using 1(2)
    by (auto simp: messages_next.simps [of ms] Let_def split: option.splits if_split_asm
        dest: 1(1) [OF _ refl refl refl])
qed

lemma messages_all_types: "list_all (\<lambda>(t, p). t = MESSAGE \<or> t = ZSTD_MESSAGE) (messages_all ms)"
proof (induction ms rule: messages_all.induct)
  case (1 ms)
  then show ?case
    by (subst messages_all.simps) (auto split: option.splits prod.splits dest: messages_next_types)
qed

lemma messages_inflate_size:
  "messages_inflate Z limit accept ms = (Some messages, accept') \<Longrightarrow> checked limit ms \<Longrightarrow>
   list_all (\<lambda>message. length message \<le> limit) messages"
  unfolding messages_inflate_def checked_def using inflate_messages_size messages_all_types by blast

lemma deliver_spec:
  assumes "queue_inv QUEUE (q, False)" and "list_all (\<lambda>message. length message \<le> limit) ms" and "queue_room limit"
    and "deliver ms q = (ws, q')"
  shows "queue_inv QUEUE (q', False) \<and> q_senders q' = q_senders q \<and> q_receiver_open q' = q_receiver_open q \<and>
    (\<exists>k \<le> length ms. queued q' = queued q @ take k ms \<and>
       (k < length ms \<longrightarrow> \<not> (q_receiver_open q' \<and> has_room QUEUE q')))"
  using assms
proof (induction ms arbitrary: q ws)
  case Nil
  then show ?case by simp
next
  case (Cons m ms)
  show ?case
  proof (cases "q_receiver_open q \<and> has_room QUEUE q")
    case True
    define q1 where "q1 = snd (queue_push m (length m) q)"
    have small: "q_queued_bytes q + length m \<le> USIZE_MAX"
      using True Cons.prems(2,3) by (auto simp: has_room_def queue_room_def)
    have inv: "queue_inv QUEUE (q1, False)"
      using queue_push_inv [OF Cons.prems(1) _ _ small] True by (simp add: q1_def)
    obtain ws1 where "deliver ms q1 = (ws1, q')"
      using Cons.prems(4) True
      by (auto simp: try_send_def q1_def queue_push_def split: prod.splits)
    note IH = Cons.IH [OF inv _ Cons.prems(3) this]
    from Cons.prems(2) have IH: "queue_inv QUEUE (q', False) \<and> q_senders q' = q_senders q1 \<and> q_receiver_open q' = q_receiver_open q1 \<and>
      (\<exists>k \<le> length ms. queued q' = queued q1 @ take k ms \<and>
         (k < length ms \<longrightarrow> \<not> (q_receiver_open q' \<and> has_room QUEUE q')))" by (intro IH) simp
    then obtain k where k: "k \<le> length ms" "queued q' = queued q1 @ take k ms"
      "k < length ms \<longrightarrow> \<not> (q_receiver_open q' \<and> has_room QUEUE q')" by blast
    have q1: "queued q1 = queued q @ [m]" "q_senders q1 = q_senders q" "q_receiver_open q1 = q_receiver_open q"
      by (simp_all add: q1_def queue_push_def queued_def)
    have "Suc k \<le> length (m # ms) \<and> queued q' = queued q @ take (Suc k) (m # ms) \<and>
      (Suc k < length (m # ms) \<longrightarrow> \<not> (q_receiver_open q' \<and> has_room QUEUE q'))"
      using k by (simp add: q1)
    with IH q1 show ?thesis by auto
  next
    case False
    have stuck: "deliver ms q = ([], q)" for ms :: "bytes list"
      using False by (induction ms) (auto simp: try_send_def)
    show ?thesis using Cons.prems(1,4) False by (auto simp: stuck intro: exI [of _ 0])
  qed
qed

lemma held_wf_later: "held_wf now h \<Longrightarrow> now \<le> now' \<Longrightarrow> held_wf now' h"
  by (auto simp: held_wf_def intro: order_trans)

lemma demux_inv_later: "demux_inv now s \<Longrightarrow> now \<le> now' \<Longrightarrow> demux_inv now' s"
  by (auto simp: demux_inv_def intro: held_wf_later)

lemma queues_ok_feeds:
  assumes "queues_ok feeds queues" and "feeds flow = Some q"
  shows "q < length queues" "queue_inv QUEUE (queues ! q, False)" "q_senders (queues ! q) = 1"
  using assms by (auto simp: queues_ok_def ranI)

lemma queues_ok_set:
  assumes "queues_ok feeds queues" and "queue_inv QUEUE (queue, False)"
    and "q_senders queue = q_senders (queues ! q)"
  shows "queues_ok feeds (queues[q := queue])"
proof (cases "q < length queues")
  case True
  then show ?thesis using assms by (simp add: queues_ok_def nth_list_update)
next
  case False
  then show ?thesis using assms(1) by (simp add: list_update_beyond)
qed

lemma queues_ok_new:
  assumes "queues_ok feeds queues" and "feeds flow = None"
    and "queue_inv QUEUE (queue, False)" and "q_senders queue = 1"
  shows "queues_ok (feeds(flow \<mapsto> length queues)) (queues @ [queue])"
proof -
  have fresh: "feeds f \<noteq> Some (length queues)" for f using assms(1) by (auto simp: queues_ok_def)
  have ran: "ran (feeds(flow \<mapsto> length queues)) = insert (length queues) (ran feeds)"
    using assms(2) by simp
  have "(feeds(flow \<mapsto> length queues)) f = Some q \<Longrightarrow> q < length (queues @ [queue])" for f q
    using assms(1) by (auto simp: queues_ok_def less_Suc_eq split: if_split_asm)
  moreover have "(feeds(flow \<mapsto> length queues)) f = Some q \<Longrightarrow> (feeds(flow \<mapsto> length queues)) f' = Some q \<Longrightarrow> f = f'" for f f' q
    using assms(1) fresh by (auto simp: queues_ok_def split: if_split_asm)
  moreover have "queue_inv QUEUE ((queues @ [queue]) ! q, False) \<and>
      q_senders ((queues @ [queue]) ! q) = (if q \<in> insert (length queues) (ran feeds) then 1 else 0)"
    if "q < length (queues @ [queue])" for q
    using assms that by (cases "q < length queues") (auto simp: queues_ok_def nth_append less_Suc_eq)
  ultimately show ?thesis unfolding queues_ok_def ran by blast
qed

lemma queues_ok_drop:
  assumes ok: "queues_ok feeds queues" and feeds: "feeds flow = Some q"
  shows "queues_ok (feeds(flow := None)) (queues[q := snd (drop_sender (queues ! q))])"
proof -
  note q = queues_ok_feeds [OF assms]
  obtain ws queue where d: "drop_sender (queues ! q) = (ws, queue)" by (rule prod.exhaust)
  have step: "queue_step QUEUE (queues ! q, False) Silent (None, ws) (queue, False)"
    using q(3) d by (intro queue_step.sender_dropped) simp_all
  have dropped: "queue_inv QUEUE (queue, False)" "q_senders queue = 0"
    using queue_step_inv [OF step q(2)] q(3) d by (auto simp: drop_sender_def Let_def split: if_split_asm)
  have ran: "ran (feeds(flow := None)) = ran feeds - {q}"
    using assms unfolding queues_ok_def ran_def by (auto simp: fun_upd_apply) force
  show ?thesis
    using ok dropped q(1) unfolding queues_ok_def ran d snd_conv
    by (simp add: nth_list_update)
qed

lemma disjoint_insert: "A \<inter> X = {} \<Longrightarrow> a \<notin> A \<Longrightarrow> H \<subseteq> insert a X \<Longrightarrow> A \<inter> H = {}"
  by blast

lemma hold_inv:
  assumes "demux_inv now s" and "now \<le> now'" and "map_of (dm_flows s) flow = None"
    and "flow \<notin> ef_set (dm_ended s)" and "checked (dm_max_frame_size s) ms"
  shows "demux_inv now' (s\<lparr>dm_held := hold flow ms now' (dm_held s)\<rparr>)"
proof -
  define H where "H = he_flow ` set (hs_held (hold flow ms now' (dm_held s)))"
  have wf: "held_wf now (dm_held s)" using assms(1) by (simp add: demux_inv_def)
  note held = hold_wf [OF wf assms(2), of flow ms, folded H_def held_flows_def]
  have flow: "flow \<notin> dom (map_of (dm_flows s))" using assms(3) by (simp add: domIff)
  have disj: "dom (map_of (dm_flows s)) \<inter> held_flows s = {}" "ef_set (dm_ended s) \<inter> held_flows s = {}"
    using assms(1) by (simp_all add: demux_inv_def)
  have "set (hs_held (hold flow ms now' (dm_held s))) \<subseteq>
      insert \<lparr>he_flow = flow, he_messages = ms, he_at = now'\<rparr> (set (hs_held (dm_held s)))"
    using expire_subset [OF wf assms(2)] by (auto simp: hold_def Let_def)
  with assms(1,5) have "\<forall>h \<in> set (hs_held (hold flow ms now' (dm_held s))). checked (dm_max_frame_size s) (he_messages h)"
    by (auto simp: demux_inv_def)
  with held(1) assms(1) disjoint_insert [OF disj(1) flow held(2)] disjoint_insert [OF disj(2) assms(4) held(2)]
  show ?thesis by (simp add: demux_inv_def held_flows_def H_def sinks_def [abs_def])
qed

lemma sinks_accept:
  assumes "map_of (dm_flows s) flow = Some slot"
  shows "sinks (s\<lparr>dm_flows := AList.update flow (slot\<lparr>sl_accept := accept\<rparr>) (dm_flows s), dm_queues := queues\<rparr>) = sinks s"
  using assms by (auto simp: sinks_def update_conv' fun_eq_iff)

text \<open>The branches of \<open>dispatch\<close>.\<close>

lemma dispatch_cases:
  assumes dispatch: "dispatch Z now datagram s = (ws, s')"
  obtains (ignored) "s' = s" "ws = []"
  | (live) flow ms slot inflated accept q queue where "starts_with datagram (dm_prefix s)"
      "datagram_decode (drop (length (dm_prefix s)) datagram) (dm_max_frame_size s) = Some (flow, ms)"
      "map_of (dm_flows s) flow = Some slot" "sl_sink slot = Some q"
      "messages_inflate Z (dm_max_frame_size s) (sl_accept slot) ms = (inflated, accept)"
      "deliver (case inflated of None \<Rightarrow> [] | Some messages \<Rightarrow> messages) (dm_queues s ! q) = (ws, queue)"
      "s' = s\<lparr>dm_flows := AList.update flow (slot\<lparr>sl_accept := accept\<rparr>) (dm_flows s),
              dm_queues := (dm_queues s)[q := queue]\<rparr>"
  | (held) flow ms where "starts_with datagram (dm_prefix s)"
      "datagram_decode (drop (length (dm_prefix s)) datagram) (dm_max_frame_size s) = Some (flow, ms)"
      "map_of (dm_flows s) flow = None" "dm_role s = Server" "flow \<notin> ef_set (dm_ended s)"
      "s' = s\<lparr>dm_held := hold flow ms now (dm_held s)\<rparr>" "ws = []"
proof (cases "starts_with datagram (dm_prefix s)")
  case False
  with dispatch show ?thesis by (intro ignored) (simp_all add: dispatch_def)
next
  case pre: True
  show ?thesis
  proof (cases "datagram_decode (drop (length (dm_prefix s)) datagram) (dm_max_frame_size s)")
    case None
    with dispatch pre show ?thesis by (intro ignored) (simp_all add: dispatch_def)
  next
    case (Some fm)
    obtain flow ms where fm: "fm = (flow, ms)" by (rule prod.exhaust)
    note decoded = Some [unfolded fm]
    show ?thesis
    proof (cases "map_of (dm_flows s) flow")
      case None
      show ?thesis
      proof (cases "dm_role s = Server \<and> flow \<notin> ef_set (dm_ended s)")
        case True
        with dispatch pre decoded None show ?thesis
          by (intro held [OF pre decoded None]) (auto simp: dispatch_def ended_contains_def)
      next
        case False
        with dispatch pre decoded None show ?thesis
          by (intro ignored) (auto simp: dispatch_def ended_contains_def)
      qed
    next
      case slot: (Some slot)
      show ?thesis
      proof (cases "sl_sink slot")
        case None
        with dispatch pre decoded slot show ?thesis by (intro ignored) (simp_all add: dispatch_def)
      next
        case sink: (Some q)
        obtain inflated accept where i:
          "messages_inflate Z (dm_max_frame_size s) (sl_accept slot) ms = (inflated, accept)" by (rule prod.exhaust)
        obtain ws' queue where d:
          "deliver (case inflated of None \<Rightarrow> [] | Some messages \<Rightarrow> messages) (dm_queues s ! q) = (ws', queue)"
          by (rule prod.exhaust)
        have "dispatch Z now datagram s = (ws', s\<lparr>dm_flows := AList.update flow (slot\<lparr>sl_accept := accept\<rparr>) (dm_flows s),
            dm_queues := (dm_queues s)[q := queue]\<rparr>)"
          using d by (cases inflated) (auto simp: dispatch_def pre decoded slot sink i)
        with dispatch have "ws' = ws" "s' = s\<lparr>dm_flows := AList.update flow (slot\<lparr>sl_accept := accept\<rparr>) (dm_flows s),
            dm_queues := (dm_queues s)[q := queue]\<rparr>" by simp_all
        with d show ?thesis by (intro live [OF pre decoded slot sink i]) simp_all
      qed
    qed
  qed
qed

lemma inflated_sizes:
  assumes "messages_inflate Z limit accept ms = (inflated, accept')" and "checked limit ms"
  shows "list_all (\<lambda>message. length message \<le> limit) (case inflated of None \<Rightarrow> [] | Some messages \<Rightarrow> messages)"
  using assms messages_inflate_size by (cases inflated) auto

lemma dispatch_inv:
  assumes "demux_inv now s"  and "now \<le> now'" and "dispatch Z now' datagram s = (ws, s')"
  shows "demux_inv now' s'"
proof (cases rule: dispatch_cases [OF assms(3), case_names ignored live held])
  case ignored
  then show ?thesis using demux_inv_later [OF assms(1,2)] by simp
next
  case (live flow ms slot inflated accept q queue)
  have inv: "demux_inv now' s" by (rule demux_inv_later [OF assms(1,2)])
  have ok: "queues_ok (sinks s) (dm_queues s)" using inv by (simp add: demux_inv_def)
  have "sinks s flow = Some q" using live by (simp add: sinks_def)
  note d = deliver_spec [OF queues_ok_feeds(2) [OF ok this] inflated_sizes [OF live(5)] _ live(6)]
  have "queues_ok (sinks s) ((dm_queues s)[q := queue])"
    using d datagram_decode_checked [OF live(2)] inv by (intro queues_ok_set) (auto simp: demux_inv_def)
  then show ?thesis
    using inv live(3) unfolding live(7)
    by (auto simp: demux_inv_def sinks_accept update_conv' held_flows_def)
next
  case (held flow ms)
  then show ?thesis using hold_inv [OF assms(1,2)] datagram_decode_checked [OF held(2)] by simp
qed

lemma unregister_inv:
  assumes inv: "demux_inv now s" and live: "flow \<in> dom (map_of (dm_flows s))"
    and unregister: "unregister flow s = (ws, s')"
  shows "demux_inv now s'"
proof -
  define queues where "queues = (case sinks s flow of None \<Rightarrow> dm_queues s
    | Some q \<Rightarrow> (dm_queues s)[q := snd (drop_sender (dm_queues s ! q))])"
  define t where "t = s\<lparr>dm_flows := AList.delete flow (dm_flows s), dm_queues := queues\<rparr>"
  have s': "s' = (if dm_role s = Server then t\<lparr>dm_ended := ended_insert flow (dm_ended s)\<rparr> else t)"
    using unregister by (auto simp: unregister_def t_def queues_def sinks_def Let_def split: option.splits prod.splits)
  have sinks: "sinks t = (sinks s)(flow := None)" by (auto simp: t_def sinks_def delete_conv' fun_eq_iff)
  have ok: "queues_ok (sinks s) (dm_queues s)" using inv by (simp add: demux_inv_def)
  have ok': "queues_ok (sinks t) queues"
  proof (cases "sinks s flow")
    case None
    then have "(sinks s)(flow := None) = sinks s" by auto
    with None ok show ?thesis by (simp add: sinks queues_def)
  next
    case (Some q)
    then show ?thesis using queues_ok_drop [OF ok Some] by (simp add: sinks queues_def)
  qed
  have dom: "dom (map_of (dm_flows t)) = dom (map_of (dm_flows s)) - {flow}"
    by (simp add: t_def delete_conv')
  have held: "held_flows t = held_flows s" by (simp add: t_def held_flows_def)
  have t: "demux_inv now t"
    using inv ok' dom held by (auto simp: demux_inv_def t_def)
  show ?thesis
  proof (cases "dm_role s = Server")
    case True
    have wf: "ended_wf (dm_ended s)" using inv by (simp add: demux_inv_def)
    note ended = ended_insert_wf [OF wf, of flow]
    have disj: "dom (map_of (dm_flows s)) \<inter> held_flows s = {}" "held_flows s \<inter> ef_set (dm_ended s) = {}"
      "dom (map_of (dm_flows s)) \<inter> ef_set (dm_ended s) = {}"
      using inv by (simp_all add: demux_inv_def Int_commute)
    have "flow \<notin> held_flows s" using disj(1) live by blast
    with disj(2) have "held_flows s \<inter> ef_set (ended_insert flow (dm_ended s)) = {}"
      by (rule disjoint_insert) (rule ended(2))
    moreover have "(dom (map_of (dm_flows s)) - {flow}) \<inter> ef_set (dm_ended s) = {}" using disj(3) by blast
    then have "dom (map_of (dm_flows t)) \<inter> ef_set (ended_insert flow (dm_ended s)) = {}"
      unfolding dom by (rule disjoint_insert [OF _ _ ended(2)]) simp
    ultimately show ?thesis
      using t ended(1) True held by (simp add: s' demux_inv_def held_flows_def sinks_def [abs_def] Int_commute)
  next
    case False
    then show ?thesis using t by (simp add: s')
  qed
qed

lemma supported_same:
  assumes "supported current elapsed s = (accepts, t)"
  shows "\<exists>l. t = s\<lparr>dm_link := l\<rparr>"
  using assms by (auto simp: supported_def split: prod.splits)

lemma demux_inv_unrelated:
  "demux_inv now (s\<lparr>dm_link := l\<rparr>) = demux_inv now s"
  "demux_inv now (s\<lparr>dm_next_flow := n\<rparr>) = demux_inv now s"
  "demux_inv now (s\<lparr>dm_reader := r\<rparr>) = demux_inv now s"
  by (simp_all add: demux_inv_def sinks_def [abs_def] held_flows_def)

text \<open>Registering a flow with the queue it may feed.\<close>

lemma register_flow_inv:
  assumes inv: "demux_inv now s" and fresh: "flow \<notin> dom (map_of (dm_flows s))"
    and other: "flow \<notin> ef_set (dm_ended s)" "flow \<notin> held_flows s"
    and sink: "sink = None \<and> queues = dm_queues s \<or>
      (\<exists>queue. sink = Some (length (dm_queues s)) \<and> queues = dm_queues s @ [queue] \<and>
         queue_inv QUEUE (queue, False) \<and> q_senders queue = 1)"
  shows "demux_inv now (s\<lparr>dm_flows := AList.update flow \<lparr>sl_sink = sink, sl_accept = accept\<rparr> (dm_flows s), dm_queues := queues\<rparr>)"
    (is "demux_inv now ?t")
proof -
  have ok: "queues_ok (sinks s) (dm_queues s)" using inv by (simp add: demux_inv_def)
  have none: "sinks s flow = None" using fresh by (simp add: sinks_def domIff)
  have t: "sinks ?t = (sinks s)(flow := sink)"
    by (auto simp: sinks_def update_conv' fun_eq_iff)
  from sink have "queues_ok (sinks ?t) queues"
  proof
    assume "sink = None \<and> queues = dm_queues s"
    moreover have "(sinks s)(flow := None) = sinks s" using none by auto
    ultimately show ?thesis using ok unfolding t by simp
  next
    assume "\<exists>queue. sink = Some (length (dm_queues s)) \<and> queues = dm_queues s @ [queue] \<and>
         queue_inv QUEUE (queue, False) \<and> q_senders queue = 1"
    then show ?thesis using queues_ok_new [OF ok none] unfolding t by auto
  qed
  moreover have "dom (map_of (dm_flows ?t)) = insert flow (dom (map_of (dm_flows s)))"
    by (simp add: update_conv')
  ultimately show ?thesis
    using inv other unfolding demux_inv_def by (simp add: held_flows_def)
qed

lemma channel_ok: "queue_inv QUEUE (channel, False)" "q_senders channel = 1"
  using queue_inv_start by (simp_all add: channel_def)

lemma open_client_flow_ok:
  assumes inv: "demux_inv now s" and client: "dm_role s = Client" "client_ok s" "dm_next_flow s \<noteq> - 1"
    and opened: "open_client_flow current elapsed kind u accept s = (result, s')"
  shows "demux_inv now s' \<and> client_ok s'"
proof (cases "unreliable_any (unreliable_effective u kind)")
  case False
  then show ?thesis using assms by (simp add: open_client_flow_def)
next
  case True
  obtain accepts t where t: "supported current elapsed s = (accepts, t)" by (rule prod.exhaust)
  then obtain l where l: "t = s\<lparr>dm_link := l\<rparr>" using supported_same by blast
  define flow where "flow = dm_next_flow s"
  define n where "n = s\<lparr>dm_link := l, dm_next_flow := flow + 1\<rparr>"
  have "1 + flow \<noteq> 0" using client(3) by (metis add.commute eq_neg_iff_add_eq_0 flow_def)
  then have less: "flow < flow + 1" by (simp add: word_less_nat_alt unatSuc add.commute)
  have n_inv: "demux_inv now n" using inv by (simp add: n_def demux_inv_unrelated)
  have n_ok: "client_ok n"
    using client(1,2) less by (auto simp: n_def client_ok_def flow_def intro: less_trans)
  show ?thesis
  proof (cases "accepts \<and> \<not> VARINT_MAX < flow \<and> demux_sender flow n \<noteq> None")
    case False
    then have "s' = t \<or> s' = n" using opened True t l
      by (auto simp: open_client_flow_def n_def flow_def Let_def split: if_split_asm option.splits)
    moreover have "demux_inv now t" using inv by (simp add: l demux_inv_unrelated)
    moreover have "client_ok t" using client(2) by (simp add: l client_ok_def)
    ultimately show ?thesis using n_inv n_ok by auto
  next
    case ok: True
    obtain sink v where sink: "demux_sink (streams_responses kind) n = (sink, v)" by (rule prod.exhaust)
    define queues where "queues = (if streams_responses kind then dm_queues n @ [channel] else dm_queues n)"
    define w where "w = n\<lparr>dm_flows := AList.update flow \<lparr>sl_sink = sink, sl_accept = accept\<rparr> (dm_flows n), dm_queues := queues\<rparr>"
    have "v = n\<lparr>dm_queues := queues\<rparr>" using sink by (auto simp: demux_sink_def queues_def)
    then have s': "s' = w\<lparr>dm_reader := True\<rparr>"
      using opened True ok t l sink
      by (auto simp: open_client_flow_def ensure_reader_def n_def w_def flow_def Let_def split: if_split_asm option.splits)
    have "flow \<notin> dom (map_of (dm_flows n))"
      using client(1,2) by (auto simp: n_def client_ok_def flow_def)
    moreover have "flow \<notin> ef_set (dm_ended n)" "flow \<notin> held_flows n"
      using client(1,2) by (simp_all add: n_def client_ok_def held_flows_def)
    moreover have "sink = None \<and> queues = dm_queues n \<or>
      (\<exists>queue. sink = Some (length (dm_queues n)) \<and> queues = dm_queues n @ [queue] \<and>
         queue_inv QUEUE (queue, False) \<and> q_senders queue = 1)"
      using sink channel_ok by (auto simp: demux_sink_def queues_def)
    ultimately have "demux_inv now w" unfolding w_def by (rule register_flow_inv [OF n_inv])
    moreover have "client_ok w"
      using n_ok less by (auto simp: client_ok_def w_def n_def update_conv')
    ultimately show ?thesis unfolding s' by (simp add: demux_inv_unrelated client_ok_def)
  qed
qed

lemma deliver_append:
  "deliver (xs @ ys) q = (case deliver xs q of (ws, q) \<Rightarrow> (case deliver ys q of (ws', q) \<Rightarrow> (ws @ ws', q)))"
  by (induction xs arbitrary: q) (auto split: prod.splits)

lemma deliver_held_deliver:
  "\<exists>accept'. deliver_held Z limit accept mss q =
     (accept', deliver (held_messages Z limit accept mss) q)"
proof (induction mss arbitrary: accept q)
  case (Cons ms mss)
  obtain inflated accept1 where i: "messages_inflate Z limit accept ms = (inflated, accept1)" by (rule prod.exhaust)
  obtain ws q1 where d: "deliver (case inflated of None \<Rightarrow> [] | Some messages \<Rightarrow> messages) q = (ws, q1)" by (rule prod.exhaust)
  from Cons.IH [of accept1 q1] show ?case by (auto simp: i d deliver_append split: prod.splits)
qed simp

lemma held_messages_size:
  "\<forall>ms \<in> set mss. checked limit ms \<Longrightarrow> list_all (\<lambda>message. length message \<le> limit) (held_messages Z limit accept mss)"
proof (induction mss arbitrary: accept)
  case (Cons ms mss)
  obtain inflated accept1 where i: "messages_inflate Z limit accept ms = (inflated, accept1)" by (rule prod.exhaust)
  from Cons show ?case using inflated_sizes [OF i] by (simp add: i)
qed simp

lemma opened_queue:
  assumes "list_all (\<lambda>message. length message \<le> limit) ms" and "queue_room limit"
    and "deliver ms (clone_sender channel) = (ws, q)" and "drop_sender q = (ws', queue)"
  shows "queue_inv QUEUE (queue, False) \<and> q_senders queue = 1 \<and> q_receiver_open queue \<and>
    (\<exists>k \<le> length ms. queued queue = take k ms \<and> (k < length ms \<longrightarrow> \<not> has_room QUEUE queue))"
proof -
  have start: "queue_inv QUEUE (clone_sender channel, False)"
    by (rule queue_step_inv [OF queue_step.cloned queue_inv_start]) (simp add: channel_def)
  have clone: "q_senders (clone_sender channel) = 2" "q_receiver_open (clone_sender (channel :: bytes queue_state))"
    "queued (clone_sender channel) = []"
    by (simp_all add: clone_sender_def channel_def queued_def saturating_add_def USIZE_MAX_def)
  note q = deliver_spec [OF start assms(1-3), unfolded clone]
  have step: "queue_step QUEUE (q, False) Silent (None, ws') (queue, False)"
    using q by (intro queue_step.sender_dropped [OF _ assms(4)]) simp
  have queue: "queue = q\<lparr>q_senders := 1\<rparr>"
    using q assms(4) by (simp add: drop_sender_def Let_def split: if_split_asm)
  show ?thesis using q clone(2) queue_step_inv [OF step] by (auto simp: queue queued_def)
qed

lemma open_server_flow_refused:
  "in_use flow s \<Longrightarrow> open_server_flow Z now flow kind accept s = (Inl FlowInUse, [], s)"
  by (auto simp: in_use_def open_server_flow_def domIff split: option.splits)

lemma demux_sender_ok: "\<not> in_use flow s \<Longrightarrow> demux_sender flow s \<noteq> None"
  using push_ok_iff [of "dm_prefix s" flow]
  by (auto simp: in_use_def demux_sender_def flow_header_def not_less is_ok_iff split: sum.splits)

text \<open>The state after a flow was opened, and its new queue.\<close>

lemma open_server_flow_opened:
  assumes free: "\<not> in_use flow s"
    and opened: "open_server_flow Z now flow kind accept s = (result, ws, s')"
    and msgs: "msgs = held_messages Z (dm_max_frame_size s) accept (fst (claim flow now (dm_held s)))"
  shows "\<exists>sink sender accept' queues. result = Inr \<lparr>sfl_requests = sink, sfl_sender = sender\<rparr> \<and>
    demux_sender flow s = Some sender \<and>
    s' = s\<lparr>dm_ended := ended_remove flow (dm_ended s), dm_held := snd (claim flow now (dm_held s)),
           dm_flows := AList.update flow \<lparr>sl_sink = sink, sl_accept = accept'\<rparr> (dm_flows s),
           dm_queues := queues, dm_reader := True\<rparr> \<and>
    (if streams_requests kind
     then sink = Some (length (dm_queues s)) \<and>
       (\<exists>queue. queues = dm_queues s @ [queue] \<and>
          queue = snd (drop_sender (snd (deliver msgs (clone_sender channel)))))
     else sink = None \<and> queues = dm_queues s)"
proof -
  obtain sender where sender: "demux_sender flow s = Some sender" using demux_sender_ok [OF free] by blast
  obtain claimed h where c: "claim flow now (dm_held s) = (claimed, h)" by (rule prod.exhaust)
  have fresh: "map_of (dm_flows s) flow = None" "flow \<noteq> 0" "\<not> VARINT_MAX < flow"
    using free by (auto simp: in_use_def domIff)
  show ?thesis
  proof (cases "streams_requests kind")
    case False
    then show ?thesis
      using opened sender c fresh
      by (auto simp: open_server_flow_def demux_sink_def ensure_reader_def Let_def)
  next
    case True
    obtain accept' where "deliver_held Z (dm_max_frame_size s) accept claimed (clone_sender channel) =
        (accept', deliver msgs (clone_sender channel))"
      using deliver_held_deliver [of Z "dm_max_frame_size s" accept claimed "clone_sender channel"] msgs c by auto
    with True show ?thesis
      using opened sender c fresh
      by (auto simp: open_server_flow_def demux_sink_def ensure_reader_def Let_def split: prod.splits
          intro!: exI [of _ accept'])
  qed
qed

lemma claim_drain_subset:
  "set (fst (snd (claim_drain flow held bytes claimed kept))) \<subseteq> set held \<union> set kept"
  by (induction flow held bytes claimed kept rule: claim_drain.induct) auto

lemma claim_subset:
  assumes "held_wf now h" and "now \<le> now'"
  shows "set (hs_held (snd (claim flow now' h))) \<subseteq> set (hs_held h)"
  using expire_subset [OF assms] claim_drain_subset [of flow "hs_held (expire now' h)" "hs_bytes (expire now' h)" "[]" "[]"]
  by (auto simp: claim_def Let_def split: prod.splits)

lemma open_server_flow_inv:
  assumes inv: "demux_inv now s" and later: "now \<le> now'" 
    and opened: "open_server_flow Z now' flow kind accept s = (result, ws, s')"
  shows "demux_inv now' s'"
proof (cases "in_use flow s")
  case True
  then show ?thesis
    using opened demux_inv_later [OF inv later] open_server_flow_refused [OF True] by simp
next
  case False
  define msgs where "msgs = held_messages Z (dm_max_frame_size s) accept (fst (claim flow now' (dm_held s)))"
  obtain sink accept' queues where
    s': "s' = s\<lparr>dm_ended := ended_remove flow (dm_ended s), dm_held := snd (claim flow now' (dm_held s)),
           dm_flows := AList.update flow \<lparr>sl_sink = sink, sl_accept = accept'\<rparr> (dm_flows s),
           dm_queues := queues, dm_reader := True\<rparr>" and
    sink: "if streams_requests kind
     then sink = Some (length (dm_queues s)) \<and>
       (\<exists>queue. queues = dm_queues s @ [queue] \<and>
          queue = snd (drop_sender (snd (deliver msgs (clone_sender channel)))))
     else sink = None \<and> queues = dm_queues s"
    using open_server_flow_opened [OF False opened msgs_def] by auto
  have wf: "held_wf now (dm_held s)" "ended_wf (dm_ended s)" using inv by (simp_all add: demux_inv_def)
  note claim = claim_spec [OF wf(1) later, of flow]
  note ended = ended_remove_wf [OF wf(2), of flow]
  define t where "t = s\<lparr>dm_ended := ended_remove flow (dm_ended s), dm_held := snd (claim flow now' (dm_held s))\<rparr>"
  have checked: "\<forall>h \<in> set (hs_held (dm_held s)). checked (dm_max_frame_size s) (he_messages h)"
    using inv by (simp add: demux_inv_def)
  have "set (hs_held (snd (claim flow now' (dm_held s)))) \<subseteq> set (hs_held (dm_held s))"
    by (rule claim_subset [OF wf(1) later])
  moreover have "held_flows t \<subseteq> held_flows s - {flow}"
    using claim(3) by (simp add: held_flows_def t_def)
  ultimately have t: "demux_inv now' t" "flow \<notin> held_flows t" "flow \<notin> ef_set (dm_ended t)"
    using inv claim(2) ended checked
    by (auto simp: demux_inv_def t_def sinks_def [abs_def])
  have "list_all (\<lambda>message. length message \<le> dm_max_frame_size s) msgs"
    using checked by (auto simp: msgs_def claim(1) intro!: held_messages_size)
  then have "queue_inv QUEUE (snd (drop_sender (snd (deliver msgs (clone_sender channel)))), False) \<and>
      q_senders (snd (drop_sender (snd (deliver msgs (clone_sender channel))))) = 1"
    using opened_queue [of "dm_max_frame_size s" msgs] inv by (simp add: demux_inv_def prod_eq_iff)
  then have "sink = None \<and> queues = dm_queues t \<or>
      (\<exists>queue. sink = Some (length (dm_queues t)) \<and> queues = dm_queues t @ [queue] \<and>
         queue_inv QUEUE (queue, False) \<and> q_senders queue = 1)"
    using sink by (auto simp: t_def split: if_split_asm)
  moreover have "flow \<notin> dom (map_of (dm_flows t))" using False by (simp add: in_use_def t_def)
  ultimately have "demux_inv now' (t\<lparr>dm_flows := AList.update flow \<lparr>sl_sink = sink, sl_accept = accept'\<rparr> (dm_flows t),
      dm_queues := queues\<rparr>)"
    using t by (intro register_flow_inv) auto
  then have "demux_inv now' (t\<lparr>dm_flows := AList.update flow \<lparr>sl_sink = sink, sl_accept = accept'\<rparr> (dm_flows t),
      dm_queues := queues, dm_reader := True\<rparr>)"
    by (simp add: demux_inv_unrelated)
  then show ?thesis by (simp add: s' t_def)
qed

lemma dispatch_client_ok:
  assumes "client_ok s" and "dispatch Z now datagram s = (ws, s')"
  shows "client_ok s'"
proof (cases rule: dispatch_cases [OF assms(2), case_names ignored live held])
  case ignored
  then show ?thesis using assms(1) by simp
next
  case (live flow ms slot inflated accept q queue)
  then have "dom (map_of (dm_flows s')) = dom (map_of (dm_flows s))" by (auto simp: update_conv')
  then show ?thesis using assms(1) live by (simp add: client_ok_def)
next
  case (held flow ms)
  then show ?thesis by (simp add: client_ok_def)
qed

lemma unregister_client_ok:
  assumes "client_ok s" and "unregister flow s = (ws, s')"
  shows "client_ok s'"
proof -
  have "dm_role s' = dm_role s" "dm_held s' = dm_held s" "dm_next_flow s' = dm_next_flow s"
    "dm_flows s' = AList.delete flow (dm_flows s)" "dm_role s = Client \<Longrightarrow> dm_ended s' = dm_ended s"
    using assms(2) by (auto simp: unregister_def Let_def split: option.splits prod.splits)
  with assms(1) show ?thesis by (auto simp: client_ok_def delete_conv')
qed

lemma open_server_flow_role:
  assumes "open_server_flow Z now flow kind accept s = (result, ws, s')"
  shows "dm_role s' = dm_role s"
proof (cases "in_use flow s")
  case True
  then show ?thesis using assms open_server_flow_refused [OF True] by simp
next
  case False
  from open_server_flow_opened [OF this assms refl] show ?thesis by auto
qed

lemma queue_step_senders:
  assumes "q_receiver_open s" and "poll_pop limits cx s = (result, ws, s')"
  shows "q_senders s' = q_senders s"
  using assms by (auto simp: poll_pop_def Let_def split: list.splits if_split_asm option.splits)

lemma set_queue_inv:
  assumes "demux_inv now s" and "queue_inv QUEUE (queue, False)" and "q_senders queue = q_senders (dm_queues s ! q)"
  shows "demux_inv now (s\<lparr>dm_queues := (dm_queues s)[q := queue]\<rparr>)"
  using assms queues_ok_set [OF _ assms(2,3), of "sinks s"]
  by (simp add: demux_inv_def held_flows_def sinks_def [abs_def])

lemma demux_new_inv: "queue_room max_frame_size \<Longrightarrow> demux_inv now (demux_new pre role capacity max_frame_size)"
  by (simp add: demux_inv_def demux_new_def ended_wf_def ended_new_def held_wf_def held_default_def
      queues_ok_def sinks_def [abs_def] held_flows_def MAX_HELD_BYTES_def)

lemma demux_server_shape:
  "\<exists>capacity l r. demux_server pre max_streams max_frame_size current elapsed =
     (demux_new pre Server capacity max_frame_size)\<lparr>dm_link := l, dm_reader := r\<rparr>"
  by (auto simp: demux_server_def Let_def ensure_reader_def demux_new_def split: prod.splits dest!: supported_same)

lemma demux_run_inv: "demux_run Z now s \<Longrightarrow> demux_inv now s \<and> client_ok s"
proof (induction rule: demux_run.induct)
  case (server max_frame_size now pre max_streams current elapsed)
  from demux_server_shape obtain capacity l r where
    "demux_server pre max_streams max_frame_size current elapsed =
     (demux_new pre Server capacity max_frame_size)\<lparr>dm_link := l, dm_reader := r\<rparr>" by blast
  with demux_new_inv [OF server] show ?case
    by (simp add: demux_inv_unrelated client_ok_def) (simp add: demux_new_def)
next
  case (client max_frame_size now pre)
  then show ?case using demux_new_inv
    by (simp add: demux_client_def client_ok_def) (simp add: demux_new_def ended_new_def held_default_def)
next
  case (received now s q cx result ws queue)
  then have "queue_inv QUEUE (dm_queues s ! q, False)" by (simp add: demux_inv_def queues_ok_def)
  from poll_pop_inv [OF this received.hyps(3,4)] received
  show ?case by (auto intro!: set_queue_inv queue_step_senders simp: client_ok_def)
next
  case (receiver_dropped now s q ws queue)
  then have q: "queue_inv QUEUE (dm_queues s ! q, False)" by (simp add: demux_inv_def queues_ok_def)
  have "queue_step QUEUE (dm_queues s ! q, False) Silent (None, ws) (queue, False)"
    using receiver_dropped by (intro queue_step.receiver_dropped)
  note queue = queue_step_inv [OF this q]
  have "q_senders queue = q_senders (dm_queues s ! q)"
    using receiver_dropped.hyps(4) by (auto simp: drop_receiver_def)
  from set_queue_inv [OF _ queue this] receiver_dropped.IH
  show ?case by (simp add: client_ok_def)
next
  case (later now s now')
  then show ?case using demux_inv_later by blast
next
  case (dispatched now s datagram ws s')
  then show ?case using dispatch_inv [OF _ order_refl] dispatch_client_ok by blast
next
  case (client_opened now s current elapsed kind u accept flow s')
  then show ?case using open_client_flow_ok by blast
next
  case (server_opened now s flow kind accept result ws s')
  then have "dm_role s' = Server"
    using open_server_flow_role [OF server_opened.hyps(3)] by simp
  with server_opened show ?case using open_server_flow_inv [OF _ order_refl] by (auto simp: client_ok_def)
next
  case (unregistered now s flow ws s')
  then show ?case using unregister_inv unregister_client_ok by blast
qed

lemma example_varints: "decode [5, 0, 2, 7, 8] = Some (5, 1)" "decode [0, 2, 7, 8] = Some (0, 1)" "decode [2, 7, 8] = Some (2, 1)"
  by code_simp+

lemma early_next: "next_frame [5, 0, 2, 7, 8] (Suc 0) = Some (MESSAGE, 3, 5)"
  by (simp add: next_frame_def get_from_def example_varints checked_add_def USIZE_MAX_def MESSAGE_def)

lemma early_decoded:
  "datagram_decode early_datagram 100 = Some (5, \<lparr>ms_datagram = early_datagram, ms_offset = 1\<rparr>)"
  by (simp add: datagram_decode_def early_datagram_def example_varints frames_fill.simps early_next
      MESSAGE_def ZSTD_STREAM_MESSAGE_def)

lemma early_messages:
  "messages_inflate Z 100 accept \<lparr>ms_datagram = early_datagram, ms_offset = 1\<rparr> = (Some [[7, 8]], accept)"
proof -
  have "next_frame [5, 0, 2, 7, 8] 5 = None" by (simp add: next_frame_def get_from_def decode_def)
  then have "messages_all \<lparr>ms_datagram = early_datagram, ms_offset = 1\<rparr> = [(MESSAGE, [7, 8])]"
    by (simp add: early_datagram_def messages_all.simps messages_next.simps early_next Let_def)
  then show ?thesis by (simp add: messages_inflate_def MESSAGE_def ZSTD_MESSAGE_def)
qed

lemma example_run: "demux_run rle_zstd 0 example_demux" "demux_run rle_zstd 0 held_example"
proof -
  show "demux_run rle_zstd 0 example_demux"
    unfolding example_demux_def by (rule demux_run.server)
      (simp add: queue_room_def QUEUE_def MESSAGES_def USIZE_MAX_def MESSAGE_FRAME_BATCH_def)
  then show "demux_run rle_zstd 0 held_example"
    unfolding held_example_def by (rule demux_run.dispatched) (rule surjective_pairing)
qed

lemma example_fields:
  "dm_prefix example_demux = []" "dm_max_frame_size example_demux = 100" "dm_flows example_demux = []"
    "dm_role example_demux = Server" "dm_ended example_demux = ended_new 2048" "dm_held example_demux = held_default"
    "dm_queues example_demux = []"
  by (simp_all add: example_demux_def demux_server_def supported_def link_max_size_def demux_new_def
        ensure_reader_def UNLIMITED_STREAMS_ASSUMED_def ENDED_FLOWS_PER_STREAM_def MIN_ENDED_FLOWS_def
        USIZE_MAX_def link_new_def Let_def UNREAD_def)

lemma held_example_eq:
  "held_example = example_demux\<lparr>dm_held := \<lparr>hs_held = [\<lparr>he_flow = 5,
     he_messages = \<lparr>ms_datagram = early_datagram, ms_offset = 1\<rparr>, he_at = 0\<rparr>], hs_bytes = 5\<rparr>\<rparr>"
proof -
  have "length early_datagram = 5" by (simp add: early_datagram_def)
  then show ?thesis
    unfolding held_example_def dispatch_def example_fields
    by (simp add: starts_with_def early_decoded ended_contains_def ended_new_def hold_def expire_def held_default_def
        MAX_HELD_DATAGRAMS_def MAX_HELD_BYTES_def saturating_add_def USIZE_MAX_def Let_def)
qed

text \<open>
  C19. The state a connection keeps for datagrams is bounded and consistent in every run, whatever
  datagrams arrive: at most \<open>MAX_HELD_DATAGRAMS\<close> datagrams and \<open>MAX_HELD_BYTES\<close> bytes are held, counted
  exactly, and at most the capacity of ended flows is remembered. No flow is at once live, ended or
  waiting for its REQUEST. Every live flow feeds a queue of its own, which stays within its limits and
  has a sender exactly while the flow is live, so the call of an unregistered flow sees the end.
\<close>

theorem demux_state_bounded:
  assumes "demux_run Z now s"
  shows "length (hs_held (dm_held s)) \<le> MAX_HELD_DATAGRAMS \<and> hs_bytes (dm_held s) \<le> MAX_HELD_BYTES \<and>
    hs_bytes (dm_held s) = sum_list (map held_len (hs_held (dm_held s))) \<and>
    card (ef_set (dm_ended s)) \<le> ef_capacity (dm_ended s) \<and>
    dom (map_of (dm_flows s)) \<inter> ef_set (dm_ended s) = {} \<and>
    dom (map_of (dm_flows s)) \<inter> held_flows s = {} \<and> ef_set (dm_ended s) \<inter> held_flows s = {} \<and>
    inj_on (sinks s) (dom (sinks s)) \<and>
    (\<forall>q < length (dm_queues s). length (q_queue (dm_queues s ! q)) \<le> lim_values QUEUE \<and>
       (q_senders (dm_queues s ! q) \<noteq> 0 \<longleftrightarrow> Some q \<in> range (sinks s)))"
proof -
  have inv: "demux_inv now s" using demux_run_inv [OF assms] by simp
  have "card (ef_set (dm_ended s)) \<le> ef_capacity (dm_ended s)"
    using inv distinct_card [of "ef_order (dm_ended s)"] by (simp add: demux_inv_def ended_wf_def)
  moreover have queues: "queues_ok (sinks s) (dm_queues s)" using inv by (simp add: demux_inv_def)
  moreover have "inj_on (sinks s) (dom (sinks s))"
    using queues by (intro inj_onI) (auto simp: queues_ok_def)
  moreover have "length (q_queue (dm_queues s ! q)) \<le> lim_values QUEUE \<and>
      (q_senders (dm_queues s ! q) \<noteq> 0 \<longleftrightarrow> Some q \<in> range (sinks s))" if "q < length (dm_queues s)" for q
  proof -
    have "q \<in> ran (sinks s) \<longleftrightarrow> Some q \<in> range (sinks s)" unfolding ran_def image_iff by (auto dest: sym)
    with queues that show ?thesis by (simp add: queues_ok_def queue_inv_def)
  qed
  ultimately show ?thesis using inv unfolding demux_inv_def held_wf_def by blast
qed

theorem demux_state_bounded_witness:
  "hs_bytes (dm_held held_example) \<le> MAX_HELD_BYTES \<and> hs_bytes (dm_held held_example) = 5"
  using demux_state_bounded [OF example_run(2)] by (simp add: held_example_eq)


text \<open>
  C4. Datagrams that overtake their REQUEST are not lost: opening the flow claims the ones held for
  it that are younger than \<open>HELD_DATAGRAM_TTL\<close>, and the new call's queue starts with their messages,
  in the order of arrival, up to what the queue has room for. Nothing stays held for the flow.
\<close>

theorem early_datagrams_delivered:
  assumes "demux_run Z now s" and "\<not> in_use flow s" and "streams_requests kind"
    and "open_server_flow Z now flow kind accept s = (result, ws, s')"
    and "early = filter (\<lambda>h. he_flow h = flow \<and> now - he_at h < HELD_DATAGRAM_TTL) (hs_held (dm_held s))"
    and "messages = held_messages Z (dm_max_frame_size s) accept (map he_messages early)"
  shows "\<exists>q sender k. result = Inr \<lparr>sfl_requests = Some q, sfl_sender = sender\<rparr> \<and> sinks s' flow = Some q \<and>
    queued (dm_queues s' ! q) = take k messages \<and>
    (k < length messages \<longrightarrow> \<not> has_room QUEUE (dm_queues s' ! q)) \<and> flow \<notin> held_flows s'"
proof -
  have inv: "demux_inv now s" using demux_run_inv [OF assms(1)] by simp
  then have wf: "held_wf now (dm_held s)" and room: "queue_room (dm_max_frame_size s)"
    and checked: "\<forall>h \<in> set (hs_held (dm_held s)). checked (dm_max_frame_size s) (he_messages h)"
    by (simp_all add: demux_inv_def)
  note claim = claim_spec [OF wf order_refl, of flow]
  define queue where "queue = snd (drop_sender (snd (deliver messages (clone_sender channel))))"
  have "messages = held_messages Z (dm_max_frame_size s) accept (fst (claim flow now (dm_held s)))"
    by (simp add: assms(5,6) claim(1))
  from open_server_flow_opened [OF assms(2,4) this] assms(3) obtain sender accept' where
    result: "result = Inr \<lparr>sfl_requests = Some (length (dm_queues s)), sfl_sender = sender\<rparr>" and
    s': "s' = s\<lparr>dm_ended := ended_remove flow (dm_ended s), dm_held := snd (claim flow now (dm_held s)),
           dm_flows := AList.update flow \<lparr>sl_sink = Some (length (dm_queues s)), sl_accept = accept'\<rparr> (dm_flows s),
           dm_queues := dm_queues s @ [queue], dm_reader := True\<rparr>"
    by (auto simp: queue_def)
  have "list_all (\<lambda>message. length message \<le> dm_max_frame_size s) messages"
    using checked by (auto simp: assms(5,6) intro!: held_messages_size)
  from opened_queue [OF this room surjective_pairing surjective_pairing]
  obtain k where "queued queue = take k messages" "k < length messages \<longrightarrow> \<not> has_room QUEUE queue"
    by (auto simp: queue_def)
  moreover have "flow \<notin> held_flows s'" using claim(3) by (auto simp: s' held_flows_def)
  ultimately show ?thesis using result by (auto simp: s' sinks_def update_conv')
qed

lemma example_push:
  "has_room QUEUE \<lparr>q_queue = qs, q_queued_bytes = n, q_senders = k, q_receiver_open = r, q_receiver_waker = w, q_sender_wakers = ws\<rparr> \<longleftrightarrow>
     length qs < 128 \<and> n < 65536"
  by (simp add: has_room_def QUEUE_def MESSAGES_def MESSAGE_FRAME_BATCH_def USIZE_MAX_def)

lemma opened_example_eq:
  "\<exists>sender. open_server_flow rle_zstd 0 5 ClientStreaming (AcceptOne (dict_plain 1)) held_example =
     (Inr \<lparr>sfl_requests = Some 0, sfl_sender = sender\<rparr>, [],
      held_example\<lparr>dm_held := held_default, dm_queues := [channel\<lparr>q_queue := [([7, 8], 2)], q_queued_bytes := 2\<rparr>],
        dm_flows := [(5, \<lparr>sl_sink = Some 0, sl_accept = AcceptOne (dict_plain 1)\<rparr>)], dm_reader := True\<rparr>)"
proof -
  have e: "dm_max_frame_size held_example = 100" "dm_flows held_example = []" "dm_ended held_example = ended_new 2048"
    "dm_queues held_example = []" "dm_held held_example = \<lparr>hs_held = [\<lparr>he_flow = 5,
     he_messages = \<lparr>ms_datagram = early_datagram, ms_offset = 1\<rparr>, he_at = 0\<rparr>], hs_bytes = 5\<rparr>"
    by (simp_all add: held_example_eq example_fields)
  have "\<not> in_use 5 held_example" by (simp add: in_use_def e VARINT_MAX_def)
  then obtain sender where "demux_sender 5 held_example = Some sender" using demux_sender_ok by blast
  moreover have "length early_datagram = 5" by (simp add: early_datagram_def)
  ultimately show ?thesis
    by (simp add: open_server_flow_def demux_sink_def e claim_def expire_def HELD_DATAGRAM_TTL_def held_len_def
        early_messages early_messages [unfolded One_nat_def] clone_sender_def drop_sender_def channel_def try_send_def example_push queue_push_def
        streams_requests_def wake_def saturating_add_def USIZE_MAX_def VARINT_MAX_def ended_remove_def ended_new_def held_default_def
        ensure_reader_def streams_requests_def Let_def)
qed

theorem early_datagrams_delivered_witness:
  "\<exists>q. sinks opened_example 5 = Some q \<and> queued (dm_queues opened_example ! q) = [[7, 8]]"
proof -
  obtain sender where o: "open_server_flow rle_zstd 0 5 ClientStreaming (AcceptOne (dict_plain 1)) held_example =
      (Inr \<lparr>sfl_requests = Some 0, sfl_sender = sender\<rparr>, [], opened_example)"
    using opened_example_eq by (auto simp: opened_example_def)
  have "\<not> in_use 5 held_example" by (simp add: in_use_def held_example_eq example_fields VARINT_MAX_def)
  from early_datagrams_delivered [OF example_run(2) this _ o refl refl]
  obtain q k where "sinks opened_example 5 = Some q" "queued (dm_queues opened_example ! q) = take k [[7, 8]]"
    "k < 1 \<longrightarrow> \<not> has_room QUEUE (dm_queues opened_example ! q)" "q = 0"
    by (auto simp: held_example_eq example_fields early_messages [unfolded One_nat_def] HELD_DATAGRAM_TTL_def streams_requests_def)
  moreover have "has_room QUEUE (dm_queues opened_example ! 0)"
    using opened_example_eq by (auto simp: opened_example_def channel_def example_push)
  ultimately show ?thesis by (cases k) auto
qed


end
