(* ===== verification/Merged_Streams.thy ===== *)
theory Merged_Streams
  imports Datagram_Demux Response_State "HOL-Library.Sublist"
begin

text \<open>
  The streams of a call that also receives datagrams: \<open>wake_gate.rs\<close> and the merged request and
  response streams of \<open>datagram.rs\<close>. The stream that is wrapped is not part of these components: it
  is the list of the results of its future polls, and pends when the list runs out. The datagram
  messages come from a queue of the demultiplexer, which a call drains when its stream ends.
\<close>

subsection \<open>A stream polled only when it woke\<close>

record 'a gated =
  ga_polls :: "'a option poll list"
  ga_woken :: bool
  ga_task :: "waker option"

definition gated_new :: "'a option poll list \<Rightarrow> 'a gated" where
  "gated_new inner = \<lparr>ga_polls = inner, ga_woken = True, ga_task = None\<rparr>"

definition gate_wake :: "'a gated \<Rightarrow> waker list \<times> 'a gated" where
  "gate_wake g = (wake (ga_task g), g\<lparr>ga_woken := True, ga_task := None\<rparr>)"

definition gated_poll :: "waker \<Rightarrow> 'a gated \<Rightarrow> 'a option poll \<times> 'a gated" where
  "gated_poll cx g =
     (let g = g\<lparr>ga_task := Some cx\<rparr> in
      if \<not> ga_woken g then (Pending, g)
      else
        (case ga_polls g of
           [] \<Rightarrow> (Pending, g\<lparr>ga_woken := False\<rparr>)
         | polled # rest \<Rightarrow> (polled, g\<lparr>ga_polls := rest, ga_woken := polled \<noteq> Pending\<rparr>)))"

subsection \<open>The connection\<close>

text \<open>The demultiplexer and the datagrams that the transport has received for it.\<close>

record conn =
  cn_demux :: demux
  cn_received :: "bytes list"

definition conn_drain :: "zstd_lib \<Rightarrow> nat \<Rightarrow> conn \<Rightarrow> waker list \<times> conn" where
  "conn_drain Z now c =
     (case drain Z now (cn_received c) (cn_demux c) of
        (ws, rest, s) \<Rightarrow> (ws, \<lparr>cn_demux = s, cn_received = rest\<rparr>))"

definition queue_at :: "conn \<Rightarrow> nat \<Rightarrow> bytes queue_state" where
  "queue_at c q = dm_queues (cn_demux c) ! q"

definition set_queue :: "nat \<Rightarrow> bytes queue_state \<Rightarrow> conn \<Rightarrow> conn" where
  "set_queue q queue c =
     c\<lparr>cn_demux := (cn_demux c)\<lparr>dm_queues := (dm_queues (cn_demux c))[q := queue]\<rparr>\<rparr>"

definition drop_datagrams :: "nat option \<Rightarrow> conn \<Rightarrow> waker list \<times> conn" where
  "drop_datagrams datagrams c =
     (case datagrams of
        None \<Rightarrow> ([], c)
      | Some q \<Rightarrow> (case drop_receiver (queue_at c q) of (ws, queue) \<Rightarrow> (ws, set_queue q queue c)))"

definition conn_poll_recv :: "waker \<Rightarrow> nat \<Rightarrow> conn \<Rightarrow> bytes option poll \<times> waker list \<times> conn" where
  "conn_poll_recv cx q c =
     (case poll_recv QUEUE cx (queue_at c q) of (polled, ws, queue) \<Rightarrow> (polled, ws, set_queue q queue c))"

definition conn_try_recv :: "nat \<Rightarrow> conn \<Rightarrow> bytes option \<times> waker list \<times> conn" where
  "conn_try_recv q c =
     (case try_recv QUEUE (queue_at c q) of (v, ws, queue) \<Rightarrow> (v, ws, set_queue q queue c))"

text \<open>Returning what the first poll yields, or else what the second does.\<close>

definition first_ready ::
  "('st \<Rightarrow> 'r poll \<times> waker list \<times> 'st) \<Rightarrow> ('st \<Rightarrow> 'r poll \<times> waker list \<times> 'st) \<Rightarrow>
   'st \<Rightarrow> 'r poll \<times> waker list \<times> 'st" where
  "first_ready f g st =
     (case f st of
        (Ready r, ws, st) \<Rightarrow> (Ready r, ws, st)
      | (Pending, ws, st) \<Rightarrow> (case g st of (polled, ws', st) \<Rightarrow> (polled, ws @ ws', st)))"

subsection \<open>Merged requests\<close>

record merged_requests =
  mq_requests :: "(error + bytes) gated"
  mq_datagrams :: "nat option"
  mq_count :: message_count
  mq_requests_done :: bool
  mq_datagrams_first :: bool

definition merged_requests_boxed ::
  "(error + bytes) option poll list \<Rightarrow> nat \<Rightarrow> message_count \<Rightarrow> merged_requests" where
  "merged_requests_boxed requests datagrams counter =
     \<lparr>mq_requests = gated_new requests, mq_datagrams = Some datagrams, mq_count = counter,
      mq_requests_done = False, mq_datagrams_first = False\<rparr>"

type_synonym 'st request_poller = "'st \<Rightarrow> (error + bytes) option poll \<times> waker list \<times> 'st"

definition poll_requests ::
  "zstd_lib \<Rightarrow> nat \<Rightarrow> waker \<Rightarrow> (merged_requests \<times> conn) request_poller" where
  "poll_requests Z now cx = (\<lambda>(m, c).
     if mq_requests_done m then (Pending, [], m, c)
     else
       (case gated_poll cx (mq_requests m) of
          (polled, g) \<Rightarrow>
            (let m = m\<lparr>mq_requests := g\<rparr> in
             case polled of
               Ready (Some (Inl e)) \<Rightarrow>
                 (case drop_datagrams (mq_datagrams m) c of
                    (ws, c) \<Rightarrow>
                      (Ready (Some (Inl e)), ws, m\<lparr>mq_requests_done := True, mq_datagrams := None\<rparr>, c))
             | Ready None \<Rightarrow>
                 (case conn_drain Z now c of
                    (ws, c) \<Rightarrow> (Pending, ws, m\<lparr>mq_requests_done := True\<rparr>, c))
             | other \<Rightarrow> (other, [], m, c))))"

definition poll_request_datagrams :: "waker \<Rightarrow> (merged_requests \<times> conn) request_poller" where
  "poll_request_datagrams cx = (\<lambda>(m, c).
     case mq_datagrams m of
       None \<Rightarrow> (Pending, [], m, c)
     | Some q \<Rightarrow>
         (let (received, ws, c) =
                (if mq_requests_done m
                 then (case conn_try_recv q c of (v, ws, c) \<Rightarrow> (Ready v, ws, c))
                 else conn_poll_recv cx q c) in
          case received of
            Pending \<Rightarrow> (Pending, ws, m, c)
          | Ready (Some message) \<Rightarrow>
              (Ready (Some (Inr message)), ws, m\<lparr>mq_count := message_count_add (mq_count m)\<rparr>, c)
          | Ready None \<Rightarrow>
              if mq_requests_done m
              then (case drop_datagrams (mq_datagrams m) c of
                      (ws', c) \<Rightarrow> (Pending, ws @ ws', m\<lparr>mq_datagrams := None\<rparr>, c))
              else (Pending, ws, m, c)))"

text \<open>The sources in the order of the round, and what happens once the request side has ended.\<close>

definition request_sources ::
  "zstd_lib \<Rightarrow> nat \<Rightarrow> waker \<Rightarrow> bool \<Rightarrow> (merged_requests \<times> conn) request_poller" where
  "request_sources Z now cx datagrams_first =
     (if datagrams_first then first_ready (poll_request_datagrams cx) (poll_requests Z now cx)
      else first_ready (poll_requests Z now cx) (poll_request_datagrams cx))"

definition finish_requests :: "waker \<Rightarrow> (merged_requests \<times> conn) request_poller" where
  "finish_requests cx =
     first_ready (poll_request_datagrams cx)
       (\<lambda>(m, c). case drop_datagrams (mq_datagrams m) c of
          (ws, c) \<Rightarrow> (Ready None, ws, m\<lparr>mq_datagrams := None\<rparr>, c))"

definition requests_poll_next ::
  "zstd_lib \<Rightarrow> nat \<Rightarrow> waker \<Rightarrow> (merged_requests \<times> conn) request_poller" where
  "requests_poll_next Z now cx = (\<lambda>(m, c).
     let m = m\<lparr>mq_datagrams_first := \<not> mq_datagrams_first m\<rparr> in
     first_ready (request_sources Z now cx (mq_datagrams_first m))
       (\<lambda>(m, c). if mq_requests_done m then finish_requests cx (m, c) else (Pending, [], m, c))
       (m, c))"

subsection \<open>Merged responses\<close>

datatype response_phase = PhaseOpen | PhaseDraining "response_frame option" | PhaseEnded

record merged_responses =
  mr_frames :: "(error + response_frame) gated"
  mr_datagrams :: "nat option"
  mr_headers_read :: bool
  mr_phase :: response_phase
  mr_datagrams_first :: bool

definition merged_responses_boxed ::
  "(error + response_frame) option poll list \<Rightarrow> nat option \<Rightarrow> merged_responses" where
  "merged_responses_boxed frames datagrams =
     \<lparr>mr_frames = gated_new frames, mr_datagrams = datagrams, mr_headers_read = False,
      mr_phase = PhaseOpen, mr_datagrams_first = False\<rparr>"

type_synonym 'st response_poller = "'st \<Rightarrow> (error + response_frame) option poll \<times> waker list \<times> 'st"

definition poll_response_datagrams :: "waker \<Rightarrow> (merged_responses \<times> conn) response_poller" where
  "poll_response_datagrams cx = (\<lambda>(m, c).
     if \<not> mr_headers_read m then (Pending, [], m, c)
     else
       (case mr_datagrams m of
          None \<Rightarrow> (Pending, [], m, c)
        | Some q \<Rightarrow>
            (case conn_poll_recv cx q c of
               (Ready (Some message), ws, c) \<Rightarrow> (Ready (Some (Inr (Message message))), ws, m, c)
             | (Ready None, ws, c) \<Rightarrow>
                 (case drop_datagrams (mr_datagrams m) c of
                    (ws', c) \<Rightarrow> (Pending, ws @ ws', m\<lparr>mr_datagrams := None\<rparr>, c))
             | (Pending, ws, c) \<Rightarrow> (Pending, ws, m, c))))"

definition poll_frames ::
  "zstd_lib \<Rightarrow> nat \<Rightarrow> waker \<Rightarrow> (merged_responses \<times> conn) response_poller" where
  "poll_frames Z now cx = (\<lambda>(m, c).
     case gated_poll cx (mr_frames m) of
       (polled, g) \<Rightarrow>
         (let m = m\<lparr>mr_frames := g\<rparr> in
          case polled of
            Ready (Some (Inr frame)) \<Rightarrow>
              (case frame of
                 Status _ \<Rightarrow>
                   (case conn_drain Z now c of
                      (ws, c) \<Rightarrow> (Pending, ws, m\<lparr>mr_phase := PhaseDraining (Some frame)\<rparr>, c))
               | Headers _ \<Rightarrow> (Ready (Some (Inr frame)), [], m\<lparr>mr_headers_read := True\<rparr>, c)
               | Message _ \<Rightarrow> (Ready (Some (Inr frame)), [], m, c))
          | Ready None \<Rightarrow>
              (case conn_drain Z now c of
                 (ws, c) \<Rightarrow> (Pending, ws, m\<lparr>mr_phase := PhaseDraining None\<rparr>, c))
          | other \<Rightarrow> (other, [], m, c)))"

definition next_queued :: "merged_responses \<Rightarrow> conn \<Rightarrow> bytes option \<times> waker list \<times> conn" where
  "next_queued m c =
     (if mr_headers_read m
      then (case mr_datagrams m of None \<Rightarrow> (None, [], c) | Some q \<Rightarrow> conn_try_recv q c)
      else (None, [], c))"

text \<open>
  The loop of \<open>poll_next\<close>: the arms of the match that return, and the loop itself, whose second round
  always takes one of them.
\<close>

definition poll_settled :: "waker \<Rightarrow> (merged_responses \<times> conn) response_poller" where
  "poll_settled cx = (\<lambda>(m, c).
     case mr_phase m of
       PhaseDraining terminal \<Rightarrow>
         (case next_queued m c of
            (Some message, ws, c) \<Rightarrow> (Ready (Some (Inr (Message message))), ws, m, c)
          | (None, ws, c) \<Rightarrow>
              (case drop_datagrams (mr_datagrams m) c of
                 (ws', c) \<Rightarrow>
                   (Ready (map_option Inr terminal), ws @ ws',
                    m\<lparr>mr_datagrams := None, mr_phase := PhaseEnded\<rparr>, c)))
     | _ \<Rightarrow> (case gated_poll cx (mr_frames m) of (polled, g) \<Rightarrow> (polled, [], m\<lparr>mr_frames := g\<rparr>, c)))"

definition responses_poll_next ::
  "zstd_lib \<Rightarrow> nat \<Rightarrow> waker \<Rightarrow> (merged_responses \<times> conn) response_poller" where
  "responses_poll_next Z now cx = (\<lambda>(m, c).
     let m = m\<lparr>mr_datagrams_first := \<not> mr_datagrams_first m\<rparr> in
     if mr_phase m \<noteq> PhaseOpen then poll_settled cx (m, c)
     else
       first_ready
         (if mr_datagrams_first m
          then first_ready (poll_response_datagrams cx) (poll_frames Z now cx)
          else first_ready (poll_frames Z now cx) (poll_response_datagrams cx))
         (\<lambda>(m, c). if mr_phase m = PhaseOpen then (Pending, [], m, c) else poll_settled cx (m, c))
         (m, c))"

subsection \<open>Specification\<close>

definition is_terminal :: "(error + response_frame) option \<Rightarrow> bool" where
  "is_terminal x = (case x of Some (Inr (Status _)) \<Rightarrow> True | None \<Rightarrow> True | _ \<Rightarrow> False)"

definition is_headers :: "(error + response_frame) option \<Rightarrow> bool" where
  "is_headers x = (case x of Some (Inr (Headers _)) \<Rightarrow> True | _ \<Rightarrow> False)"

abbreviation dmsg :: "bytes \<Rightarrow> (error + response_frame) option" where
  "dmsg b \<equiv> Some (Inr (Message b))"

abbreviation pending_frames :: "merged_responses \<Rightarrow> (error + response_frame) option list" where
  "pending_frames m \<equiv> yields (ga_polls (mr_frames m))"

text \<open>
  The messages a poll takes from the datagrams: what it returns although the stream did not yield it.
\<close>

definition datagram_part ::
  "merged_responses \<Rightarrow> (error + response_frame) option poll \<Rightarrow> merged_responses \<Rightarrow> bytes list" where
  "datagram_part m p m' =
     (case p of
        Ready (Some (Inr (Message b))) \<Rightarrow>
          if pending_frames m = dmsg b # pending_frames m' then [] else [b]
      | _ \<Rightarrow> [])"

inductive responses_run ::
  "zstd_lib \<Rightarrow> (error + response_frame) option poll list \<Rightarrow> nat option \<Rightarrow>
   (error + response_frame) option list \<Rightarrow> bytes list \<Rightarrow> merged_responses \<Rightarrow> bool"
  for Z :: zstd_lib and frames :: "(error + response_frame) option poll list" and datagrams :: "nat option" where
  boxed: "responses_run Z frames datagrams [] [] (merged_responses_boxed frames datagrams)"
| polled: "responses_run Z frames datagrams out ds m \<Longrightarrow>
    responses_poll_next Z now cx (m, c) = (p, ws, m', c') \<Longrightarrow>
    responses_run Z frames datagrams (out @ yields [p]) (ds @ datagram_part m p m') m'"
| woken: "responses_run Z frames datagrams out ds m \<Longrightarrow>
    responses_run Z frames datagrams out ds (m\<lparr>mr_frames := snd (gate_wake (mr_frames m))\<rparr>)"

text \<open>
  The frames of the stream \<open>fs\<close> and the datagram messages \<open>ds\<close> make up the output: neither is
  reordered, and the part before the HEADERS is the stream's alone.
\<close>

definition merges ::
  "(error + response_frame) option list \<Rightarrow> bytes list \<Rightarrow> (error + response_frame) option list \<Rightarrow> bool" where
  "merges fs ds out \<longleftrightarrow>
     (\<forall>x \<in> set fs. \<not> is_terminal x) \<and> out \<in> shuffles fs (map dmsg ds) \<and>
     takeWhile (\<lambda>x. \<not> is_headers x) out = takeWhile (\<lambda>x. \<not> is_headers x) fs"

definition responses_inv ::
  "(error + response_frame) option list \<Rightarrow> (error + response_frame) option list \<Rightarrow> bytes list \<Rightarrow> merged_responses \<Rightarrow> bool" where
  "responses_inv all out ds m =
     (case mr_phase m of
        PhaseOpen \<Rightarrow> \<exists>fs. all = fs @ pending_frames m \<and> merges fs ds out \<and>
          (mr_headers_read m \<longleftrightarrow> (\<exists>x \<in> set fs. is_headers x))
      | PhaseDraining t \<Rightarrow> \<exists>fs. all = fs @ map_option Inr t # pending_frames m \<and> merges fs ds out \<and>
          is_terminal (map_option Inr t) \<and> (mr_headers_read m \<longleftrightarrow> (\<exists>x \<in> set fs. is_headers x))
      | PhaseEnded \<Rightarrow> \<exists>fs t tail out0. all = fs @ t # tail @ pending_frames m \<and> is_terminal t \<and>
          merges fs ds out0 \<and> out = out0 @ t # tail)"

abbreviation rmsg :: "bytes \<Rightarrow> (error + bytes) option" where
  "rmsg b \<equiv> Some (Inr b)"

abbreviation pending_requests :: "merged_requests \<Rightarrow> (error + bytes) option list" where
  "pending_requests m \<equiv> yields (ga_polls (mq_requests m))"

definition request_datagram_part ::
  "merged_requests \<Rightarrow> (error + bytes) option poll \<Rightarrow> merged_requests \<Rightarrow> bytes list" where
  "request_datagram_part m p m' =
     (case p of
        Ready (Some (Inr b)) \<Rightarrow> if pending_requests m = rmsg b # pending_requests m' then [] else [b]
      | _ \<Rightarrow> [])"

inductive requests_run ::
  "zstd_lib \<Rightarrow> (error + bytes) option poll list \<Rightarrow> nat \<Rightarrow>
   (error + bytes) option list \<Rightarrow> bytes list \<Rightarrow> merged_requests \<Rightarrow> bool"
  for Z :: zstd_lib and requests :: "(error + bytes) option poll list" and q :: nat where
  boxed: "requests_run Z requests q [] [] (merged_requests_boxed requests q message_count_new)"
| polled: "requests_run Z requests q out ds m \<Longrightarrow>
    requests_poll_next Z now cx (m, c) = (p, ws, m', c') \<Longrightarrow>
    requests_run Z requests q (out @ yields [p]) (ds @ request_datagram_part m p m') m'"
| woken: "requests_run Z requests q out ds m \<Longrightarrow>
    requests_run Z requests q out ds (m\<lparr>mq_requests := snd (gate_wake (mq_requests m))\<rparr>)"

text \<open>How a merged request stream ends: with the stream's error, or once the stream and the queue have.\<close>

definition request_end :: "(error + bytes) option list \<Rightarrow> (error + bytes) option list \<Rightarrow> bool" where
  "request_end rest tail \<longleftrightarrow>
     (\<exists>e more n. rest = Some (Inl e) # more \<and> tail = Some (Inl e) # replicate n None) \<or>
     (\<exists>more n. rest = None # more \<and> tail = replicate n None)"

definition requests_inv ::
  "(error + bytes) option list \<Rightarrow> nat \<Rightarrow> (error + bytes) option list \<Rightarrow> bytes list \<Rightarrow> merged_requests \<Rightarrow> bool" where
  "requests_inv all q out ds m \<longleftrightarrow>
     mq_count m = Some (of_nat (length ds)) \<and> (mq_datagrams m = Some q \<or> mq_datagrams m = None) \<and>
     (\<exists>fs body tail rest. all = map rmsg fs @ rest \<and> out = body @ tail \<and> body \<in> shuffles (map rmsg fs) (map rmsg ds) \<and>
        (if mq_requests_done m
         then request_end rest tail \<and> pending_requests m = tl rest \<and> (tail \<noteq> [] \<longrightarrow> mq_datagrams m = None)
         else tail = [] \<and> rest = pending_requests m \<and> mq_datagrams m = Some q))"

definition example_requests :: "(error + bytes) option poll list" where
  "example_requests = [Ready (Some (Inr [1])), Ready None]"

definition example_queue :: "bytes queue_state" where
  "example_queue = channel\<lparr>q_queue := [([7, 8], 2)], q_queued_bytes := 2\<rparr>"

definition example_conn :: conn where
  "example_conn = \<lparr>cn_demux = example_demux\<lparr>dm_queues := [example_queue]\<rparr>, cn_received = []\<rparr>"

definition example_frames :: "(error + response_frame) option poll list" where
  "example_frames = [Ready (Some (Inr (Headers []))), Pending, Ready (Some (Inr (Message [1]))), Ready None]"

subsection \<open>Properties\<close>

lemma gated_poll_cases:
  assumes "gated_poll cx g = (polled, g')"
  obtains (pending) "polled = Pending" "yields (ga_polls g') = yields (ga_polls g)"
  | (ready) x where "polled = Ready x" "yields (ga_polls g) = x # yields (ga_polls g')"
  using assms by (cases "ga_polls g"; cases polled) (auto simp: gated_poll_def Let_def split: if_split_asm)

lemma deliver_grows: "\<exists>zs. queued (snd (deliver ms q)) = queued q @ zs"
proof (induction ms arbitrary: q)
  case (Cons m ms)
  obtain r ws q1 where s: "try_send QUEUE m (length m) q = (r, ws, q1)" by (rule prod_cases3)
  then have "queued q1 = queued q \<or> queued q1 = queued q @ [m]"
    by (auto simp: try_send_def queue_push_def queued_def split: if_split_asm)
  with Cons [of q1] show ?case by (auto simp: s split: prod.splits)
qed simp

lemma dispatch_grows:
  assumes "dispatch Z now datagram s = (ws, s')"
  shows "\<exists>zs. queued (dm_queues s' ! q) = queued (dm_queues s ! q) @ zs"
proof (cases rule: dispatch_cases [OF assms, case_names ignored live held])
  case (live flow ms slot inflated accept p queue)
  have "\<exists>zs. queued queue = queued (dm_queues s ! p) @ zs" using deliver_grows [of _ "dm_queues s ! p"] live(6) by (metis snd_conv)
  then show ?thesis using live(7) by (cases "p < length (dm_queues s)") (auto simp: nth_list_update list_update_beyond)
qed auto

lemma dispatch_all_grows:
  "dispatch_all Z now ds s = (ws, s') \<Longrightarrow> \<exists>zs. queued (dm_queues s' ! q) = queued (dm_queues s ! q) @ zs"
proof (induction ds arbitrary: s ws)
  case (Cons d ds)
  obtain ws1 s1 where d: "dispatch Z now d s = (ws1, s1)" by (rule prod.exhaust)
  obtain ws2 where "dispatch_all Z now ds s1 = (ws2, s')" using Cons.prems d by (auto split: prod.splits)
  from Cons.IH [OF this] dispatch_grows [OF d, of q] show ?case by auto
qed simp

lemma conn_drain_grows:
  assumes "conn_drain Z now c = (ws, c')"
  shows "\<exists>zs. queued (queue_at c' q) = queued (queue_at c q) @ zs"
  using assms dispatch_all_grows by (auto simp: conn_drain_def drain_def queue_at_def split: prod.splits)

lemma recv_empty:
  "conn_poll_recv cx q c = (polled, ws, c') \<Longrightarrow> polled = Pending \<or> polled = Ready None \<Longrightarrow> queued (queue_at c q) = []"
  "conn_try_recv q c = (None, ws, c') \<Longrightarrow> queued (queue_at c q) = []"
  by (auto simp: conn_poll_recv_def conn_try_recv_def poll_recv_def try_recv_def poll_pop_def queued_def Let_def
      split: prod.splits list.splits if_split_asm poll.splits)

lemma poll_frames_cases:
  assumes "poll_frames Z now cx (m, c) = (p, ws, m', c')"
  obtains (pending) "p = Pending" "pending_frames m' = pending_frames m" "mr_phase m' = mr_phase m"
      "mr_headers_read m' = mr_headers_read m" "mr_datagrams m' = mr_datagrams m" "c' = c"
  | (item) x where "p = Ready x" "pending_frames m = x # pending_frames m'" "\<not> is_terminal x"
      "mr_phase m' = mr_phase m" "mr_headers_read m' \<longleftrightarrow> mr_headers_read m \<or> is_headers x"
  | (terminal) t where "p = Pending" "pending_frames m = map_option Inr t # pending_frames m'"
      "is_terminal (map_option Inr t)" "mr_phase m' = PhaseDraining t" "mr_headers_read m' = mr_headers_read m"
      "mr_datagrams m' = mr_datagrams m" "conn_drain Z now c = (ws, c')"
proof -
  obtain polled g where g: "gated_poll cx (mr_frames m) = (polled, g)" by (rule prod.exhaust)
  from g show thesis
  proof (cases rule: gated_poll_cases)
    case pending
    then show thesis using assms g by (intro that(1)) (auto simp: poll_frames_def Let_def)
  next
    case (ready x)
    consider (err) e where "x = Some (Inl e)" | (fr) f where "x = Some (Inr f)" | (none) "x = None"
      by (metis option.exhaust sum.exhaust)
    then show thesis
    proof cases
      case err
      then show thesis using assms g ready by (intro that(2) [of x]) (auto simp: poll_frames_def Let_def is_terminal_def is_headers_def)
    next
      case none
      then show thesis using assms g ready
        by (intro that(3) [of None]) (auto simp: poll_frames_def Let_def is_terminal_def split: prod.splits)
    next
      case fr
      show thesis
      proof (cases f)
        case (Status st)
        then show thesis using assms g ready fr
          by (intro that(3) [of "Some f"]) (auto simp: poll_frames_def Let_def is_terminal_def split: prod.splits)
      qed (use assms g ready fr in \<open>intro that(2) [of x]; auto simp: poll_frames_def Let_def is_terminal_def is_headers_def\<close>)+
    qed
  qed
qed

lemma poll_response_datagrams_cases:
  assumes "poll_response_datagrams cx (m, c) = (p, ws, m', c')"
  obtains (pending) "p = Pending" "mr_frames m' = mr_frames m" "mr_phase m' = mr_phase m"
      "mr_headers_read m' = mr_headers_read m" "mr_datagrams m' = mr_datagrams m \<or> mr_datagrams m' = None"
      "\<And>q. mr_headers_read m \<Longrightarrow> mr_datagrams m = Some q \<Longrightarrow> queued (queue_at c q) = []"
  | (message) b where "p = Ready (dmsg b)" "m' = m" "mr_headers_read m"
  using assms
  by (auto simp: poll_response_datagrams_def split: if_split_asm option.splits prod.splits poll.splits dest: recv_empty(1))

lemma poll_settled_cases:
  assumes "poll_settled cx (m, c) = (p, ws, m', c')" and "mr_phase m = PhaseDraining t"
  obtains (message) b where "p = Ready (dmsg b)" "m' = m" "mr_headers_read m"
  | (ended) "p = Ready (map_option Inr t)" "mr_phase m' = PhaseEnded" "mr_frames m' = mr_frames m" "mr_datagrams m' = None"
      "\<And>q. mr_headers_read m \<Longrightarrow> mr_datagrams m = Some q \<Longrightarrow> queued (queue_at c q) = []"
  using assms
  by (auto simp: poll_settled_def next_queued_def split: if_split_asm option.splits prod.splits dest: recv_empty(2))

lemma first_ready_eq:
  "f st = (Ready r, ws, st') \<Longrightarrow> first_ready f g st = (Ready r, ws, st')"
  "f st = (Pending, ws, st') \<Longrightarrow> first_ready f g st = (case g st' of (polled, ws', st) \<Rightarrow> (polled, ws @ ws', st))"
  by (simp_all add: first_ready_def)

text \<open>What polling both sources does, in either order.\<close>

lemma datagrams_then_frames:
  assumes "first_ready (poll_response_datagrams cx) (poll_frames Z now cx) (m, c) = (p, ws, m', c')"
  obtains (pending) "p = Pending" "pending_frames m' = pending_frames m" "mr_phase m' = mr_phase m"
      "mr_headers_read m' = mr_headers_read m"
  | (datagram) b where "p = Ready (dmsg b)" "m' = m" "mr_headers_read m"
  | (item) x where "p = Ready x" "pending_frames m = x # pending_frames m'" "\<not> is_terminal x"
      "mr_phase m' = mr_phase m" "mr_headers_read m' \<longleftrightarrow> mr_headers_read m \<or> is_headers x"
  | (terminal) t where "p = Pending" "pending_frames m = map_option Inr t # pending_frames m'"
      "is_terminal (map_option Inr t)" "mr_phase m' = PhaseDraining t" "mr_headers_read m' = mr_headers_read m"
      "\<And>q. mr_headers_read m \<Longrightarrow> mr_datagrams m = Some q \<Longrightarrow> queued (queue_at c q) = []"
proof -
  obtain p1 ws1 m1 c1 where d: "poll_response_datagrams cx (m, c) = (p1, ws1, m1, c1)" by (rule prod_cases4)
  from d show thesis
  proof (cases rule: poll_response_datagrams_cases)
    case (message b)
    then show thesis using assms d that(2) by (auto simp: first_ready_eq)
  next
    case idle: pending
    then obtain ws2 where f: "poll_frames Z now cx (m1, c1) = (p, ws2, m', c')"
      using assms d by (auto simp: first_ready_eq split: prod.splits)
    have same: "pending_frames m1 = pending_frames m" using idle by simp
    from f show thesis
      by (cases rule: poll_frames_cases) (use idle same that(1,3,4) in auto)
  qed
qed

lemma frames_then_datagrams:
  assumes "first_ready (poll_frames Z now cx) (poll_response_datagrams cx) (m, c) = (p, ws, m', c')"
  obtains (pending) "p = Pending" "pending_frames m' = pending_frames m" "mr_phase m' = mr_phase m"
      "mr_headers_read m' = mr_headers_read m"
  | (datagram) b where "p = Ready (dmsg b)" "pending_frames m' = pending_frames m" "mr_phase m' = mr_phase m"
      "mr_headers_read m" "mr_headers_read m' = mr_headers_read m"
  | (item) x where "p = Ready x" "pending_frames m = x # pending_frames m'" "\<not> is_terminal x"
      "mr_phase m' = mr_phase m" "mr_headers_read m' \<longleftrightarrow> mr_headers_read m \<or> is_headers x"
  | (terminal) t where "p = Pending" "pending_frames m = map_option Inr t # pending_frames m'"
      "is_terminal (map_option Inr t)" "mr_phase m' = PhaseDraining t" "mr_headers_read m' = mr_headers_read m"
      "\<And>q. mr_headers_read m \<Longrightarrow> mr_datagrams m = Some q \<Longrightarrow> queued (queue_at c q) = []"
  | (draining) t b where "p = Ready (dmsg b)" "pending_frames m = map_option Inr t # pending_frames m'"
      "is_terminal (map_option Inr t)" "mr_phase m' = PhaseDraining t" "mr_headers_read m"
      "mr_headers_read m' = mr_headers_read m"
proof -
  obtain p1 ws1 m1 c1 where f: "poll_frames Z now cx (m, c) = (p1, ws1, m1, c1)" by (rule prod_cases4)
  from f show thesis
  proof (cases rule: poll_frames_cases)
    case (item x)
    then show thesis using assms f that(3) by (auto simp: first_ready_eq)
  next
    case idle: pending
    then obtain ws2 where d: "poll_response_datagrams cx (m1, c1) = (p, ws2, m', c')"
      using assms f by (auto simp: first_ready_eq split: prod.splits)
    from d show thesis
      by (cases rule: poll_response_datagrams_cases) (use idle that(1,2) in auto)
  next
    case (terminal t)
    then obtain ws2 where d: "poll_response_datagrams cx (m1, c1) = (p, ws2, m', c')"
      using assms f by (auto simp: first_ready_eq split: prod.splits)
    have empty: "queued (queue_at c q) = []" if "queued (queue_at c1 q) = []" for q
      using conn_drain_grows [OF terminal(7), of q] that by auto
    from d show thesis
    proof (cases rule: poll_response_datagrams_cases)
      case pending
      show thesis by (rule that(4) [of t]) (use pending terminal empty in auto)
    next
      case (message b)
      show thesis by (rule that(5) [of b t]) (use message terminal in auto)
    qed
  qed
qed

text \<open>What one poll does in each phase.\<close>

lemma responses_poll_open:
  assumes poll: "responses_poll_next Z now cx (m, c) = (p, ws, m', c')" and open_phase: "mr_phase m = PhaseOpen"
  obtains (pending) "p = Pending" "pending_frames m' = pending_frames m" "mr_phase m' = PhaseOpen"
      "mr_headers_read m' = mr_headers_read m"
  | (datagram) b where "p = Ready (dmsg b)" "pending_frames m' = pending_frames m" "mr_phase m' = PhaseOpen"
      "mr_headers_read m" "mr_headers_read m' = mr_headers_read m"
  | (item) x where "p = Ready x" "pending_frames m = x # pending_frames m'" "\<not> is_terminal x"
      "mr_phase m' = PhaseOpen" "mr_headers_read m' \<longleftrightarrow> mr_headers_read m \<or> is_headers x"
  | (draining) t b where "p = Ready (dmsg b)" "pending_frames m = map_option Inr t # pending_frames m'"
      "is_terminal (map_option Inr t)" "mr_phase m' = PhaseDraining t" "mr_headers_read m"
      "mr_headers_read m' = mr_headers_read m"
  | (ended) t where "p = Ready (map_option Inr t)" "pending_frames m = map_option Inr t # pending_frames m'"
      "is_terminal (map_option Inr t)" "mr_phase m' = PhaseEnded" "mr_datagrams m' = None"
      "\<And>q. mr_headers_read m \<Longrightarrow> mr_datagrams m = Some q \<Longrightarrow> queued (queue_at c q) = []"
proof -
  define n where "n = m\<lparr>mr_datagrams_first := \<not> mr_datagrams_first m\<rparr>"
  have n [simp]: "mr_frames n = mr_frames m" "mr_phase n = PhaseOpen" "mr_headers_read n = mr_headers_read m"
    "mr_datagrams n = mr_datagrams m" by (simp_all add: n_def open_phase)
  define sources where "sources = (if mr_datagrams_first n
    then first_ready (poll_response_datagrams cx) (poll_frames Z now cx)
    else first_ready (poll_frames Z now cx) (poll_response_datagrams cx))"
  obtain p1 ws1 m1 c1 where s: "sources (n, c) = (p1, ws1, m1, c1)" by (rule prod_cases4)
  have poll: "first_ready sources (\<lambda>(m, c). if mr_phase m = PhaseOpen then (Pending, [], m, c) else poll_settled cx (m, c)) (n, c)
      = (p, ws, m', c')"
    using poll unfolding responses_poll_next_def prod.case Let_def n_def [symmetric] n sources_def by simp
  have settle: thesis if t: "p1 = Pending" "pending_frames m = map_option Inr t # pending_frames m1"
      "is_terminal (map_option Inr t)" "mr_phase m1 = PhaseDraining t" "mr_headers_read m1 = mr_headers_read m"
      and empty: "\<And>q. mr_headers_read m \<Longrightarrow> mr_datagrams m = Some q \<Longrightarrow> queued (queue_at c q) = []" for t
  proof -
    obtain ws2 where "poll_settled cx (m1, c1) = (p, ws2, m', c')"
      using poll s t by (auto simp: first_ready_eq split: prod.splits)
    from this t(4) show thesis
      by (cases rule: poll_settled_cases) (use t empty draining ended in auto)
  qed
  have ready: "p = Ready x" "m' = m1" if "p1 = Ready x" for x
    using poll s that by (auto simp: first_ready_eq)
  have idle: "p = Pending" "m' = m1" if "p1 = Pending" "mr_phase m1 = PhaseOpen"
    using poll s that by (auto simp: first_ready_eq)
  show thesis
  proof (cases "mr_datagrams_first n")
    case True
    with s have "first_ready (poll_response_datagrams cx) (poll_frames Z now cx) (n, c) = (p1, ws1, m1, c1)"
      by (simp add: sources_def)
    then show thesis
      by (cases rule: datagrams_then_frames) (use ready idle settle that(1-3) in auto)
  next
    case False
    with s have "first_ready (poll_frames Z now cx) (poll_response_datagrams cx) (n, c) = (p1, ws1, m1, c1)"
      by (simp add: sources_def)
    then show thesis
      by (cases rule: frames_then_datagrams) (use ready idle settle that(1-4) in auto)
  qed
qed

lemma shuffles_snoc_left: "zs \<in> shuffles xs ys \<Longrightarrow> zs @ [a] \<in> shuffles (xs @ [a]) ys"
proof (induction xs ys arbitrary: zs rule: shuffles.induct)
  case (1 ys)
  then show ?case by (induction ys arbitrary: zs) auto
qed auto

lemma shuffles_snoc_right: "zs \<in> shuffles xs ys \<Longrightarrow> zs @ [a] \<in> shuffles xs (ys @ [a])"
  using shuffles_snoc_left [of zs ys xs a] by (simp add: shuffles_commutes)

lemma merges_item: "merges fs ds out \<Longrightarrow> \<not> is_terminal x \<Longrightarrow> merges (fs @ [x]) ds (out @ [x])"
proof -
  assume m: "merges fs ds out" and x: "\<not> is_terminal x"
  have "set out = set fs \<union> set (map dmsg ds)" using m by (auto simp: merges_def dest: set_shuffles)
  then have "(\<exists>y \<in> set out. is_headers y) \<longleftrightarrow> (\<exists>y \<in> set fs. is_headers y)"
    by (auto simp: is_headers_def)
  moreover have "out = fs" if "\<forall>y \<in> set out. \<not> is_headers y" "\<forall>y \<in> set fs. \<not> is_headers y"
    using m that by (metis merges_def takeWhile_eq_all_conv)
  ultimately show ?thesis using m x by (auto simp: merges_def shuffles_snoc_left takeWhile_append)
qed

lemma merges_datagram:
  assumes m: "merges fs ds out" and h: "\<exists>x \<in> set fs. is_headers x"
  shows "merges fs (ds @ [b]) (out @ [dmsg b])"
proof -
  have "set out = set fs \<union> set (map dmsg ds)" using m by (auto simp: merges_def dest: set_shuffles)
  with h have "\<exists>x \<in> set out. is_headers x" by auto
  with m show ?thesis by (auto simp: merges_def shuffles_snoc_right takeWhile_append)
qed

lemma responses_poll_inv:
  assumes inv: "responses_inv all out ds m" and poll: "responses_poll_next Z now cx (m, c) = (p, ws, m', c')"
  shows "responses_inv all (out @ yields [p]) (ds @ datagram_part m p m') m'"
proof (cases "mr_phase m")
  case PhaseOpen
  then obtain fs where fs: "all = fs @ pending_frames m" "merges fs ds out"
    "mr_headers_read m \<longleftrightarrow> (\<exists>x \<in> set fs. is_headers x)" using inv by (auto simp: responses_inv_def)
  from poll PhaseOpen show ?thesis
  proof (cases rule: responses_poll_open)
    case pending
    then show ?thesis using fs by (auto simp: responses_inv_def datagram_part_def)
  next
    case (datagram b)
    then have "datagram_part m p m' = [b]" by (simp add: datagram_part_def)
    with datagram fs merges_datagram [OF fs(2), of b] show ?thesis by (auto simp: responses_inv_def)
  next
    case (item x)
    then have "datagram_part m p m' = []" by (auto simp: datagram_part_def split: option.splits sum.splits response_frame.splits)
    moreover have "all = (fs @ [x]) @ pending_frames m'" using item fs by simp
    ultimately show ?thesis
      using item fs merges_item [OF fs(2) item(3)]
      by (auto simp: responses_inv_def intro!: exI [of _ "fs @ [x]"])
  next
    case (draining t b)
    then have "datagram_part m p m' = [b]" by (auto simp: datagram_part_def is_terminal_def)
    with draining fs merges_datagram [OF fs(2), of b] show ?thesis by (auto simp: responses_inv_def)
  next
    case (ended t)
    then have "datagram_part m p m' = []"
      by (auto simp: datagram_part_def is_terminal_def split: option.splits sum.splits response_frame.splits)
    with ended fs show ?thesis by (auto simp: responses_inv_def intro!: exI [of _ fs])
  qed
next
  case (PhaseDraining t)
  then obtain fs where fs: "all = fs @ map_option Inr t # pending_frames m" "merges fs ds out"
    "is_terminal (map_option Inr t)"
    "mr_headers_read m \<longleftrightarrow> (\<exists>x \<in> set fs. is_headers x)" using inv by (auto simp: responses_inv_def)
  define n where "n = m\<lparr>mr_datagrams_first := \<not> mr_datagrams_first m\<rparr>"
  have s: "poll_settled cx (n, c) = (p, ws, m', c')" and ph: "mr_phase n = PhaseDraining t"
    using poll PhaseDraining by (simp_all add: responses_poll_next_def n_def Let_def)
  from s ph show ?thesis
  proof (cases rule: poll_settled_cases)
    case (message b)
    then have "datagram_part m p m' = [b]" by (simp add: datagram_part_def n_def)
    with message fs ph merges_datagram [OF fs(2), of b] show ?thesis by (auto simp: responses_inv_def n_def)
  next
    case ended
    then have "datagram_part m p m' = []" using fs(3)
      by (auto simp: datagram_part_def is_terminal_def split: option.splits sum.splits response_frame.splits)
    with ended fs show ?thesis by (auto simp: responses_inv_def n_def intro!: exI [of _ fs])
  qed
next
  case PhaseEnded
  then obtain fs t tail out0 where fs: "all = fs @ t # tail @ pending_frames m" "is_terminal t"
    "merges fs ds out0" "out = out0 @ t # tail" using inv by (auto simp: responses_inv_def)
  obtain polled g where g: "gated_poll cx (mr_frames m) = (polled, g)" by (rule prod.exhaust)
  have r: "p = polled" "mr_frames m' = g" "mr_phase m' = PhaseEnded"
    using poll PhaseEnded g by (auto simp: responses_poll_next_def poll_settled_def Let_def)
  from g show ?thesis
  proof (cases rule: gated_poll_cases)
    case pending
    then show ?thesis using fs r by (auto simp: responses_inv_def datagram_part_def)
  next
    case (ready x)
    then have "datagram_part m p m' = []"
      using r by (auto simp: datagram_part_def split: option.splits sum.splits response_frame.splits)
    moreover have "responses_inv all (out @ [x]) ds m'"
      unfolding responses_inv_def r(3) response_phase.case
      by (intro exI [of _ fs] exI [of _ t] exI [of _ "tail @ [x]"] exI [of _ out0]) (use fs r ready in simp)
    ultimately show ?thesis using r ready by simp
  qed
qed

lemma responses_run_inv: "responses_run Z frames datagrams out ds m \<Longrightarrow> responses_inv (yields frames) out ds m"
proof (induction rule: responses_run.induct)
  case boxed
  show ?case by (simp add: responses_inv_def merged_responses_boxed_def gated_new_def merges_def)
next
  case (polled out ds m now cx c p ws m' c')
  then show ?case using responses_poll_inv by blast
next
  case (woken out ds m)
  then show ?case by (simp add: responses_inv_def gate_wake_def split: response_phase.splits)
qed

lemma responses_terminal_empty:
  assumes "responses_poll_next Z now cx (m, c) = (Ready x, ws, m', c')" and "is_terminal x"
    and "mr_phase m \<noteq> PhaseEnded" and "mr_headers_read m" and "mr_datagrams m = Some q"
  shows "queued (queue_at c q) = []"
proof (cases "mr_phase m")
  case PhaseOpen
  from assms(1) this show ?thesis
    by (cases rule: responses_poll_open) (use assms(2-5) in \<open>auto simp: is_terminal_def\<close>)
next
  case (PhaseDraining t)
  then have "poll_settled cx (m\<lparr>mr_datagrams_first := \<not> mr_datagrams_first m\<rparr>, c) = (Ready x, ws, m', c')"
    using assms(1) by (simp add: responses_poll_next_def Let_def)
  then show ?thesis
    by (cases rule: poll_settled_cases [of _ _ _ _ _ _ _ t]) (use PhaseDraining assms(2-5) in \<open>auto simp: is_terminal_def\<close>)
qed (use assms in simp)


lemma poll_requests_cases:
  assumes "poll_requests Z now cx (m, c) = (p, ws, m', c')" and "\<not> mq_requests_done m"
  obtains (pending) "p = Pending" "pending_requests m' = pending_requests m" "\<not> mq_requests_done m'"
      "mq_datagrams m' = mq_datagrams m" "mq_count m' = mq_count m" "c' = c"
  | (message) b where "p = Ready (rmsg b)" "pending_requests m = rmsg b # pending_requests m'"
      "\<not> mq_requests_done m'" "mq_datagrams m' = mq_datagrams m" "mq_count m' = mq_count m"
  | (failed) e where "p = Ready (Some (Inl e))" "pending_requests m = Some (Inl e) # pending_requests m'"
      "mq_requests_done m'" "mq_datagrams m' = None" "mq_count m' = mq_count m"
  | (finished) "p = Pending" "pending_requests m = None # pending_requests m'" "mq_requests_done m'"
      "mq_datagrams m' = mq_datagrams m" "mq_count m' = mq_count m" "conn_drain Z now c = (ws, c')"
proof -
  obtain polled g where g: "gated_poll cx (mq_requests m) = (polled, g)" by (rule prod.exhaust)
  from g show thesis
  proof (cases rule: gated_poll_cases)
    case p: pending
    show thesis by (rule pending) (use assms g p in \<open>auto simp: poll_requests_def Let_def\<close>)
  next
    case (ready x)
    consider (err) e where "x = Some (Inl e)" | (msg) b where "x = Some (Inr b)" | (none) "x = None"
      by (metis option.exhaust sum.exhaust)
    then show thesis
    proof cases
      case err
      show thesis by (rule failed [of e]) (use assms g ready err in \<open>auto simp: poll_requests_def Let_def split: prod.splits\<close>)
    next
      case none
      show thesis by (rule finished) (use assms g ready none in \<open>auto simp: poll_requests_def Let_def split: prod.splits\<close>)
    next
      case msg
      show thesis by (rule message [of b]) (use assms g ready msg in \<open>auto simp: poll_requests_def Let_def split: prod.splits\<close>)
    qed
  qed
qed

lemma poll_request_datagrams_cases:
  assumes "poll_request_datagrams cx (m, c) = (p, ws, m', c')"
  obtains (pending) "p = Pending" "mq_requests m' = mq_requests m" "mq_requests_done m' = mq_requests_done m"
      "mq_datagrams m' = (if mq_requests_done m then None else mq_datagrams m)" "mq_count m' = mq_count m"
      "\<And>q. mq_datagrams m = Some q \<Longrightarrow> queued (queue_at c q) = []"
  | (message) b where "p = Ready (rmsg b)" "mq_requests m' = mq_requests m" "mq_requests_done m' = mq_requests_done m"
      "mq_datagrams m' = mq_datagrams m" "mq_datagrams m \<noteq> None" "mq_count m' = message_count_add (mq_count m)"
proof (cases "mq_datagrams m")
  case None
  then show thesis by (intro pending) (use assms in \<open>auto simp: poll_request_datagrams_def\<close>)
next
  case (Some q)
  show thesis
  proof (cases "mq_requests_done m")
    case True
    obtain v ws1 c1 where r: "conn_try_recv q c = (v, ws1, c1)" by (rule prod_cases3)
    show thesis
    proof (cases v)
      case None
      then show thesis using recv_empty(2) r
        by (intro pending) (use assms Some True r in \<open>auto simp: poll_request_datagrams_def split: prod.splits\<close>)
    next
      case m: (Some b)
      show thesis by (rule message [of b]) (use assms Some True r m in \<open>auto simp: poll_request_datagrams_def\<close>)
    qed
  next
    case False
    obtain v ws1 c1 where r: "conn_poll_recv cx q c = (v, ws1, c1)" by (rule prod_cases3)
    consider (msg) b where "v = Ready (Some b)" | (no) "v = Pending \<or> v = Ready None"
      by (metis option.exhaust poll.exhaust)
    then show thesis
    proof cases
      case msg
      show thesis by (rule message [of b]) (use assms Some False r msg in \<open>auto simp: poll_request_datagrams_def\<close>)
    next
      case no
      then show thesis using recv_empty(1) [OF r]
        by (intro pending) (use assms Some False r in \<open>auto simp: poll_request_datagrams_def\<close>)
    qed
  qed
qed

lemma poll_requests_done: "mq_requests_done m \<Longrightarrow> poll_requests Z now cx (m, c) = (Pending, [], m, c)"
  by (simp add: poll_requests_def)

lemma finish_requests_cases:
  assumes "finish_requests cx (m, c) = (p, ws, m', c')"
  obtains (message) b where "p = Ready (rmsg b)" "mq_requests m' = mq_requests m" "mq_requests_done m' = mq_requests_done m"
      "mq_datagrams m' = mq_datagrams m" "mq_datagrams m \<noteq> None" "mq_count m' = message_count_add (mq_count m)"
  | (ended) "p = Ready None" "mq_requests m' = mq_requests m" "mq_requests_done m' = mq_requests_done m"
      "mq_datagrams m' = None" "mq_count m' = mq_count m"
      "\<And>q. mq_datagrams m = Some q \<Longrightarrow> queued (queue_at c q) = []"
proof -
  obtain p1 ws1 m1 c1 where d: "poll_request_datagrams cx (m, c) = (p1, ws1, m1, c1)" by (rule prod_cases4)
  from d show thesis
  proof (cases rule: poll_request_datagrams_cases)
    case (message b)
    then show thesis using assms d that(1) by (auto simp: finish_requests_def first_ready_eq)
  next
    case pending
    then show thesis using assms d that(2) by (auto simp: finish_requests_def first_ready_eq split: prod.splits)
  qed
qed

lemma request_sources_cases:
  assumes "request_sources Z now cx first (m, c) = (p, ws, m', c')" and "\<not> mq_requests_done m"
  obtains (pending) "p = Pending" "pending_requests m' = pending_requests m" "\<not> mq_requests_done m'"
      "mq_datagrams m' = mq_datagrams m" "mq_count m' = mq_count m"
  | (datagram) b where "p = Ready (rmsg b)" "pending_requests m' = pending_requests m" "\<not> mq_requests_done m'"
      "mq_datagrams m' = mq_datagrams m" "mq_count m' = message_count_add (mq_count m)"
  | (message) b where "p = Ready (rmsg b)" "pending_requests m = rmsg b # pending_requests m'"
      "\<not> mq_requests_done m'" "mq_datagrams m' = mq_datagrams m" "mq_count m' = mq_count m"
  | (failed) e where "p = Ready (Some (Inl e))" "pending_requests m = Some (Inl e) # pending_requests m'"
      "mq_requests_done m'" "mq_datagrams m' = None" "mq_count m' = mq_count m"
  | (finished) "p = Pending" "pending_requests m = None # pending_requests m'" "mq_requests_done m'"
      "mq_datagrams m' = mq_datagrams m \<or> mq_datagrams m' = None" "mq_count m' = mq_count m"
      "\<And>q. mq_datagrams m = Some q \<Longrightarrow> queued (queue_at c q) = []"
  | (drained) b where "p = Ready (rmsg b)" "pending_requests m = None # pending_requests m'" "mq_requests_done m'"
      "mq_datagrams m' = mq_datagrams m" "mq_count m' = message_count_add (mq_count m)"
proof (cases first)
  case True
  obtain p1 ws1 m1 c1 where d: "poll_request_datagrams cx (m, c) = (p1, ws1, m1, c1)" by (rule prod_cases4)
  from d show thesis
  proof (cases rule: poll_request_datagrams_cases)
    case (message b)
    then show thesis using assms d True datagram by (auto simp: request_sources_def first_ready_eq)
  next
    case idle: pending
    then obtain ws2 where f: "poll_requests Z now cx (m1, c1) = (p, ws2, m', c')"
      using assms d True by (auto simp: request_sources_def first_ready_eq split: prod.splits)
    have "\<not> mq_requests_done m1" using idle assms(2) by simp
    from f this show thesis
      by (cases rule: poll_requests_cases) (use idle assms(2) pending message failed finished in auto)
  qed
next
  case False
  obtain p1 ws1 m1 c1 where f: "poll_requests Z now cx (m, c) = (p1, ws1, m1, c1)" by (rule prod_cases4)
  from f assms(2) show thesis
  proof (cases rule: poll_requests_cases)
    case (message b)
    then show thesis using assms f False that(3) by (auto simp: request_sources_def first_ready_eq)
  next
    case (failed e)
    then show thesis using assms f False that(4) by (auto simp: request_sources_def first_ready_eq)
  next
    case idle: pending
    then obtain ws2 where d: "poll_request_datagrams cx (m1, c1) = (p, ws2, m', c')"
      using assms f False by (auto simp: request_sources_def first_ready_eq split: prod.splits)
    from d show thesis
      by (cases rule: poll_request_datagrams_cases) (use idle that(1,2) in auto)
  next
    case fin: finished
    then obtain ws2 where d: "poll_request_datagrams cx (m1, c1) = (p, ws2, m', c')"
      using assms f False by (auto simp: request_sources_def first_ready_eq split: prod.splits)
    have empty: "queued (queue_at c q) = []" if "queued (queue_at c1 q) = []" for q
      using conn_drain_grows [OF fin(6), of q] that by auto
    from d show thesis
    proof (cases rule: poll_request_datagrams_cases)
      case pending
      show thesis by (rule finished) (use pending fin empty in auto)
    next
      case (message b)
      show thesis by (rule drained [of b]) (use message fin in auto)
    qed
  qed
qed

lemma requests_poll_next_cases:
  assumes poll: "requests_poll_next Z now cx (m, c) = (p, ws, m', c')" and live: "\<not> mq_requests_done m"
  obtains (pending) "p = Pending" "pending_requests m' = pending_requests m" "\<not> mq_requests_done m'"
      "mq_datagrams m' = mq_datagrams m" "mq_count m' = mq_count m"
  | (datagram) b where "p = Ready (rmsg b)" "pending_requests m' = pending_requests m" "\<not> mq_requests_done m'"
      "mq_datagrams m' = mq_datagrams m" "mq_count m' = message_count_add (mq_count m)"
  | (message) b where "p = Ready (rmsg b)" "pending_requests m = rmsg b # pending_requests m'"
      "\<not> mq_requests_done m'" "mq_datagrams m' = mq_datagrams m" "mq_count m' = mq_count m"
  | (failed) e where "p = Ready (Some (Inl e))" "pending_requests m = Some (Inl e) # pending_requests m'"
      "mq_requests_done m'" "mq_datagrams m' = None" "mq_count m' = mq_count m"
  | (drained) b where "p = Ready (rmsg b)" "pending_requests m = None # pending_requests m'" "mq_requests_done m'"
      "mq_datagrams m' = mq_datagrams m \<or> mq_datagrams m' = None" "mq_count m' = message_count_add (mq_count m)"
  | (ended) "p = Ready None" "pending_requests m = None # pending_requests m'" "mq_requests_done m'"
      "mq_datagrams m' = None" "mq_count m' = mq_count m"
      "\<And>q. mq_datagrams m = Some q \<Longrightarrow> queued (queue_at c q) = []"
proof -
  define n where "n = m\<lparr>mq_datagrams_first := \<not> mq_datagrams_first m\<rparr>"
  have n [simp]: "mq_requests n = mq_requests m" "mq_requests_done n = mq_requests_done m"
    "mq_datagrams n = mq_datagrams m" "mq_count n = mq_count m" by (simp_all add: n_def)
  obtain p1 ws1 m1 c1 where s: "request_sources Z now cx (mq_datagrams_first n) (n, c) = (p1, ws1, m1, c1)"
    by (rule prod_cases4)
  have poll: "first_ready (request_sources Z now cx (mq_datagrams_first n))
      (\<lambda>(m, c). if mq_requests_done m then finish_requests cx (m, c) else (Pending, [], m, c)) (n, c) = (p, ws, m', c')"
    using poll by (simp add: requests_poll_next_def Let_def n_def)
  have ready: "p = Ready x" "m' = m1" if "p1 = Ready x" for x using poll s that by (auto simp: first_ready_eq)
  have idle: "p = Pending" "m' = m1" if "p1 = Pending" "\<not> mq_requests_done m1" using poll s that by (auto simp: first_ready_eq)
  have live: "\<not> mq_requests_done n" using live by simp
  from s this show thesis
  proof (cases rule: request_sources_cases)
    case finished
    then obtain ws2 where "finish_requests cx (m1, c1) = (p, ws2, m', c')"
      using poll s by (auto simp: first_ready_eq split: prod.splits)
    then show thesis
      by (cases rule: finish_requests_cases) (use finished drained ended in auto)
  qed (use ready idle that in auto)
qed

lemma requests_poll_done:
  assumes poll: "requests_poll_next Z now cx (m, c) = (p, ws, m', c')" and over: "mq_requests_done m"
  obtains (message) b where "p = Ready (rmsg b)" "mq_requests m' = mq_requests m" "mq_requests_done m'"
      "mq_datagrams m' = mq_datagrams m \<or> mq_datagrams m' = None" "mq_datagrams m \<noteq> None" "mq_count m' = message_count_add (mq_count m)"
  | (ended) "p = Ready None" "mq_requests m' = mq_requests m" "mq_requests_done m'"
      "mq_datagrams m' = None" "mq_count m' = mq_count m"
      "\<And>q. mq_datagrams m = Some q \<Longrightarrow> queued (queue_at c q) = []"
proof -
  define n where "n = m\<lparr>mq_datagrams_first := \<not> mq_datagrams_first m\<rparr>"
  have n [simp]: "mq_requests n = mq_requests m" "mq_requests_done n"
    "mq_datagrams n = mq_datagrams m" "mq_count n = mq_count m" using over by (simp_all add: n_def)
  obtain p1 ws1 m1 c1 where d: "poll_request_datagrams cx (n, c) = (p1, ws1, m1, c1)" by (rule prod_cases4)
  have "mq_requests_done m1"
    using d by (cases rule: poll_request_datagrams_cases) auto
  then have s: "\<exists>ws2. request_sources Z now cx (mq_datagrams_first n) (n, c) = (p1, ws2, m1, c1)"
    using d by (cases p1) (auto simp: request_sources_def first_ready_eq poll_requests_done split: prod.splits)
  have poll: "first_ready (request_sources Z now cx (mq_datagrams_first n))
      (\<lambda>(m, c). if mq_requests_done m then finish_requests cx (m, c) else (Pending, [], m, c)) (n, c) = (p, ws, m', c')"
    using poll by (simp add: requests_poll_next_def Let_def n_def)
  from d show thesis
  proof (cases rule: poll_request_datagrams_cases)
    case (message b)
    then show thesis using poll s that(1) by (auto simp: first_ready_eq)
  next
    case pending
    then obtain ws2 where "finish_requests cx (m1, c1) = (p, ws2, m', c')"
      using poll s by (auto simp: first_ready_eq split: prod.splits)
    then show thesis
      by (cases rule: finish_requests_cases) (use pending that in auto)
  qed
qed

lemma requests_live_inv:
  assumes inv: "requests_inv all q out ds m" and live: "\<not> mq_requests_done m"
    and poll: "requests_poll_next Z now cx (m, c) = (p, ws, m', c')"
  shows "requests_inv all q (out @ yields [p]) (ds @ request_datagram_part m p m') m'"
proof -
  obtain fs where fs: "all = map rmsg fs @ pending_requests m" "out \<in> shuffles (map rmsg fs) (map rmsg ds)"
    "mq_count m = Some (of_nat (length ds))" "mq_datagrams m = Some q"
    using inv live by (auto simp: requests_inv_def)
  have msg: "out @ [rmsg b] \<in> shuffles (map rmsg fs) (map rmsg (ds @ [b]))" for b
    using shuffles_snoc_right [OF fs(2)] by simp
  from poll live show ?thesis
  proof (cases rule: requests_poll_next_cases)
    case pending
    then show ?thesis using fs by (auto simp: requests_inv_def request_datagram_part_def)
  next
    case (datagram b)
    then have "request_datagram_part m p m' = [b]" by (simp add: request_datagram_part_def)
    then show ?thesis using datagram fs msg [of b]
      by (auto simp: requests_inv_def message_count_add_def intro!: exI [of _ fs])
  next
    case (message b)
    then have "request_datagram_part m p m' = []" by (simp add: request_datagram_part_def)
    moreover have "out @ [rmsg b] \<in> shuffles (map rmsg (fs @ [b])) (map rmsg ds)"
      using shuffles_snoc_left [OF fs(2)] by simp
    ultimately show ?thesis using message fs
      by (auto simp: requests_inv_def intro!: exI [of _ "fs @ [b]"])
  next
    case (failed e)
    then have "request_datagram_part m p m' = []" by (simp add: request_datagram_part_def)
    moreover have "request_end (Some (Inl e) # pending_requests m') [Some (Inl e)]"
      by (auto simp: request_end_def intro!: exI [of _ 0])
    ultimately show ?thesis
      using failed fs unfolding requests_inv_def
      by (intro conjI exI [of _ fs] exI [of _ out] exI [of _ "[Some (Inl e)]"] exI [of _ "Some (Inl e) # pending_requests m'"]) auto
  next
    case (drained b)
    then have "request_datagram_part m p m' = [b]" by (simp add: request_datagram_part_def)
    moreover have "request_end (None # pending_requests m') []"
      by (auto simp: request_end_def intro!: exI [of _ 0])
    ultimately show ?thesis
      using drained fs msg [of b] unfolding requests_inv_def
      by (intro conjI exI [of _ fs] exI [of _ "out @ [rmsg b]"] exI [of _ "[]"] exI [of _ "None # pending_requests m'"])
        (auto simp: message_count_add_def)
  next
    case ended
    then have "request_datagram_part m p m' = []" by (simp add: request_datagram_part_def)
    moreover have "request_end (None # pending_requests m') [None]"
      by (auto simp: request_end_def intro!: exI [of _ 1])
    ultimately show ?thesis
      using ended fs unfolding requests_inv_def
      by (intro conjI exI [of _ fs] exI [of _ out] exI [of _ "[None]"] exI [of _ "None # pending_requests m'"]) auto
  qed
qed

lemma request_end_more: "request_end rest tail \<Longrightarrow> request_end rest (tail @ [None])"
  unfolding request_end_def by (metis append_Cons replicate_Suc replicate_append_same)

lemma requests_done_inv:
  assumes inv: "requests_inv all q out ds m" and over: "mq_requests_done m"
    and poll: "requests_poll_next Z now cx (m, c) = (p, ws, m', c')"
  shows "requests_inv all q (out @ yields [p]) (ds @ request_datagram_part m p m') m'"
proof -
  obtain fs body tail rest where fs: "all = map rmsg fs @ rest" "out = body @ tail"
    "body \<in> shuffles (map rmsg fs) (map rmsg ds)" "request_end rest tail" "pending_requests m = tl rest"
    and open_end: "tail \<noteq> [] \<longrightarrow> mq_datagrams m = None"
    and m: "mq_count m = Some (of_nat (length ds))" "mq_datagrams m = Some q \<or> mq_datagrams m = None"
    using inv over by (auto simp: requests_inv_def)
  from poll over show ?thesis
  proof (cases rule: requests_poll_done)
    case (message b)
    then have "request_datagram_part m p m' = [b]" by (simp add: request_datagram_part_def)
    moreover have "tail = []" using open_end message by auto
    moreover have "body @ [rmsg b] \<in> shuffles (map rmsg fs) (map rmsg (ds @ [b]))"
      using shuffles_snoc_right [OF fs(3)] by simp
    ultimately show ?thesis
      using message fs m unfolding requests_inv_def
      by (intro conjI exI [of _ fs] exI [of _ "body @ [rmsg b]"] exI [of _ "[]"] exI [of _ rest]) (auto simp: message_count_add_def)
  next
    case ended
    then have "request_datagram_part m p m' = []" by (simp add: request_datagram_part_def)
    with ended fs m request_end_more [OF fs(4)] show ?thesis unfolding requests_inv_def
      by (intro conjI exI [of _ fs] exI [of _ body] exI [of _ "tail @ [None]"] exI [of _ rest]) auto
  qed
qed

lemma requests_run_inv: "requests_run Z requests q out ds m \<Longrightarrow> requests_inv (yields requests) q out ds m"
proof (induction rule: requests_run.induct)
  case boxed
  show ?case by (simp add: requests_inv_def merged_requests_boxed_def gated_new_def message_count_new_def)
next
  case (polled out ds m now cx c p ws m' c')
  show ?case
    by (cases "mq_requests_done m")
      (rule requests_done_inv [OF polled.IH _ polled.hyps(2)] requests_live_inv [OF polled.IH _ polled.hyps(2)], assumption)+
next
  case (woken out ds m)
  then show ?case by (cases "mq_requests_done m") (simp_all add: requests_inv_def gate_wake_def)
qed

lemma requests_end_empty:
  assumes "requests_poll_next Z now cx (m, c) = (Ready None, ws, m', c')" and "mq_datagrams m = Some q"
  shows "queued (queue_at c q) = []"
proof (cases "mq_requests_done m")
  case True
  from assms(1) True show ?thesis by (cases rule: requests_poll_done) (use assms(2) in auto)
next
  case False
  from assms(1) False show ?thesis by (cases rule: requests_poll_next_cases) (use assms(2) in auto)
qed


lemma example_pop:
  "\<exists>c. conn_poll_recv cx 0 example_conn = (Ready (Some [7, 8]), [], c)"
  by (simp add: conn_poll_recv_def queue_at_def example_conn_def example_queue_def poll_recv_def poll_pop_def channel_def
      has_room_def QUEUE_def MESSAGES_def MESSAGE_FRAME_BATCH_def USIZE_MAX_def Let_def)



end
