(* ===== verification/Replay.thy ===== *)
theory Replay
  imports Stream_Compression Msg_Queue "HOL-Library.Sublist"
begin

text \<open>
  Optimistic calls, \<open>client/replay.rs\<close>: whether a connection is optimistic, and the requests of an
  optimistic call, which are kept until the server has decided so that a refused call can be
  replayed. The state is behind one lock; the caller's requests are a stream that is not part of the
  component, and the memory budget is passed through.
\<close>

subsection \<open>Optimism\<close>

definition optimism_default :: bool where
  "optimism_default = True"

definition optimism_refused :: "bool \<Rightarrow> bool" where
  "optimism_refused opt = False"

definition optimism_answered :: "bool \<Rightarrow> bool" where
  "optimism_answered opt = True"

subsection \<open>The requests of a call\<close>

definition MAX_KEPT_BYTES :: nat where
  "MAX_KEPT_BYTES = 2 ^ 20"

datatype decision = DecisionPending | Settled | Refused

type_synonym request_stream = "(error + bytes) option poll list"

record replay =
  rp_source :: "request_stream option"
  rp_kept :: "bytes list"
  rp_kept_bytes :: usize
  rp_reservation :: "usize option"
  rp_held :: "bytes option"
  rp_decision :: decision
  rp_waker :: "waker option"

definition replay_new :: "request_stream \<Rightarrow> replay" where
  "replay_new requests =
     \<lparr>rp_source = Some requests, rp_kept = [], rp_kept_bytes = 0, rp_reservation = None,
      rp_held = None, rp_decision = DecisionPending, rp_waker = None\<rparr>"

definition keep :: "bytes \<Rightarrow> usize \<Rightarrow> replay \<Rightarrow> bool \<times> usize \<times> replay" where
  "keep request available s =
     (case option_filter (\<lambda>bytes. bytes \<le> MAX_KEPT_BYTES)
             (checked_add (rp_kept_bytes s) (length request)) of
        None \<Rightarrow> (False, available, s)
      | Some kept_bytes \<Rightarrow>
          (case reserve (length request) available of
             None \<Rightarrow> (False, available, s)
           | Some (reservation, available) \<Rightarrow>
               (True, available,
                s\<lparr>rp_reservation := Some (case rp_reservation s of
                                             Some held \<Rightarrow> absorb held reservation
                                           | None \<Rightarrow> reservation),
                  rp_kept := rp_kept s @ [request], rp_kept_bytes := kept_bytes\<rparr>)))"

definition replay_wake :: "replay \<Rightarrow> waker list \<times> replay" where
  "replay_wake s = (wake (rp_waker s), s\<lparr>rp_waker := None\<rparr>)"

definition release :: "usize option \<Rightarrow> usize \<Rightarrow> usize" where
  "release reservation available =
     (case reservation of None \<Rightarrow> available | Some cost \<Rightarrow> drop_reservation cost available)"

definition poll_source :: "replay \<Rightarrow> (error + bytes) option poll \<times> replay" where
  "poll_source s =
     (case rp_source s of
        None \<Rightarrow> (Ready None, s)
      | Some [] \<Rightarrow> (Pending, s)
      | Some (polled # rest) \<Rightarrow>
          (polled, s\<lparr>rp_source := (if polled = Ready None then None else Some rest)\<rparr>))"

definition poll_upload ::
  "waker \<Rightarrow> usize \<Rightarrow> replay \<Rightarrow> (error + bytes) option poll \<times> usize \<times> replay" where
  "poll_upload cx available s =
     (case rp_decision s of
        Refused \<Rightarrow> (Pending, available, s\<lparr>rp_waker := Some cx\<rparr>)
      | Settled \<Rightarrow>
          (case rp_held s of
             Some request \<Rightarrow> (Ready (Some (Inr request)), available, s\<lparr>rp_held := None\<rparr>)
           | None \<Rightarrow> (case poll_source s of (polled, s) \<Rightarrow> (polled, available, s)))
      | DecisionPending \<Rightarrow>
          if rp_held s \<noteq> None then (Pending, available, s\<lparr>rp_waker := Some cx\<rparr>)
          else
            (case poll_source s of
               (Ready (Some (Inr request)), s) \<Rightarrow>
                 (case keep request available s of
                    (True, available, s) \<Rightarrow> (Ready (Some (Inr request)), available, s)
                  | (False, available, s) \<Rightarrow>
                      (Pending, available, s\<lparr>rp_held := Some request, rp_waker := Some cx\<rparr>))
             | (other, s) \<Rightarrow> (other, available, s)))"

definition settle :: "usize \<Rightarrow> replay \<Rightarrow> waker list \<times> usize \<times> replay" where
  "settle available s =
     (if rp_decision s \<noteq> DecisionPending then ([], available, s)
      else
        (case replay_wake (s\<lparr>rp_decision := Settled, rp_kept := [], rp_kept_bytes := 0, rp_reservation := None\<rparr>) of
           (ws, s') \<Rightarrow> (ws, release (rp_reservation s) available, s')))"

definition state_refuse ::
  "usize \<Rightarrow> replay \<Rightarrow> (bytes list \<times> request_stream option) \<times> waker list \<times> usize \<times> replay" where
  "state_refuse available s =
     (case replay_wake (s\<lparr>rp_decision := Refused, rp_reservation := None, rp_kept_bytes := 0,
                          rp_kept := [], rp_held := None, rp_source := None\<rparr>) of
        (ws, s') \<Rightarrow>
          ((rp_kept s @ (case rp_held s of None \<Rightarrow> [] | Some request \<Rightarrow> [request]), rp_source s), ws,
           release (rp_reservation s) available, s'))"

text \<open>The stream of the replayed call.\<close>

definition refuse :: "usize \<Rightarrow> replay \<Rightarrow> request_stream \<times> waker list \<times> usize \<times> replay" where
  "refuse available s =
     (case state_refuse available s of
        ((requests, rest), ws, available, s) \<Rightarrow>
          (map (\<lambda>request. Ready (Some (Inr request))) requests @
             (case rest of Some rest \<Rightarrow> rest | None \<Rightarrow> [Ready None]),
           ws, available, s))"

subsection \<open>Specification\<close>

text \<open>
  Runs of an optimistic call: its upload polls for requests, other calls take from the budget and give
  back to it, and the reader of the response settles or refuses the call. \<open>out\<close> is what the upload
  was given so far.
\<close>

inductive replay_run ::
  "request_stream \<Rightarrow> (error + bytes) list \<Rightarrow> usize \<Rightarrow> replay \<Rightarrow> bool"
  for requests :: request_stream where
  started: "available \<le> USIZE_MAX \<Longrightarrow> replay_run requests [] available (replay_new requests)"
| uploaded: "replay_run requests out available s \<Longrightarrow>
    poll_upload cx available s = (polled, available', s') \<Longrightarrow>
    replay_run requests (out @ (case polled of Ready (Some x) \<Rightarrow> [x] | _ \<Rightarrow> [])) available' s'"
| budget_changed: "replay_run requests out available s \<Longrightarrow>
    available' + (case rp_reservation s of None \<Rightarrow> 0 | Some n \<Rightarrow> n) \<le> USIZE_MAX \<Longrightarrow>
    replay_run requests out available' s"
| settled: "replay_run requests out available s \<Longrightarrow> settle available s = (ws, available', s') \<Longrightarrow>
    replay_run requests out available' s'"
| refused: "replay_run requests out available s \<Longrightarrow> refuse available s = (stream, ws, available', s') \<Longrightarrow>
    replay_run requests out available' s'"

definition held_items :: "replay \<Rightarrow> (error + bytes) list" where
  "held_items s = (case rp_held s of None \<Rightarrow> [] | Some request \<Rightarrow> [Inr request])"

definition source_items :: "replay \<Rightarrow> (error + bytes) list" where
  "source_items s = (case rp_source s of None \<Rightarrow> [] | Some polls \<Rightarrow> stream_items polls)"

definition replay_inv :: "request_stream \<Rightarrow> (error + bytes) list \<Rightarrow> usize \<Rightarrow> replay \<Rightarrow> bool" where
  "replay_inv requests out available s \<longleftrightarrow>
     available + (case rp_reservation s of None \<Rightarrow> 0 | Some n \<Rightarrow> n) \<le> USIZE_MAX \<and>
     rp_kept_bytes s \<le> MAX_KEPT_BYTES \<and> rp_kept_bytes s = sum_list (map length (rp_kept s)) \<and>
     (case rp_reservation s of None \<Rightarrow> 0 | Some n \<Rightarrow> n) = rp_kept_bytes s \<and>
     (rp_decision s \<noteq> Refused \<longrightarrow> stream_items requests = out @ held_items s @ source_items s) \<and>
     (rp_decision s = DecisionPending \<longrightarrow> map Inr (rp_kept s) = filter is_ok out)"

definition example_upload :: request_stream where
  "example_upload = [Ready (Some (Inr [1])), Pending, Ready (Some (Inr [2, 3])), Ready None]"

subsection \<open>Properties\<close>

lemma poll_source_cases:
  assumes "poll_source s = (polled, s')"
  shows "rp_kept s' = rp_kept s \<and> rp_kept_bytes s' = rp_kept_bytes s \<and> rp_reservation s' = rp_reservation s \<and>
    rp_held s' = rp_held s \<and> rp_decision s' = rp_decision s \<and>
    source_items s = (case polled of Ready (Some x) \<Rightarrow> [x] | _ \<Rightarrow> []) @ source_items s'"
  using assms
  by (auto simp: poll_source_def source_items_def split: option.splits list.splits poll.splits)

lemma keep_cases:
  assumes "keep request available s = (kept, available', s')"
  obtains (no) "\<not> kept" "available' = available" "s' = s"
  | (yes) "kept" "length request \<le> available" "available' = available - length request"
      "rp_kept_bytes s + length request \<le> MAX_KEPT_BYTES"
      "s' = s\<lparr>rp_reservation := Some (case rp_reservation s of Some held \<Rightarrow> absorb held (length request)
                | None \<Rightarrow> length request),
           rp_kept := rp_kept s @ [request], rp_kept_bytes := rp_kept_bytes s + length request\<rparr>"
proof -
  have small: "n \<le> MAX_KEPT_BYTES \<Longrightarrow> n \<le> USIZE_MAX" for n by (simp add: MAX_KEPT_BYTES_def USIZE_MAX_def)
  show thesis
  proof (cases "rp_kept_bytes s + length request \<le> MAX_KEPT_BYTES \<and> length request \<le> available")
    case True
    show thesis by (rule yes) (use True small assms in
      \<open>auto simp: keep_def option_filter_def checked_add_def reserve_def\<close>)
  next
    case False
    show thesis by (rule no) (use False assms in
      \<open>auto simp: keep_def option_filter_def checked_add_def reserve_def split: option.splits if_split_asm\<close>)
  qed
qed

lemma poll_upload_pending_inv:
  assumes inv: "replay_inv requests out available s" and poll: "poll_upload cx available s = (polled, available', s')"
    and DecisionPending: "rp_decision s = DecisionPending"
  shows "replay_inv requests (out @ (case polled of Ready (Some x) \<Rightarrow> [x] | _ \<Rightarrow> [])) available' s'"
proof (cases "rp_held s")
  case (Some request)
  then show ?thesis using inv poll DecisionPending
    by (auto simp: poll_upload_def replay_inv_def held_items_def source_items_def)
next
  case None
  obtain p t where p: "poll_source s = (p, t)" by (rule prod.exhaust)
  note src = poll_source_cases [OF p]
  then have t: "rp_kept t = rp_kept s" "rp_kept_bytes t = rp_kept_bytes s" "rp_reservation t = rp_reservation s"
    "rp_held t = rp_held s" "rp_decision t = rp_decision s" by simp_all
  show ?thesis
  proof (cases "\<exists>request. p = Ready (Some (Inr request))")
    case True
    then obtain request where request: "p = Ready (Some (Inr request))" by blast
    obtain k a u where k: "keep request available t = (k, a, u)" by (rule prod_cases3)
    from k show ?thesis
    proof (cases rule: keep_cases)
      case no
      then show ?thesis using inv poll DecisionPending None p request k src t
        by (auto simp: poll_upload_def replay_inv_def held_items_def source_items_def)
    next
      case yes
      have fits: "rp_kept_bytes s + length request \<le> USIZE_MAX"
        using yes(4) t by (simp add: MAX_KEPT_BYTES_def USIZE_MAX_def)
      have r: "polled = Ready (Some (Inr request))" "available' = available - length request" "s' = u"
        using poll yes by (simp_all add: poll_upload_def DecisionPending None p request k)
      have reserved: "(case rp_reservation s of None \<Rightarrow> 0 | Some n \<Rightarrow> n) = rp_kept_bytes s" using inv by (simp add: replay_inv_def)
      then have "(case rp_reservation u of None \<Rightarrow> 0 | Some n \<Rightarrow> n) = rp_kept_bytes s + length request"
        using fits yes(5) t by (cases "rp_reservation s") (simp_all add: absorb_def saturating_add_exact)
      moreover have "rp_kept u = rp_kept s @ [request]" "rp_kept_bytes u = rp_kept_bytes s + length request"
        "held_items u = []" "rp_decision u = DecisionPending" "source_items u = source_items t"
        using yes(5) t None DecisionPending by (simp_all add: held_items_def source_items_def)
      moreover have "held_items s = []" "source_items s = Inr request # source_items t"
        using None src request by (simp_all add: held_items_def)
      ultimately show ?thesis
        using inv yes(2,4) t DecisionPending reserved unfolding replay_inv_def r by simp
    qed
  next
    case False
    then show ?thesis using inv poll DecisionPending None p src t
      by (auto simp: poll_upload_def replay_inv_def held_items_def is_ok_def split: poll.splits option.splits sum.splits)
  qed
qed

lemma poll_upload_inv:
  assumes inv: "replay_inv requests out available s" and poll: "poll_upload cx available s = (polled, available', s')"
  shows "replay_inv requests (out @ (case polled of Ready (Some x) \<Rightarrow> [x] | _ \<Rightarrow> [])) available' s'"
proof (cases "rp_decision s")
  case Refused
  then show ?thesis using assms by (auto simp: poll_upload_def replay_inv_def held_items_def source_items_def)
next
  case Settled
  show ?thesis
  proof (cases "rp_held s")
    case None
    obtain p t where p: "poll_source s = (p, t)" by (rule prod.exhaust)
    then show ?thesis
      using inv poll Settled None poll_source_cases [OF p]
      by (auto simp: poll_upload_def replay_inv_def held_items_def)
  next
    case (Some request)
    then show ?thesis using inv poll Settled
      by (auto simp: poll_upload_def replay_inv_def held_items_def source_items_def)
  qed
qed (rule poll_upload_pending_inv [OF assms])

lemma release_reserved:
  "available + (case reservation of None \<Rightarrow> 0 | Some n \<Rightarrow> n) \<le> USIZE_MAX \<Longrightarrow>
   release reservation available = available + (case reservation of None \<Rightarrow> 0 | Some n \<Rightarrow> n)"
  by (cases reservation) (simp_all add: release_def drop_reservation_exact)

lemma replay_run_inv: "replay_run requests out available s \<Longrightarrow> replay_inv requests out available s"
proof (induction rule: replay_run.induct)
  case (started available)
  then show ?case by (simp add: replay_inv_def replay_new_def held_items_def source_items_def)
next
  case (uploaded out available s cx polled available' s')
  then show ?case by (intro poll_upload_inv)
next
  case (budget_changed out available s available')
  then show ?case by (simp add: replay_inv_def)
next
  case (settled out available s ws available' s')
  then show ?case
    by (auto simp: settle_def replay_wake_def replay_inv_def release_reserved held_items_def source_items_def split: if_split_asm)
next
  case (refused out available s stream ws available' s')
  then show ?case
    by (auto simp: refuse_def state_refuse_def replay_wake_def replay_inv_def release_reserved held_items_def source_items_def)
qed

lemma stream_items_ready: "stream_items (map (\<lambda>x. Ready (Some (Inr x))) xs @ ps) = map Inr xs @ stream_items ps"
  by (induction xs) simp_all

text \<open>
  C3. A refused optimistic call is replayed whole: as long as the caller's stream has not failed, the
  replayed call sends exactly the caller's requests, in order and from the first, however many of them
  the refused upload had already been given. An upload that is not refused gets the same requests, one
  after the other. At most \<open>MAX_KEPT_BYTES\<close> of copies are kept, all of them reserved from the budget and
  given back when the call is decided.
\<close>

theorem replay_lossless:
  assumes "replay_run requests out available s"
  shows "sum_list (map length (rp_kept s)) \<le> MAX_KEPT_BYTES \<and>
    (rp_decision s \<noteq> Refused \<longrightarrow> prefix out (stream_items requests)) \<and>
    (rp_decision s = DecisionPending \<longrightarrow> list_all is_ok out \<longrightarrow>
       (\<forall>stream ws available' s'. refuse available s = (stream, ws, available', s') \<longrightarrow>
          stream_items stream = stream_items requests \<and>
          available' = available + sum_list (map length (rp_kept s)) \<and> rp_reservation s' = None)) \<and>
    (\<forall>ws available' s'. rp_decision s = DecisionPending \<longrightarrow> settle available s = (ws, available', s') \<longrightarrow>
       available' = available + sum_list (map length (rp_kept s)) \<and> rp_reservation s' = None)"
proof -
  have inv: "replay_inv requests out available s" using assms by (rule replay_run_inv)
  have "stream_items stream = stream_items requests \<and>
      available' = available + sum_list (map length (rp_kept s)) \<and> rp_reservation s' = None"
    if "rp_decision s = DecisionPending" "list_all is_ok out" "refuse available s = (stream, ws, available', s')"
    for stream ws available' s'
  proof -
    have "map Inr (rp_kept s) = out" using inv that by (simp add: replay_inv_def list_all_iff)
    then have "stream_items stream = out @ held_items s @ source_items s"
      using that(3) by (auto simp: refuse_def state_refuse_def replay_wake_def stream_items_ready held_items_def
          source_items_def split: option.splits)
    with inv that show ?thesis
      by (auto simp: replay_inv_def refuse_def state_refuse_def replay_wake_def release_reserved)
  qed
  moreover have "available' = available + sum_list (map length (rp_kept s)) \<and> rp_reservation s' = None"
    if "rp_decision s = DecisionPending" "settle available s = (ws, available', s')" for ws available' s'
    using inv that by (auto simp: settle_def replay_wake_def replay_inv_def release_reserved)
  ultimately show ?thesis using inv by (auto simp: replay_inv_def)
qed

theorem replay_lossless_witness:
  "\<exists>s. replay_run example_upload [Inr [1]] 9 s \<and>
     stream_items (fst (refuse 9 s)) = [Inr [1], Inr [2, 3]]"
proof -
  obtain polled available s where p: "poll_upload 0 10 (replay_new example_upload) = (polled, available, s)"
    by (rule prod_cases3)
  have s: "polled = Ready (Some (Inr [1]))" "available = 9" "rp_decision s = DecisionPending"
    using p by (auto simp: poll_upload_def replay_new_def poll_source_def example_upload_def keep_def option_filter_def
        checked_add_def reserve_def MAX_KEPT_BYTES_def USIZE_MAX_def)
  have "replay_run example_upload [] 10 (replay_new example_upload)"
    by (rule replay_run.started) (simp add: USIZE_MAX_def)
  from replay_run.uploaded [OF this p] s have run: "replay_run example_upload [Inr [1]] 9 s" by simp
  obtain stream ws available' s' where r: "refuse 9 s = (stream, ws, available', s')" by (rule prod_cases4)
  with replay_lossless [OF run] s have "stream_items stream = stream_items example_upload" by simp
  with run r show ?thesis by (auto simp: example_upload_def)
qed

end
