(* ===== verification/Reader_Laws.thy ===== *)
theory Reader_Laws
  imports Byte_Reader
begin

unbundle bit_operations_syntax

text \<open>
  What the readers of \<open>framed.rs\<close> promise and what follows: a reader delivers the content of a
  stream, in pieces of any size, and then its end, a clean one or a transport error. The locales
  state this of \<open>FrameRead\<close> and of the \<open>ChunkSource\<close>s under it, and prove once that every reading
  function returns and computes a function of the content alone, so that how the transport cuts
  the stream into chunks is never visible.
\<close>

subsection \<open>Streams and the readers that deliver them\<close>

text \<open>
  The content of a stream: the bytes still to come, and how it ends. The \<open>stream_\<close> functions are
  what the readers above are to compute on it: a frame header is two integers of \<open>varint.rs\<close>, the
  second within the size limit; a stream that ends between frames ends cleanly, and one that ends
  inside a frame, or with a transport error, is an error.
\<close>

type_synonym stream = "bytes \<times> unit result"

definition ended_by :: "stream \<Rightarrow> error" where
  "ended_by st = (case snd st of Inl e \<Rightarrow> e | Inr _ \<Rightarrow> unexpected_eof)"

definition stream_exact_from :: "bytes \<Rightarrow> nat \<Rightarrow> stream \<Rightarrow> bytes option result \<times> stream" where
  "stream_exact_from filled n st =
     (if n \<le> length (filled @ fst st)
      then (Inr (Some (take n (filled @ fst st))), (drop n (filled @ fst st), snd st))
      else if filled = [] \<and> st = ([], Inr ()) then (Inr None, st)
      else (Inl (ended_by st), ([], snd st)))"

definition stream_exact :: "nat \<Rightarrow> stream \<Rightarrow> bytes option result \<times> stream" where
  "stream_exact = stream_exact_from []"

lemma stream_exact_from_pieces:
  "st = (bs @ fst st', snd st') \<Longrightarrow>
     stream_exact_from (filled @ bs) n st' = stream_exact_from filled n st"
  by (auto simp: stream_exact_from_def ended_by_def prod_eq_iff)

definition stream_skip :: "nat \<Rightarrow> stream \<Rightarrow> unit result \<times> stream" where
  "stream_skip n st =
     (if n \<le> length (fst st) then (Inr (), (drop n (fst st), snd st))
      else (Inl (ended_by st), ([], snd st)))"

definition stream_body :: "nat \<Rightarrow> stream \<Rightarrow> bytes result \<times> stream" where
  "stream_body n st =
     (if n \<le> length (fst st) then (Inr (take n (fst st)), (drop n (fst st), snd st))
      else (Inl (ended_by st), st))"

definition stream_header :: "usize \<Rightarrow> stream \<Rightarrow> frame_header option result \<times> stream" where
  "stream_header max_frame_size st =
     (case decode (fst st) of
        None \<Rightarrow> if st = ([], Inr ()) then (Inr None, st) else (Inl (ended_by st), st)
      | Some (frame_type, n) \<Rightarrow>
          (case decode (drop n (fst st)) of
             None \<Rightarrow> (Inl (ended_by st), st)
           | Some (len, m) \<Rightarrow>
               if unat len \<le> max_frame_size then
                 (Inr (Some \<lparr>fh_frame_type = frame_type, fh_payload_len = unat len,
                             fh_header_len = n + m\<rparr>),
                  (drop (n + m) (fst st), snd st))
               else (Inl (FrameTooLarge (unat len) max_frame_size), st)))"

lemma decode_bounds: "decode bs = Some (v, n) \<Longrightarrow> 0 < n \<and> n \<le> length bs"
  by (blast intro: decode_Some_length)

lemma stream_header_length:
  "stream_header limit st = (Inr (Some h), st') \<Longrightarrow> length (fst st') < length (fst st)"
  by (auto simp: stream_header_def split: option.splits if_splits dest!: decode_bounds
      intro!: diff_less)

lemma stream_skip_length:
  "stream_skip n st = (Inr x, st') \<Longrightarrow> length (fst st') \<le> length (fst st)"
  by (auto simp: stream_skip_def split: if_splits)

function stream_known ::
  "usize \<Rightarrow> ('c \<Rightarrow> usize \<Rightarrow> 'c result) \<Rightarrow> 'c \<Rightarrow> stream \<Rightarrow>
     (frame_header option \<times> 'c) result \<times> stream" where
  "stream_known limit on_skipped c st =
     (case stream_header limit st of
        (Inl e, st') \<Rightarrow> (Inl e, st')
      | (Inr None, st') \<Rightarrow> (Inr (None, c), st')
      | (Inr (Some h), st') \<Rightarrow>
          if is_known_frame_type (fh_frame_type h) then (Inr (Some h, c), st')
          else
            (case stream_skip (fh_payload_len h) st' of
               (Inl e, st'') \<Rightarrow> (Inl e, st'')
             | (Inr _, st'') \<Rightarrow>
                 (case on_skipped c (wire_len h) of
                    Inl e \<Rightarrow> (Inl e, st'')
                  | Inr c' \<Rightarrow> stream_known limit on_skipped c' st'')))"
  by pat_completeness auto
termination
  by (relation "measure (\<lambda>(_, _, _, st). length (fst st))")
    (auto simp: stream_skip_def split: if_splits dest!: sym [THEN stream_header_length])

declare stream_known.simps [simp del]

text \<open>
  A computation on a reader implements a function on its content: it returns, with the function's
  result, and unless that is an error leaves a reader with the function's remaining content.
\<close>

definition implements ::
  "('s \<Rightarrow> bool) \<Rightarrow> ('s \<Rightarrow> stream) \<Rightarrow> ('s, 'a) io \<Rightarrow> (stream \<Rightarrow> 'a result \<times> stream) \<Rightarrow> 's \<Rightarrow> bool" where
  "implements valid content m f s \<longleftrightarrow>
     (\<exists>s'. m s = Some (fst (f (content s)), s') \<and>
           (is_ok (fst (f (content s))) \<longrightarrow> valid s' \<and> content s' = snd (f (content s))))"

definition stream_bind ::
  "(stream \<Rightarrow> 'a result \<times> stream) \<Rightarrow> ('a \<Rightarrow> stream \<Rightarrow> 'b result \<times> stream) \<Rightarrow> stream \<Rightarrow>
     'b result \<times> stream" where
  "stream_bind f g st =
     (case f st of (Inl e, st') \<Rightarrow> (Inl e, st') | (Inr x, st') \<Rightarrow> g x st')"

lemma implements_bind:
  assumes "implements valid content m f s"
    and "\<And>x s'. f (content s) = (Inr x, content s') \<Longrightarrow> valid s' \<Longrightarrow> implements valid content (k x) (g x) s'"
  shows "implements valid content (io_bind m k) (stream_bind f g) s"
proof -
  obtain r st where f: "f (content s) = (r, st)" by (rule prod.exhaust)
  show ?thesis
  proof (cases r)
    case (Inl e)
    with assms(1) f show ?thesis
      by (auto simp: implements_def stream_bind_def)
  next
    case (Inr x)
    with assms(1) f obtain s' where s': "m s = Some (Inr x, s')" "valid s'" "content s' = st"
      by (auto simp: implements_def)
    with f Inr assms(2) have "implements valid content (k x) (g x) s'" by simp
    with s' f Inr show ?thesis
      by (auto simp: implements_def stream_bind_def)
  qed
qed

lemma implements_cong:
  "implements valid content m f s \<Longrightarrow> m s = m' s \<Longrightarrow>
     fst (f (content s)) = fst (f' (content s)) \<Longrightarrow>
     (is_ok (fst (f (content s))) \<Longrightarrow> snd (f (content s)) = snd (f' (content s))) \<Longrightarrow>
   implements valid content m' f' s"
  by (auto simp: implements_def)

lemma implements_ret: "valid s \<Longrightarrow> implements valid content (io_ret x) (\<lambda>st. (Inr x, st)) s"
  by (simp add: implements_def io_defs)

lemma implements_err: "implements valid content (io_err e) (\<lambda>st. (Inl e, st)) s"
  by (simp add: implements_def io_defs)

lemma implements_lift: "valid s \<Longrightarrow> implements valid content (io_lift r) (\<lambda>st. (r, st)) s"
  by (simp add: implements_def io_defs)

lemma implements_weaken:
  "implements valid content m f s \<Longrightarrow>
     fst (f' (content s)) = fst (f (content s)) \<Longrightarrow>
     (is_ok (fst (f (content s))) \<Longrightarrow> snd (f' (content s)) = snd (f (content s))) \<Longrightarrow>
   implements valid content m f' s"
  by (auto simp: implements_def)

lemmas implements_intros = implements_ret implements_err implements_lift

definition stream_continued :: "bytes \<Rightarrow> stream \<Rightarrow> (u64 \<times> usize) result \<times> stream" where
  "stream_continued prefix st =
     (case decode (prefix @ fst st) of
        Some (v, n) \<Rightarrow> (Inr (v, n), (drop (n - length prefix) (fst st), snd st))
      | None \<Rightarrow> (Inl (ended_by st), st))"

definition stream_varint :: "stream \<Rightarrow> (u64 \<times> usize) option result \<times> stream" where
  "stream_varint st =
     (case decode (fst st) of
        Some (v, n) \<Rightarrow> (Inr (Some (v, n)), (drop n (fst st), snd st))
      | None \<Rightarrow> if st = ([], Inr ()) then (Inr None, st) else (Inl (ended_by st), st))"

lemma decode_None_iff:
  "decode bs = None \<longleftrightarrow> bs = [] \<or> length bs < len_from_first_byte (hd bs)"
  by (cases bs) (auto simp: decode_def get_to_def Let_def)

lemma decode_Nil [simp]: "decode [] = None"
  by (simp add: decode_def)

lemma decode_varint_buffer:
  assumes "bs \<noteq> []" "length bs = len_from_first_byte (hd bs)"
  shows "decode (varint_buffer bs) = decode bs" "\<exists>v. decode bs = Some (v, length bs)"
proof -
  from assms obtain v n where d: "decode bs = Some (v, n)"
    using decode_None_iff [of bs] by (cases "decode bs") auto
  moreover have n: "n = length bs" using decode_Some_length(4) [OF d] assms by simp
  ultimately show "\<exists>v. decode bs = Some (v, length bs)" by simp
  show "decode (varint_buffer bs) = decode bs"
    using decode_Some_length(5) [OF d, of "replicate (MAX_LEN - length bs) 0"] d n
    by (simp add: varint_buffer_def)
qed

lemma len_from_first_byte_le: "len_from_first_byte b \<le> MAX_LEN"
  by (simp add: len_from_first_byte_def Let_def MAX_LEN_def)

lemma len_from_first_byte_pos [simp]: "0 < len_from_first_byte b" "Suc 0 \<le> len_from_first_byte b"
  by (simp_all add: len_from_first_byte_def Let_def MAX_LEN_def)

lemma decode_take:
  assumes "bs \<noteq> []" "len_from_first_byte (hd bs) \<le> length bs"
  shows "decode bs = decode (take (len_from_first_byte (hd bs)) bs)"
proof -
  from assms obtain v n where d: "decode bs = Some (v, n)"
    using decode_None_iff [of bs] by (cases "decode bs") auto
  with decode_Some_length(5) [OF d, of "[]"] decode_Some_length(4) [OF d] show ?thesis by simp
qed

lemma stream_continued_pieces:
  assumes "prefix \<noteq> []" "length prefix < len_from_first_byte (hd prefix)"
    "len_from_first_byte (hd prefix) \<le> length (prefix @ fst st)"
  defines "k \<equiv> len_from_first_byte (hd prefix) - length prefix"
  shows "(ok_or (decode (varint_buffer (prefix @ take k (fst st)))) e, (drop k (fst st), snd st))
     = stream_continued prefix st"
proof -
  let ?len = "len_from_first_byte (hd prefix)"
  have hd: "hd (prefix @ take k (fst st)) = hd prefix" using assms(1) by simp
  have eq: "length (prefix @ take k (fst st)) = ?len" using assms by simp
  have "decode (prefix @ fst st) = decode (take ?len (prefix @ fst st))"
    using decode_take [of "prefix @ fst st"] assms by simp
  also have "take ?len (prefix @ fst st) = prefix @ take k (fst st)"
    using assms(2) by (simp add: k_def)
  finally have "decode (prefix @ fst st) = decode (prefix @ take k (fst st))" .
  with decode_varint_buffer [of "prefix @ take k (fst st)"] assms(1) eq hd show ?thesis
    by (auto simp: stream_continued_def k_def)
qed

lemma decode_single:
  assumes "len_from_first_byte a = 1"
  shows "decode (a # bs) = Some (ucast a, 1)"
proof -
  have "drop_bit 6 a = 0"
  proof (rule ccontr)
    assume "drop_bit 6 a \<noteq> 0"
    then have "len_from_first_byte a \<noteq> 1"
      by (simp add: len_from_first_byte_def Let_def MAX_LEN_def)
    with assms show False by simp
  qed
  then have "take_bit 6 a = a"
    using bits_ident [of 6 a] by simp
  then have "a AND 0x3f = a"
    by (simp add: take_bit_eq_mask mask_eq_exp_minus_1)
  then show ?thesis unfolding decode_def by (simp add: assms get_to_def)
qed
definition header_of :: "usize \<Rightarrow> u64 \<times> u64 \<times> usize \<Rightarrow> frame_header option result" where
  "header_of limit = (\<lambda>(frame_type, len, header_len).
     if unat len \<le> limit
     then Inr (Some \<lparr>fh_frame_type = frame_type, fh_payload_len = unat len,
                     fh_header_len = header_len\<rparr>)
     else Inl (FrameTooLarge (unat len) limit))"

text \<open>The reads of \<open>read_frame_header\<close> as a parser on streams.\<close>

definition stream_header_reads :: "usize \<Rightarrow> stream \<Rightarrow> frame_header option result \<times> stream" where
  "stream_header_reads limit =
     stream_bind (stream_exact 2) (\<lambda>r.
       case r of
         None \<Rightarrow> \<lambda>st. (Inr None, st)
       | Some head \<Rightarrow>
           if len_from_first_byte (head ! 0) = 1 then
             stream_bind
               (if len_from_first_byte (head ! 1) = 1 then \<lambda>st. (Inr (ucast (head ! 1), 1), st)
                else stream_continued [head ! 1]) (\<lambda>(len, n) st.
               (header_of limit (ucast (head ! 0), len, saturating_add n 1), st))
           else
             stream_bind (stream_continued head) (\<lambda>(frame_type, n).
             stream_bind stream_varint (\<lambda>r.
             stream_bind (\<lambda>st. (ok_or r unexpected_eof, st)) (\<lambda>(len, m) st.
               (header_of limit (frame_type, len, saturating_add n m), st)))))"

lemma saturating_add_small: "a \<le> 8 \<Longrightarrow> b \<le> 8 \<Longrightarrow> saturating_add a b = a + b"
  by (rule saturating_add_exact) (simp add: USIZE_MAX_def)

lemma stream_header_of:
  "decode bs = Some (ty, n) \<Longrightarrow> decode (drop n bs) = Some (len, m) \<Longrightarrow>
   stream_header limit (bs, e) = (header_of limit (ty, len, n + m),
     if unat len \<le> limit then (drop (n + m) bs, e) else (bs, e))"
  by (simp add: stream_header_def header_of_def)

lemma stream_header_reads_eq:
  "fst (stream_header_reads limit st) = fst (stream_header limit st) \<and>
   (is_ok (fst (stream_header limit st)) \<longrightarrow>
      snd (stream_header_reads limit st) = snd (stream_header limit st))"
proof -
  obtain bs e where st: "st = (bs, e)" by (rule prod.exhaust)
  have "length bs < 2 \<or> (\<exists>a b cs. bs = a # b # cs)"
    by (cases bs rule: remdups_adj.cases) simp_all
  moreover have "len_from_first_byte a = 1 \<or> 2 \<le> len_from_first_byte a" for a
    using len_from_first_byte_pos(2) [of a] by linarith
  ultimately consider (short) "length bs < 2"
    | (one) a b cs where "bs = a # b # cs" "len_from_first_byte a = 1"
    | (long) a b cs where "bs = a # b # cs" "2 \<le> len_from_first_byte a"
    by blast
  then show ?thesis
  proof cases
    case short
    then have "decode bs = None \<or> (\<exists>a. bs = [a] \<and> len_from_first_byte a = 1)"
      by (cases bs) (auto simp: decode_None_iff intro: Suc_lessI)
    then show ?thesis
      using short st decode_single
      by (auto simp: stream_header_reads_def stream_header_def stream_bind_def stream_exact_def
          stream_exact_from_def ended_by_def)
  next
    case one
    have "len_from_first_byte b = 1 \<Longrightarrow> stream_continued [b] (cs, e) = (Inr (ucast b, 1), (cs, e))"
      using decode_single [of b cs] by (simp add: stream_continued_def)
    then have reads: "stream_header_reads limit st = stream_bind (stream_continued [b])
        (\<lambda>(len, n) st. (header_of limit (ucast a, len, saturating_add n 1), st)) (cs, e)"
      using one st
      by (cases "len_from_first_byte b = 1")
        (simp_all add: stream_header_reads_def stream_bind_def stream_exact_def stream_exact_from_def)
    show ?thesis
    proof (cases "decode (b # cs)")
      case None
      then show ?thesis
        unfolding reads using one st decode_single [of a]
        by (simp add: stream_bind_def stream_continued_def stream_header_def ended_by_def)
    next
      case (Some p)
      then obtain len m where d: "decode (b # cs) = Some (len, m)" by (cases p) simp
      then have m: "0 < m" "m \<le> 8" using decode_Some_length by blast+
      have "decode bs = Some (ucast a, 1)" "decode (drop 1 bs) = Some (len, m)"
        using one decode_single [of a] d by simp_all
      from stream_header_of [OF this] d m show ?thesis
        unfolding reads unfolding st using one
        by (simp add: stream_bind_def stream_continued_def saturating_add_small header_of_def is_ok_def drop_Cons')
    qed
  next
    case long
    have reads: "stream_header_reads limit st = stream_bind (stream_continued [a, b]) (\<lambda>(frame_type, n).
             stream_bind stream_varint (\<lambda>r.
             stream_bind (\<lambda>st. (ok_or r unexpected_eof, st)) (\<lambda>(len, m) st.
               (header_of limit (frame_type, len, saturating_add n m), st)))) (cs, e)"
      using long st by (simp add: stream_header_reads_def stream_bind_def stream_exact_def stream_exact_from_def)
    show ?thesis
    proof (cases "decode bs")
      case None
      then show ?thesis
        unfolding reads using long st
        by (simp add: stream_bind_def stream_continued_def stream_header_def ended_by_def)
    next
      case (Some p)
      then obtain ty n where d: "decode bs = Some (ty, n)" by (cases p) simp
      then have n: "2 \<le> n" "n \<le> 8" using decode_Some_length(2,4) [OF d] long by simp_all
      have dr: "drop (n - 2) cs = drop n bs" using long n by (simp add: drop_Cons' numeral_2_eq_2)
      show ?thesis
      proof (cases "decode (drop n bs)")
        case None
        then show ?thesis
          unfolding reads using long st d dr
          by (simp add: stream_bind_def stream_continued_def stream_header_def stream_varint_def
              ended_by_def numeral_2_eq_2)
      next
        case (Some q)
        then obtain len m where d': "decode (drop n bs) = Some (len, m)" by (cases q) simp
        then have m: "0 < m" "m \<le> 8" using decode_Some_length by blast+
        from stream_header_of [OF d d'] d' m n dr long d show ?thesis
          unfolding reads unfolding st
          by (simp add: stream_bind_def stream_continued_def stream_varint_def saturating_add_small header_of_def is_ok_def add.commute numeral_2_eq_2)
      qed
    qed
  qed
qed

text \<open>
  What \<open>read_frame_bytes\<close> promises of a non-empty buffer: the next bytes of the content, as many as
  it likes up to the buffer's size, or the end. Reads of no bytes come only finitely often in a
  row, which \<open>rank\<close> bounds.
\<close>

locale byte_reader =
  fixes rd :: "nat \<Rightarrow> ('s, bytes option) io" and valid :: "'s \<Rightarrow> bool"
    and content :: "'s \<Rightarrow> stream" and rank :: "'s \<Rightarrow> nat"
  assumes read_step: "valid s \<Longrightarrow> 0 < n \<Longrightarrow>
    (\<exists>bs s'. rd n s = Some (Inr (Some bs), s') \<and> valid s' \<and> length bs \<le> n \<and>
       content s = (bs @ fst (content s'), snd (content s')) \<and> (bs = [] \<longrightarrow> rank s' < rank s)) \<or>
    (\<exists>s'. rd n s = Some (Inr None, s') \<and> valid s' \<and> content s = ([], Inr ()) \<and> content s' = content s) \<or>
    (\<exists>e s'. rd n s = Some (Inl e, s') \<and> content s = ([], Inl e))"
begin

lemma read_exact_loop_implements:
  assumes "valid s" "length filled \<le> n"
  shows "implements valid content (read_exact_loop rd n filled) (stream_exact_from filled n) s"
  using assms
proof (induction "n - length filled" arbitrary: filled s rule: less_induct)
  case outer: less
  from outer.prems show ?case
  proof (induction "rank s" arbitrary: s rule: less_induct)
    case less
    show ?case
    proof (cases "length filled = n")
      case True
      then show ?thesis
        using less.prems
        by (auto simp: implements_def stream_exact_from_def io_defs read_exact_loop.simps [of _ _ _ s])
    next
      case False
      with less.prems have pos: "0 < n - length filled" by simp
      from read_step [OF \<open>valid s\<close> pos] show ?thesis
      proof (elim disjE exE conjE)
        fix bs s'
        assume rd: "rd (n - length filled) s = Some (Inr (Some bs), s')" "valid s'"
          "length bs \<le> n - length filled"
          and c: "content s = (bs @ fst (content s'), snd (content s'))"
          and rank: "bs = [] \<longrightarrow> rank s' < rank s"
        have step: "read_exact_loop rd n filled s = read_exact_loop rd n (filled @ bs) s'"
          using rd False less.prems by (simp add: read_exact_loop.simps [of _ _ _ s])
        have "implements valid content (read_exact_loop rd n (filled @ bs))
            (stream_exact_from (filled @ bs) n) s'"
          using less.hyps [of s'] outer.hyps [of "filled @ bs" s'] rank rd pos less.prems
          by (cases bs) auto
        then show ?thesis
          unfolding implements_def step stream_exact_from_pieces [OF c] .
      next
        fix s' assume "rd (n - length filled) s = Some (Inr None, s')" "valid s'"
          "content s = ([], Inr ())" "content s' = content s"
        then show ?thesis using False less.prems
          by (auto simp: implements_def stream_exact_from_def io_defs ended_by_def
              read_exact_loop.simps [of _ _ _ s])
      next
        fix e s' assume "rd (n - length filled) s = Some (Inl e, s')" "content s = ([], Inl e)"
        then show ?thesis using False less.prems
          by (auto simp: implements_def stream_exact_from_def ended_by_def
              read_exact_loop.simps [of _ _ _ s])
      qed
    qed
  qed
qed

lemma read_exact_implements:
  "valid s \<Longrightarrow> implements valid content (read_exact_or_eof rd n) (stream_exact n) s"
  unfolding read_exact_or_eof_def stream_exact_def
  by (rule read_exact_loop_implements) simp_all

lemma discard_loop_implements:
  assumes "valid s" "min remaining DISCARD_CHUNK \<le> buffer"
  shows "implements valid content (discard_loop rd buffer remaining) (stream_skip remaining) s"
  using assms
proof (induction remaining arbitrary: s rule: less_induct)
  case outer: (less remaining)
  from outer.prems show ?case
  proof (induction "rank s" arbitrary: s rule: less_induct)
    case less
    show ?case
    proof (cases "remaining = 0")
      case True
      then show ?thesis using less.prems
        by (simp add: implements_def stream_skip_def io_defs discard_loop.simps [of _ _ _ s])
    next
      case False
      then have pos: "0 < min remaining DISCARD_CHUNK" by (simp add: DISCARD_CHUNK_def)
      from read_step [OF \<open>valid s\<close> pos] show ?thesis
      proof (elim disjE exE conjE)
        fix bs s'
        assume rd: "rd (min remaining DISCARD_CHUNK) s = Some (Inr (Some bs), s')" "valid s'"
          "length bs \<le> min remaining DISCARD_CHUNK"
          and c: "content s = (bs @ fst (content s'), snd (content s'))"
          and rank: "bs = [] \<longrightarrow> rank s' < rank s"
        have step: "discard_loop rd buffer remaining s =
            discard_loop rd buffer (remaining - length bs) s'"
          using rd False less.prems by (simp add: discard_loop.simps [of _ _ _ s])
        have "implements valid content (discard_loop rd buffer (remaining - length bs))
            (stream_skip (remaining - length bs)) s'"
          using less.hyps [of s'] outer.IH [of "remaining - length bs" s'] rank rd False less.prems
          by (cases bs) auto
        moreover have "stream_skip (remaining - length bs) (content s') =
            stream_skip remaining (content s)"
          using rd(3) by (subst c) (auto simp: stream_skip_def ended_by_def)
        ultimately show ?thesis unfolding implements_def step by simp
      next
        fix s' assume "rd (min remaining DISCARD_CHUNK) s = Some (Inr None, s')" "valid s'"
          "content s = ([], Inr ())" "content s' = content s"
        then show ?thesis using False less.prems
          by (simp add: implements_def stream_skip_def io_defs ended_by_def
              discard_loop.simps [of _ _ _ s])
      next
        fix e s' assume "rd (min remaining DISCARD_CHUNK) s = Some (Inl e, s')"
          "content s = ([], Inl e)"
        then show ?thesis using False less.prems
          by (simp add: implements_def stream_skip_def ended_by_def discard_loop.simps [of _ _ _ s])
      qed
    qed
  qed
qed

lemma read_body_implements:
  "valid s \<Longrightarrow> implements valid content (read_exact_body rd n) (stream_body n) s"
  using read_exact_implements [of s n]
  by (auto simp: implements_def stream_exact_def stream_exact_from_def stream_body_def read_exact_body_def ended_by_def io_defs
      split: if_splits)

lemma read_continued_implements:
  assumes "valid s" "prefix \<noteq> []" "length prefix \<le> len_from_first_byte (hd prefix)"
  shows "implements valid content (read_continued rd prefix) (stream_continued prefix) s"
proof -
  let ?len = "len_from_first_byte (hd prefix)"
  obtain first rest where prefix: "prefix = first # rest" using assms(2) by (cases prefix) auto
  have fits: "length prefix \<le> MAX_LEN"
    using assms(3) len_from_first_byte_le [of "hd prefix"] by linarith
  show ?thesis
  proof (cases "length prefix < ?len")
    case True
    let ?k = "?len - length prefix"
    let ?f = "stream_bind (stream_exact ?k) (\<lambda>r.
      case r of
        Some tail \<Rightarrow> \<lambda>st.
          (ok_or (decode (varint_buffer (prefix @ tail))) invalid_varint_prefix, st)
      | None \<Rightarrow> \<lambda>st. (Inl unexpected_eof, st))"
    have code: "read_continued rd prefix =
        io_bind (read_exact_or_eof rd ?k) (\<lambda>r. case r of
            Some tail \<Rightarrow>
              io_lift (ok_or (decode (varint_buffer (prefix @ tail))) invalid_varint_prefix)
          | None \<Rightarrow> io_err unexpected_eof)"
      using True fits unfolding prefix append_Cons
      by (simp add: read_continued_def Let_def)
    have impl: "implements valid content (read_continued rd prefix) ?f s"
      unfolding code using assms(1)
      by (intro implements_bind read_exact_implements)
        (auto intro!: implements_intros split: option.split)
    show ?thesis
    proof (cases "?len \<le> length (prefix @ fst (content s))")
      case enough: True
      have "?f (content s) = stream_continued prefix (content s)"
        unfolding stream_continued_pieces [OF assms(2) True enough, of invalid_varint_prefix, symmetric]
        using enough by (auto simp: stream_bind_def stream_exact_def stream_exact_from_def)
      then show ?thesis by (intro implements_weaken [OF impl]) simp_all
    next
      case False
      then have "fst (?f (content s)) = Inl (ended_by (content s))"
        by (auto simp: stream_bind_def stream_exact_def stream_exact_from_def ended_by_def)
      moreover have "decode (prefix @ fst (content s)) = None"
        using False assms(2) by (simp add: decode_None_iff)
      ultimately show ?thesis
        by (intro implements_weaken [OF impl]) (simp_all add: stream_continued_def)
    qed
  next
    case False
    then have eq: "length prefix = ?len" using assms(3) by simp
    from decode_varint_buffer [OF assms(2) eq] obtain v
      where v: "decode prefix = Some (v, length prefix)"
        "decode (varint_buffer prefix) = Some (v, length prefix)" by auto
    have "decode (prefix @ fst (content s)) = Some (v, length prefix)"
      using decode_Some_length(5) [OF v(1), of "fst (content s)"] by simp
    with False fits v assms(1) show ?thesis
      unfolding read_continued_def prefix
      by (auto simp: implements_def stream_continued_def io_defs prefix Let_def)
  qed
qed

lemma varint_read_implements:
  assumes "valid s"
  shows "implements valid content (varint_read rd) stream_varint s"
proof -
  let ?f = "stream_bind (stream_exact 1) (\<lambda>r.
    case r of
      None \<Rightarrow> \<lambda>st. (Inr None, st)
    | Some first \<Rightarrow> stream_bind (stream_continued first) (\<lambda>x st. (Inr (Some x), st)))"
  have first: "\<exists>b. bs = [b]" if "stream_exact 1 (content s) = (Inr (Some bs), st)" for bs st
    using that by (cases "fst (content s)") (auto simp: stream_exact_def stream_exact_from_def split: if_splits)
  have impl: "implements valid content (varint_read rd) ?f s"
    unfolding varint_read_def comp_def
  proof (intro implements_bind read_exact_implements assms)
    fix r s' assume "stream_exact 1 (content s) = (Inr r, content s')" "valid s'"
    then show "implements valid content
        (case r of None \<Rightarrow> io_ret None
         | Some first \<Rightarrow> io_bind (read_continued rd first) (\<lambda>x. io_ret (Some x)))
        (case r of None \<Rightarrow> \<lambda>st. (Inr None, st)
         | Some first \<Rightarrow> stream_bind (stream_continued first) (\<lambda>x st. (Inr (Some x), st))) s'"
      using first by (cases r)
        (auto intro!: implements_intros implements_bind read_continued_implements)
  qed
  show ?thesis
  proof (cases "fst (content s)")
    case Nil
    then show ?thesis
      by (intro implements_weaken [OF impl]) (auto simp: stream_varint_def stream_bind_def stream_exact_def
      stream_exact_from_def decode_None_iff)
  next
    case (Cons b bs)
    then have "?f (content s) = stream_bind (stream_continued [b]) (\<lambda>x st. (Inr (Some x), st)) (bs, snd (content s))"
      by (simp add: stream_bind_def stream_exact_def stream_exact_from_def)
    with Cons show ?thesis
      by (intro implements_weaken [OF impl]) 
       (auto simp: stream_varint_def stream_bind_def stream_continued_def ended_by_def drop_Cons'
         dest: decode_Some_length(1) split: option.split)
  qed
qed
end

lemma implements_header_of:
  "valid s \<Longrightarrow> implements valid content
     (io_bind (io_lift (validate_payload_len (unat len) limit)) (\<lambda>_.
        io_ret (Some \<lparr>fh_frame_type = frame_type, fh_payload_len = unat len,
                      fh_header_len = header_len\<rparr>)))
     (\<lambda>st. (header_of limit (frame_type, len, header_len), st)) s"
  by (simp add: implements_def io_defs validate_payload_len_def header_of_def)

lemma stream_exact_length:
  "stream_exact n st = (Inr (Some bs), st') \<Longrightarrow> length bs = n"
  by (auto simp: stream_exact_def stream_exact_from_def split: if_splits)

text \<open>A \<open>FrameRead\<close>: also payloads are the next bytes of the content.\<close>

locale frame_reader = byte_reader "read_frame_bytes R" valid content rank
  for R :: "'s frame_read" and valid :: "'s \<Rightarrow> bool" and content :: "'s \<Rightarrow> stream"
    and rank :: "'s \<Rightarrow> nat" +
  assumes payload_step: "valid s \<Longrightarrow> 0 < n \<Longrightarrow>
    implements valid content (read_payload_bytes R n) (stream_body n) s"
begin

lemma read_frame_header_implements:
  assumes "valid s"
  shows "implements valid content (read_frame_header R limit) (stream_header limit) s"
proof -
  have "implements valid content (read_frame_header R limit) (stream_header_reads limit) s"
    unfolding read_frame_header_def stream_header_reads_def Let_def
  proof (intro implements_bind read_exact_implements assms, goal_cases)
    case (1 r s')
    show ?case
    proof (cases r)
      case None
      with 1 show ?thesis by (simp add: implements_ret)
    next
      case (Some head)
      with 1 obtain a b where head: "head = [a, b]"
        using stream_exact_length [of 2 "content s" head "content s'"]
        by (auto simp: numeral_2_eq_2 length_Suc_conv)
      show ?thesis
      proof (cases "len_from_first_byte a = 1")
        case True
        with 1 Some head show ?thesis
          by (auto intro!: implements_bind implements_ret implements_header_of
              read_continued_implements)
      next
        case False
        then have "2 \<le> len_from_first_byte a"
          using len_from_first_byte_pos(2) [of a] by linarith
        with 1 Some head False show ?thesis
          by (auto intro!: implements_bind implements_lift implements_header_of
              read_continued_implements varint_read_implements)
      qed
    qed
  qed
  then show ?thesis
    by (rule implements_weaken) (simp_all add: stream_header_reads_eq)
qed


lemma discard_implements:
  "valid s \<Longrightarrow> implements valid content (discard_payload R len) (stream_skip len) s"
  unfolding discard_payload_def by (intro discard_loop_implements) simp_all

lemma read_payload_implements:
  "valid s \<Longrightarrow> implements valid content (read_payload R len) (stream_body len) s"
  using payload_step [of s len]
  by (cases "len = 0") (simp_all add: read_payload_def implements_def stream_body_def io_defs)

lemma next_known_header_implements:
  "valid s \<Longrightarrow>
   implements valid content (next_known_header R limit on_skipped c)
     (stream_known limit on_skipped c) s"
proof (induction "length (fst (content s))" arbitrary: s c rule: less_induct)
  case less
  let ?g = "\<lambda>r. case r of
      None \<Rightarrow> \<lambda>st. (Inr (None, c), st)
    | Some h \<Rightarrow>
        if is_known_frame_type (fh_frame_type h) then \<lambda>st. (Inr (Some h, c), st)
        else stream_bind (stream_skip (fh_payload_len h)) (\<lambda>_.
             stream_bind (\<lambda>st. (on_skipped c (wire_len h), st)) (\<lambda>c.
               stream_known limit on_skipped c))"
  have "implements valid content (next_known_header R limit on_skipped c)
      (stream_bind (stream_header limit) ?g) s"
    unfolding implements_def next_known_header.simps [of R limit on_skipped c s]
    unfolding implements_def [symmetric, where m = "io_bind _ _"]
  proof (intro implements_bind read_frame_header_implements less.prems, goal_cases)
    case (1 r s')
    then show ?case
      using stream_header_length [of limit "content s" _ "content s'"]
      by (cases r) (auto intro!: implements_bind implements_intros discard_implements less.hyps
          dest!: stream_skip_length)
  qed
  then show ?case
    by (rule implements_weaken)
      (simp_all add: stream_known.simps [of limit on_skipped c] stream_bind_def split: prod.split sum.split option.split)
qed

end

subsection \<open>Chunk sources\<close>

text \<open>What a \<open>ChunkSource\<close>, the receive stream of a transport library, promises.\<close>

locale chunks_of_stream =
  fixes next_chunk_of :: "('s, bytes option) io" and valid :: "'s \<Rightarrow> bool"
    and content :: "'s \<Rightarrow> stream" and rank :: "'s \<Rightarrow> nat"
  assumes chunk_step: "valid s \<Longrightarrow>
    (\<exists>bs s'. next_chunk_of s = Some (Inr (Some bs), s') \<and> valid s' \<and>
       content s = (bs @ fst (content s'), snd (content s')) \<and> (bs = [] \<longrightarrow> rank s' < rank s)) \<or>
    (\<exists>s'. next_chunk_of s = Some (Inr None, s') \<and> valid s' \<and> content s = ([], Inr ()) \<and>
       content s' = content s) \<or>
    (\<exists>e s'. next_chunk_of s = Some (Inl e, s') \<and> content s = ([], Inl e))"

locale chunked_stream =
  chunks_of_stream "next_chunk S" valid content rank +
  byte_reader "read_into S" valid content rank
  for S :: "'s chunk_source" and valid :: "'s \<Rightarrow> bool" and content :: "'s \<Rightarrow> stream"
    and rank :: "'s \<Rightarrow> nat"

definition chunked_content :: "('s \<Rightarrow> stream) \<Rightarrow> 's chunked \<Rightarrow> stream" where
  "chunked_content content c =
     (ch_pending c @ fst (content (ch_source c)), snd (content (ch_source c)))"

sublocale chunked_stream \<subseteq> ch: byte_reader "chunked_read S" "\<lambda>c. valid (ch_source c)"
  "chunked_content content" "\<lambda>c. rank (ch_source c)"
proof (unfold_locales, goal_cases)
  case (1 c n)
  show ?case
  proof (cases "ch_pending c = []")
    case True
    show ?thesis
    proof (cases "n > BUFFERED_READ_MAX")
      case direct: True
      from read_step [OF 1] show ?thesis
        using True direct
        by (elim disjE exE conjE)
          (auto simp: chunked_read_def on_source_def chunked_content_def)
    next
      case False
      from chunk_step [OF 1(1)] show ?thesis
        using True False 1(2)
        by (elim disjE exE conjE)
          (auto simp: chunked_read_def on_source_def chunked_content_def split_pending_def io_defs
            min_def split: if_splits)
    qed
  next
    case False
    then show ?thesis
      using 1 by (auto simp: chunked_read_def chunked_content_def split_pending_def io_defs)
  qed
qed

sublocale chunked_stream \<subseteq> fr: frame_reader "chunked_reader S" "\<lambda>c. valid (ch_source c)"
  "chunked_content content" "\<lambda>c. rank (ch_source c)"
proof (intro_locales, goal_cases)
  case 1
  show ?case using ch.byte_reader_axioms by (simp add: chunked_reader_def)
next
  case 2
  show ?case
    using ch.read_body_implements
    by unfold_locales (auto simp: chunked_reader_def chunked_read_payload_def read_payload_copy_def
        implements_def split_pending_def stream_body_def chunked_content_def)
qed

context chunked_stream
begin

lemma chunked_frame_reader:
  "frame_reader (chunked_reader S) (\<lambda>c. valid (ch_source c)) (chunked_content content)
     (\<lambda>c. rank (ch_source c))"
  by (rule fr.frame_reader_axioms)

end

lemma implementsD:
  assumes "implements valid content m f s" "f (content s) = (r, st)"
  obtains s' where "m s = Some (r, s')" "is_ok r \<longrightarrow> valid s' \<and> content s' = st"
  using assms by (auto simp: implements_def)

subsection \<open>Encoded frames read back\<close>

lemma encode_frame_layout:
  assumes "encode_frame ty payload limit = Inr frame" "limit \<le> USIZE_MAX"
  obtains n m where "\<And>rest. decode (frame @ rest) = Some (ty, n)"
    "\<And>rest. decode (drop n (frame @ rest)) = Some (of_nat (length payload), m)"
    "\<And>rest. drop (n + m) (frame @ rest) = payload @ rest" "n + m + length payload = length frame"
    "length payload \<le> limit" "unat (of_nat (length payload) :: u64) = length payload"
proof -
  from assms(1) obtain h1 h2 where len: "length payload \<le> limit"
    and h: "push [] ty = Inr h1" "push h1 (of_nat (length payload)) = Inr h2" "frame = h2 @ payload"
    by (auto simp: encode_frame_def put_frame_header_def validate_payload_len_def and_then_Inr_iff
        split: if_splits)
  obtain t where t: "h1 = t" "\<And>rest. decode (t @ rest) = Some (ty, length t)"
    using push_decode [OF h(1)] by auto
  obtain l where l: "h2 = t @ l" "\<And>rest. decode (l @ rest) = Some (of_nat (length payload), length l)"
    using push_decode [OF h(2)] t(1) by auto
  have "unat (of_nat (length payload) :: u64) = length payload"
    using len assms(2) by (simp add: unat_of_nat USIZE_MAX_def)
  then show thesis
    using that [of "length t" "length l"] t l h(3) len by simp
qed

lemma stream_header_encoded:
  assumes "encode_frame ty payload limit = Inr frame" "limit \<le> USIZE_MAX"
  shows "stream_header limit (frame @ rest, e) =
    (Inr (Some \<lparr>fh_frame_type = ty, fh_payload_len = length payload,
                fh_header_len = length frame - length payload\<rparr>), (payload @ rest, e))"
proof -
  from assms obtain n m where "decode (frame @ rest) = Some (ty, n)"
    "decode (drop n (frame @ rest)) = Some (of_nat (length payload), m)"
    "drop (n + m) (frame @ rest) = payload @ rest" "n + m + length payload = length frame"
    "length payload \<le> limit" "unat (of_nat (length payload) :: u64) = length payload"
    by (rule encode_frame_layout) blast
  then show ?thesis by (simp add: stream_header_def)
qed

end
