(* ===== verification/Frame_Writers.thy ===== *)
theory Frame_Writers
  imports Negotiation Datagram Replay Reader_Laws
begin

text \<open>
  The writing half of \<open>framed.rs\<close>: frames are collected into the chunks of one write, and the request
  and the response half of a call are sequences of such writes. The state of a writer is the send
  stream and the call's message encoder with the memory budget it draws on. The protobuf library, the
  compression libraries and the send stream are parameters.
\<close>

subsection \<open>Parameters\<close>

record protobuf =
  pb_request :: "rpc_request \<Rightarrow> bytes"
  pb_headers :: "rpc_headers \<Rightarrow> bytes"
  pb_answer :: "rpc_answer \<Rightarrow> bytes"
  pb_status :: "rpc_status \<Rightarrow> bytes"
  pb_decode_request :: "bytes \<Rightarrow> string + rpc_request"
  pb_decode_headers :: "bytes \<Rightarrow> string + rpc_headers"
  pb_decode_answer :: "bytes \<Rightarrow> string + rpc_answer"
  pb_decode_status :: "bytes \<Rightarrow> string + rpc_status"

text \<open>
  \<open>wl_shared n\<close> is what the connection and the switch of stream compression hold when the call's
  \<open>n\<close>-th message is encoded: an answer that arrives meanwhile changes them.
\<close>

record ('w, 'e, 'd) write_lib =
  wl_protobuf :: protobuf
  wl_zstd :: zstd_lib
  wl_stream :: "('e, 'd) stream_lib"
  wl_shared :: "nat \<Rightarrow> client_compression \<times> bool"
  wl_write :: "bytes list \<Rightarrow> ('w, unit) io"

record ('w, 'e) writer =
  wr_send :: 'w
  wr_available :: usize
  wr_encoder :: "'e message_encoder"
  wr_encoded :: nat

definition encode_next ::
  "('w, 'e, 'd) write_lib \<Rightarrow> bytes \<Rightarrow> (('w, 'e, 'z) writer_scheme, u64 \<times> bytes) io" where
  "encode_next W body w =
     (case wl_shared W (wr_encoded w) of
        (connection, enabled) \<Rightarrow>
          map_option (\<lambda>(frame, available, m).
            (Inr frame, w\<lparr>wr_available := available, wr_encoder := m, wr_encoded := wr_encoded w + 1\<rparr>))
            (message_encode (wl_zstd W) (wl_stream W) connection enabled body (wr_available w)
               (wr_encoder w)))"

subsection \<open>Chunks\<close>

definition COALESCE_MAX :: nat where
  "COALESCE_MAX = 2048"

record frame_chunks =
  fc_scratch :: bytes
  fc_chunks :: "bytes list"
  fc_max_frame_size :: usize

text \<open>The capacity of the scratch buffer is not visible: a buffer grows when it is full.\<close>

definition with_capacity :: "usize \<Rightarrow> usize \<Rightarrow> frame_chunks" where
  "with_capacity max_frame_size scratch =
     \<lparr>fc_scratch = [], fc_chunks = [], fc_max_frame_size = max_frame_size\<rparr>"

definition scratch_len :: "usize \<Rightarrow> usize" where
  "scratch_len len =
     (if len \<le> COALESCE_MAX then saturating_add len MAX_FRAME_HEADER_LEN else MAX_FRAME_HEADER_LEN)"

definition seal_scratch :: "frame_chunks \<Rightarrow> frame_chunks" where
  "seal_scratch c =
     (if fc_scratch c \<noteq> [] then c\<lparr>fc_chunks := fc_chunks c @ [fc_scratch c], fc_scratch := []\<rparr> else c)"

definition chunks_protobuf :: "('m \<Rightarrow> bytes) \<Rightarrow> u64 \<Rightarrow> 'm \<Rightarrow> frame_chunks \<Rightarrow> frame_chunks result" where
  "chunks_protobuf enc frame_type message c =
     and_then (put_protobuf_frame enc (fc_scratch c) frame_type message (fc_max_frame_size c))
       (\<lambda>scratch. Inr (c\<lparr>fc_scratch := scratch\<rparr>))"

definition chunks_message ::
  "('w, 'e, 'd) write_lib \<Rightarrow> bytes \<Rightarrow> frame_chunks \<Rightarrow> (('w, 'e, 'z) writer_scheme, frame_chunks) io" where
  "chunks_message W body c =
     io_bind (io_lift (validate_payload_len (length body) (fc_max_frame_size c))) (\<lambda>_.
     io_bind (encode_next W body) (\<lambda>(frame_type, body).
     io_bind (io_lift (put_frame_header (fc_scratch c) frame_type (length body) (fc_max_frame_size c)))
       (\<lambda>scratch.
       io_ret
         (if length body \<le> COALESCE_MAX then c\<lparr>fc_scratch := scratch @ body\<rparr>
          else
            (let c = seal_scratch (c\<lparr>fc_scratch := scratch\<rparr>) in
             c\<lparr>fc_chunks := fc_chunks c @ [body]\<rparr>)))))"

fun chunks_response_frame ::
  "('w, 'e, 'd) write_lib \<Rightarrow> response_frame \<Rightarrow> frame_chunks \<Rightarrow>
   (('w, 'e, 'z) writer_scheme, frame_chunks) io" where
  "chunks_response_frame W (Message body) c = chunks_message W body c"
| "chunks_response_frame W (Headers metadata) c =
     io_lift (chunks_protobuf (pb_headers (wl_protobuf W)) HEADERS \<lparr>hd_metadata = metadata\<rparr> c)"
| "chunks_response_frame W (Status status) c =
     io_lift (chunks_protobuf (pb_status (wl_protobuf W)) STATUS (rpc_status_from_status status) c)"

definition chunks_write ::
  "('w, 'e, 'd) write_lib \<Rightarrow> frame_chunks \<Rightarrow> (('w, 'e, 'z) writer_scheme, unit) io" where
  "chunks_write W c w =
     map_option (\<lambda>(r, send). (r, w\<lparr>wr_send := send\<rparr>)) (wl_write W (fc_chunks (seal_scratch c)) (wr_send w))"

text \<open>The loops that add one frame after the other.\<close>

fun chunks_all ::
  "('f \<Rightarrow> frame_chunks \<Rightarrow> ('s, frame_chunks) io) \<Rightarrow> 'f list \<Rightarrow> frame_chunks \<Rightarrow> ('s, frame_chunks) io" where
  "chunks_all add [] c = io_ret c"
| "chunks_all add (f # fs) c = io_bind (add f c) (chunks_all add fs)"

subsection \<open>The response half\<close>

definition FRAME_ESTIMATE :: nat where
  "FRAME_ESTIMATE = 64"

text \<open>\<open>ResponseCodec\<close>: the writer's encoder, and the call's ANSWER until it is written.\<close>

record ('w, 'e) responder = "('w, 'e) writer" +
  rc_answer :: "rpc_answer option"

fun frame_estimate :: "response_frame \<Rightarrow> usize" where
  "frame_estimate (Message body) = scratch_len (length body)"
| "frame_estimate (Headers _) = FRAME_ESTIMATE"
| "frame_estimate (Status _) = FRAME_ESTIMATE"

definition write_response_frames ::
  "('w, 'e, 'd) write_lib \<Rightarrow> response_frame list \<Rightarrow> usize \<Rightarrow> (('w, 'e) responder, unit) io" where
  "write_response_frames W frames max_frame_size w =
     (let taken = (frames = [] \<or> \<not> list_all is_status frames);
          answer = (if taken then rc_answer w else None);
          w = (if taken then w\<lparr>rc_answer := None\<rparr> else w) in
      if frames = [] \<and> answer = None then io_ret () w
      else
        (let scratch =
               foldl (\<lambda>n frame. saturating_add n (frame_estimate frame))
                 (if answer \<noteq> None then FRAME_ESTIMATE else 0) frames;
             chunks = with_capacity max_frame_size scratch in
         io_bind
           (case answer of
              Some answer \<Rightarrow> io_lift (chunks_protobuf (pb_answer (wl_protobuf W)) ANSWER answer chunks)
            | None \<Rightarrow> io_ret chunks) (\<lambda>chunks.
         io_bind (chunks_all (chunks_response_frame W) frames chunks) (chunks_write W)) w))"

subsection \<open>The request half\<close>

definition write_request ::
  "('w, 'e, 'd) write_lib \<Rightarrow> rpc_request \<Rightarrow> bytes list \<Rightarrow> usize \<Rightarrow> (('w, 'e) writer, unit) io" where
  "write_request W request messages max_frame_size =
     (let scratch =
            foldl (\<lambda>n message. saturating_add n (scratch_len (length message)))
              (saturating_add MAX_FRAME_HEADER_LEN (length (pb_request (wl_protobuf W) request)))
              messages;
          chunks = with_capacity max_frame_size scratch in
      io_bind (io_lift (chunks_protobuf (pb_request (wl_protobuf W)) REQUEST request chunks)) (\<lambda>chunks.
      io_bind (chunks_all (chunks_message W) messages chunks) (chunks_write W)))"

text \<open>\<open>write_unary_request\<close> encodes the message with an encoder of its own.\<close>

definition write_unary_request ::
  "('w, 'e, 'd) write_lib \<Rightarrow> rpc_request \<Rightarrow> bytes \<Rightarrow> usize \<Rightarrow> dict option \<Rightarrow> (('w, 'e) writer, unit) io" where
  "write_unary_request W request message max_frame_size compress w =
     write_request W request [message] max_frame_size
       (w\<lparr>wr_encoder := message_encoder_new (call_dict_from compress)\<rparr>)"

definition write_message_frames ::
  "('w, 'e, 'd) write_lib \<Rightarrow> bytes list \<Rightarrow> usize \<Rightarrow> (('w, 'e) writer, unit) io" where
  "write_message_frames W messages max_frame_size =
     (let scratch = foldl (\<lambda>n message. saturating_add n (scratch_len (length message))) 0 messages;
          chunks = with_capacity max_frame_size scratch in
      io_bind (chunks_all (chunks_message W) messages chunks) (chunks_write W))"

text \<open>Polling the caller's requests once each, and awaiting the next one.\<close>

fun take_ready_messages :: "request_stream \<Rightarrow> bytes list \<Rightarrow> bool result \<times> bytes list \<times> request_stream" where
  "take_ready_messages [] batch = (Inr False, batch, [])"
| "take_ready_messages (polled # polls) batch =
     (if length batch < MESSAGE_FRAME_BATCH then
        (case polled of
           Ready (Some (Inr body)) \<Rightarrow> take_ready_messages polls (batch @ [body])
         | Ready (Some (Inl e)) \<Rightarrow> (Inl e, batch, polls)
         | Ready None \<Rightarrow> (Inr True, batch, polls)
         | Pending \<Rightarrow> (Inr False, batch, polls))
      else (Inr False, batch, polled # polls))"

fun await_request :: "request_stream \<Rightarrow> ((error + bytes) option \<times> request_stream) option" where
  "await_request [] = None"
| "await_request (Pending # polls) = await_request polls"
| "await_request (Ready item # polls) = Some (item, polls)"

partial_function (option) write_requests_loop ::
  "('w, 'e, 'd) write_lib \<Rightarrow> usize \<Rightarrow> bool \<Rightarrow> request_stream \<Rightarrow> ('w, 'e) writer \<Rightarrow>
   (unit result \<times> ('w, 'e) writer) option" where
  "write_requests_loop W max_frame_size finished body w =
     (if finished then io_ret () w
      else
        (case await_request body of
           None \<Rightarrow> None
         | Some (None, _) \<Rightarrow> io_ret () w
         | Some (Some (Inl e), _) \<Rightarrow> io_err e w
         | Some (Some (Inr message), body) \<Rightarrow>
             (case take_ready_messages body [message] of
                (Inl e, _) \<Rightarrow> io_err e w
              | (Inr finished, batch, body) \<Rightarrow>
                  io_bind (write_message_frames W batch max_frame_size) (\<lambda>_.
                    write_requests_loop W max_frame_size finished body) w)))"

definition write_request_stream ::
  "('w, 'e, 'd) write_lib \<Rightarrow> rpc_request \<Rightarrow> request_stream \<Rightarrow> usize \<Rightarrow> (('w, 'e) writer, unit) io" where
  "write_request_stream W request body max_frame_size =
     (case take_ready_messages body [] of
        (Inl e, _) \<Rightarrow> io_err e
      | (Inr finished, batch, body) \<Rightarrow>
          io_bind (write_request W request batch max_frame_size) (\<lambda>_.
            write_requests_loop W max_frame_size finished body))"

subsection \<open>Send streams\<close>

text \<open>The writer of an HTTP body, which writes chunk by chunk, and the in-memory writer.\<close>

fun body_write :: "(bytes \<Rightarrow> ('w, unit) io) \<Rightarrow> bytes list \<Rightarrow> ('w, unit) io" where
  "body_write write_chunk [] = io_ret ()"
| "body_write write_chunk (chunk # chunks) =
     io_bind (write_chunk chunk) (\<lambda>_. body_write write_chunk chunks)"

definition sink_write :: "bytes list \<Rightarrow> (bytes list, unit) io" where
  "sink_write chunks sink = Some (Inr (), sink @ [concat chunks])"

subsection \<open>Specification\<close>

text \<open>What a write puts on the wire: the frames it was given, however they were cut into chunks.\<close>

definition chunks_bytes :: "frame_chunks \<Rightarrow> bytes" where
  "chunks_bytes c = concat (fc_chunks c) @ fc_scratch c"

definition wire_bytes :: "(u64 \<times> bytes) list \<Rightarrow> bytes" where
  "wire_bytes frames = concat (map frame_bytes frames)"

definition dict_at :: "('w, 'e, 'd) write_lib \<Rightarrow> 'e message_encoder \<Rightarrow> nat \<Rightarrow> dict option" where
  "dict_at W m n = call_dict_get (fst (wl_shared W n)) (me_dict m)"

fun message_frames ::
  "('w, 'e, 'd) write_lib \<Rightarrow> 'e message_encoder \<Rightarrow> nat \<Rightarrow> bytes list \<Rightarrow> (u64 \<times> bytes) list" where
  "message_frames W m n [] = []"
| "message_frames W m n (body # bodies) =
     message_frame (wl_zstd W) (dict_at W m n) body # message_frames W m (n + 1) bodies"

fun response_frames ::
  "('w, 'e, 'd) write_lib \<Rightarrow> 'e message_encoder \<Rightarrow> nat \<Rightarrow> response_frame list \<Rightarrow> (u64 \<times> bytes) list" where
  "response_frames W m n [] = []"
| "response_frames W m n (Message body # frames) =
     message_frame (wl_zstd W) (dict_at W m n) body # response_frames W m (n + 1) frames"
| "response_frames W m n (Headers metadata # frames) =
     (HEADERS, pb_headers (wl_protobuf W) \<lparr>hd_metadata = metadata\<rparr>) # response_frames W m n frames"
| "response_frames W m n (Status status # frames) =
     (STATUS, pb_status (wl_protobuf W) (rpc_status_from_status status)) # response_frames W m n frames"

fun frame_fits :: "protobuf \<Rightarrow> usize \<Rightarrow> response_frame \<Rightarrow> bool" where
  "frame_fits P limit (Message body) \<longleftrightarrow> length body \<le> limit"
| "frame_fits P limit (Headers metadata) \<longleftrightarrow> length (pb_headers P \<lparr>hd_metadata = metadata\<rparr>) \<le> limit"
| "frame_fits P limit (Status status) \<longleftrightarrow> length (pb_status P (rpc_status_from_status status)) \<le> limit"

fun message_count_of :: "response_frame list \<Rightarrow> nat" where
  "message_count_of [] = 0"
| "message_count_of (Message _ # frames) = message_count_of frames + 1"
| "message_count_of (_ # frames) = message_count_of frames"

text \<open>
  The frames of a sequence of response writes. The call's ANSWER is taken by the first write that has
  anything but statuses, or nothing at all.
\<close>

definition takes_answer :: "response_frame list \<Rightarrow> bool" where
  "takes_answer frames \<longleftrightarrow> frames = [] \<or> \<not> list_all is_status frames"

definition answer_frames :: "('w, 'e, 'd) write_lib \<Rightarrow> rpc_answer option \<Rightarrow> (u64 \<times> bytes) list" where
  "answer_frames W answer =
     (case answer of None \<Rightarrow> [] | Some answer \<Rightarrow> [(ANSWER, pb_answer (wl_protobuf W) answer)])"

fun write_batches ::
  "('w, 'e, 'd) write_lib \<Rightarrow> usize \<Rightarrow> response_frame list list \<Rightarrow> (('w, 'e) responder, unit) io" where
  "write_batches W limit [] = io_ret ()"
| "write_batches W limit (frames # batches) =
     io_bind (write_response_frames W frames limit) (\<lambda>_. write_batches W limit batches)"

fun batch_frames ::
  "('w, 'e, 'd) write_lib \<Rightarrow> 'e message_encoder \<Rightarrow> nat \<Rightarrow> rpc_answer option \<Rightarrow> response_frame list list \<Rightarrow>
   (u64 \<times> bytes) list" where
  "batch_frames W m n answer [] = []"
| "batch_frames W m n answer (frames # batches) =
     (let taken = takes_answer frames in
      answer_frames W (if taken then answer else None) @ response_frames W m n frames @
      batch_frames W m (n + message_count_of frames) (if taken then None else answer) batches)"

text \<open>A stream of requests that yields the messages and then ends.\<close>

definition ends_after :: "request_stream \<Rightarrow> bytes list \<Rightarrow> bool" where
  "ends_after polls messages \<longleftrightarrow> None \<in> set (yields polls) \<and> stream_items polls = map Inr messages"

text \<open>
  What the runtime relies on of a send stream that stays open: a write returns, and what it was given
  is what the peer will read, after what was written before.
\<close>

locale frame_write =
  fixes send_chunks :: "bytes list \<Rightarrow> ('w, unit) io" and accepting :: "'w \<Rightarrow> bool" and sent :: "'w \<Rightarrow> bytes"
  assumes write_step: "accepting w \<Longrightarrow>
    \<exists>w'. send_chunks chunks w = Some (Inr (), w') \<and> accepting w' \<and> sent w' = sent w @ concat chunks"

locale body_sink =
  fixes write_chunk :: "bytes \<Rightarrow> ('w, unit) io" and accepting :: "'w \<Rightarrow> bool" and sent :: "'w \<Rightarrow> bytes"
  assumes chunk_step: "accepting w \<Longrightarrow>
    \<exists>w'. write_chunk chunk w = Some (Inr (), w') \<and> accepting w' \<and> sent w' = sent w @ chunk"

subsection \<open>Properties\<close>

lemma message_frames_append:
  "message_frames W m n (xs @ ys) = message_frames W m n xs @ message_frames W m (n + length xs) ys"
  by (induction xs arbitrary: n) simp_all

lemma wire_bytes_simps [simp]:
  "wire_bytes [] = []" "wire_bytes (f # fs) = frame_bytes f @ wire_bytes fs"
  "wire_bytes (fs @ gs) = wire_bytes fs @ wire_bytes gs"
  by (simp_all add: wire_bytes_def)

lemma chunks_bytes_simps [simp]:
  "chunks_bytes (with_capacity limit n) = []"
  "chunks_bytes (c\<lparr>fc_scratch := s\<rparr>) = concat (fc_chunks c) @ s"
  "chunks_bytes (seal_scratch c) = chunks_bytes c"
  "concat (fc_chunks (seal_scratch c)) = chunks_bytes c"
  "fc_scratch (seal_scratch c) = []"
  "fc_max_frame_size (seal_scratch c) = fc_max_frame_size c"
  "fc_max_frame_size (with_capacity limit n) = limit"
  by (simp_all add: chunks_bytes_def with_capacity_def seal_scratch_def)

lemma push_small:
  assumes "v \<le> VARINT_MAX"
  shows "push out v = Inr (push_ignored out v)"
    "push_ignored out v = out @ push_ignored [] v"
proof -
  have "push out v = Inr (out @ bs)" if "push [] v = Inr bs" for bs
    using that by (auto simp: push_def Let_def and_then_Inr_iff split: if_splits)
  moreover obtain bs where "push [] v = Inr bs"
    using push_ok_iff [of "[]" v] assms by (auto simp: is_ok_iff)
  ultimately show "push out v = Inr (push_ignored out v)" "push_ignored out v = out @ push_ignored [] v"
    by (simp_all add: push_ignored_def)
qed

lemma known_small: "frame_type \<le> ANSWER \<Longrightarrow> frame_type \<le> VARINT_MAX"
  by (rule order_trans [of _ ANSWER]) (simp_all add: ANSWER_def VARINT_MAX_def)

lemma length_small: "n < 2 ^ 62 \<Longrightarrow> (of_nat n :: u64) \<le> VARINT_MAX"
  by (simp add: VARINT_MAX_def word_le_nat_alt unat_of_nat)

lemma put_frame_header_ok:
  assumes "frame_type \<le> ANSWER" "length payload \<le> limit" "limit < 2 ^ 62"
  obtains header where "put_frame_header out frame_type (length payload) limit = Inr header"
    "header @ payload = out @ frame_bytes (frame_type, payload)"
proof -
  have small: "frame_type \<le> VARINT_MAX" "(of_nat (length payload) :: u64) \<le> VARINT_MAX"
    using assms by (auto intro: known_small length_small)
  then show thesis
    using that assms(2) push_small(1) [OF small(1)] push_small(1) [OF small(2)]
      push_small(2) [OF small(1), of out] push_small(2) [OF small(2), of "push_ignored out frame_type"]
      push_small(2) [OF small(2), of "push_ignored [] frame_type"]
    by (simp add: put_frame_header_def validate_payload_len_def frame_bytes_def put_message_frame_def)
qed

lemma encode_frame_ok:
  assumes "frame_type \<le> ANSWER" "length payload \<le> limit" "limit < 2 ^ 62"
  shows "encode_frame frame_type payload limit = Inr (frame_bytes (frame_type, payload))"
proof -
  from put_frame_header_ok [OF assms, of "[]"] obtain header where
    "put_frame_header [] frame_type (length payload) limit = Inr header"
    "header @ payload = [] @ frame_bytes (frame_type, payload)" .
  then show ?thesis by (simp add: encode_frame_def)
qed

lemma chunks_protobuf_ok:
  assumes "frame_type \<le> ANSWER" "length (enc m) \<le> fc_max_frame_size c" "fc_max_frame_size c < 2 ^ 62"
  obtains c' where "chunks_protobuf enc frame_type m c = Inr c'"
    "fc_max_frame_size c' = fc_max_frame_size c" "chunks_bytes c' = chunks_bytes c @ frame_bytes (frame_type, enc m)"
proof -
  from put_frame_header_ok [OF assms, of "fc_scratch c"] obtain header where
    "put_frame_header (fc_scratch c) frame_type (length (enc m)) (fc_max_frame_size c) = Inr header"
    "header @ enc m = fc_scratch c @ frame_bytes (frame_type, enc m)" .
  then show thesis
    by (intro that [of "c\<lparr>fc_scratch := header @ enc m\<rparr>"])
      (simp_all add: chunks_protobuf_def put_protobuf_frame_def chunks_bytes_def)
qed

lemma encode_next_per_message:
  assumes "me_stream (wr_encoder w) = None"
  shows "encode_next W body w =
    Some (Inr (message_frame (wl_zstd W) (dict_at W (wr_encoder w) (wr_encoded w)) body),
      w\<lparr>wr_encoded := wr_encoded w + 1\<rparr>)"
  using assms
  by (simp add: encode_next_def message_encode_def message_frame_def dict_at_def split: prod.splits)

lemma dict_compress_shorter: "dict_compress Z d body = Some payload \<Longrightarrow> length payload < length body"
  by (auto simp: dict_compress_def split: if_split_asm sum.splits)

lemma message_frame_bounds:
  "fst (message_frame Z d body) \<le> ANSWER" "length (snd (message_frame Z d body)) \<le> length body"
  by (auto simp: message_frame_def frame_type_defs bind_eq_Some_conv less_imp_le
      split: option.splits dest: dict_compress_shorter)

lemma chunks_message_ok:
  assumes "length body \<le> fc_max_frame_size c" "fc_max_frame_size c < 2 ^ 62" "me_stream (wr_encoder w) = None"
  obtains c' where "chunks_message W body c w = Some (Inr c', w\<lparr>wr_encoded := wr_encoded w + 1\<rparr>)"
    "fc_max_frame_size c' = fc_max_frame_size c"
    "chunks_bytes c' = chunks_bytes c @
       frame_bytes (message_frame (wl_zstd W) (dict_at W (wr_encoder w) (wr_encoded w)) body)"
proof -
  let ?f = "message_frame (wl_zstd W) (dict_at W (wr_encoder w) (wr_encoded w)) body"
  obtain ty payload where f: "?f = (ty, payload)" by (rule prod.exhaust)
  have "ty \<le> ANSWER" "length payload \<le> fc_max_frame_size c"
    using message_frame_bounds [of "wl_zstd W" "dict_at W (wr_encoder w) (wr_encoded w)" body] assms(1) f by simp_all
  from put_frame_header_ok [OF this assms(2), of "fc_scratch c"] obtain header where
    header: "put_frame_header (fc_scratch c) ty (length payload) (fc_max_frame_size c) = Inr header"
    "header @ payload = fc_scratch c @ frame_bytes (ty, payload)" .
  define c' where "c' = (if length payload \<le> COALESCE_MAX then c\<lparr>fc_scratch := header @ payload\<rparr>
     else let c = seal_scratch (c\<lparr>fc_scratch := header\<rparr>) in c\<lparr>fc_chunks := fc_chunks c @ [payload]\<rparr>)"
  show thesis
  proof (rule that)
    show "chunks_message W body c w = Some (Inr c', w\<lparr>wr_encoded := wr_encoded w + 1\<rparr>)"
      using assms(1) f header(1)
      by (simp add: chunks_message_def validate_payload_len_def encode_next_per_message [OF assms(3)] c'_def
          io_lift_def io_ret_def)
    show "fc_max_frame_size c' = fc_max_frame_size c" by (simp add: c'_def Let_def)
    show "chunks_bytes c' = chunks_bytes c @ frame_bytes ?f"
      using header(2) f by (auto simp: c'_def Let_def chunks_bytes_def seal_scratch_def)
  qed
qed

lemma chunks_all_messages:
  assumes "\<forall>body \<in> set bodies. length body \<le> fc_max_frame_size c" "fc_max_frame_size c < 2 ^ 62"
    "me_stream (wr_encoder w) = None"
  shows "\<exists>c'. chunks_all (chunks_message W) bodies c w =
      Some (Inr c', w\<lparr>wr_encoded := wr_encoded w + length bodies\<rparr>) \<and>
    chunks_bytes c' = chunks_bytes c @ wire_bytes (message_frames W (wr_encoder w) (wr_encoded w) bodies)"
  using assms
proof (induction bodies arbitrary: c w)
  case Nil
  then show ?case by (simp add: io_defs)
next
  case (Cons body bodies)
  from Cons.prems have "length body \<le> fc_max_frame_size c" by simp
  from chunks_message_ok [OF this Cons.prems(2,3)] obtain c1 where
    c1: "chunks_message W body c w = Some (Inr c1, w\<lparr>wr_encoded := wr_encoded w + 1\<rparr>)"
    "fc_max_frame_size c1 = fc_max_frame_size c" "chunks_bytes c1 = chunks_bytes c @
       frame_bytes (message_frame (wl_zstd W) (dict_at W (wr_encoder w) (wr_encoded w)) body)" .
  with Cons.IH [of c1 "w\<lparr>wr_encoded := wr_encoded w + 1\<rparr>"] Cons.prems show ?case by auto
qed

lemma chunks_all_responses:
  assumes "list_all (frame_fits (wl_protobuf W) (fc_max_frame_size c)) frames" "fc_max_frame_size c < 2 ^ 62"
    "me_stream (wr_encoder w) = None"
  shows "\<exists>c'. chunks_all (chunks_response_frame W) frames c w =
      Some (Inr c', w\<lparr>wr_encoded := wr_encoded w + message_count_of frames\<rparr>) \<and>
    chunks_bytes c' = chunks_bytes c @ wire_bytes (response_frames W (wr_encoder w) (wr_encoded w) frames)"
  using assms
proof (induction frames arbitrary: c w)
  case Nil
  then show ?case by (simp add: io_defs)
next
  case (Cons frame frames)
  have known: "HEADERS \<le> ANSWER" "STATUS \<le> ANSWER" by (simp_all add: frame_type_defs)
  show ?case
  proof (cases frame)
    case (Message body)
    with Cons.prems have "length body \<le> fc_max_frame_size c" by simp
    from chunks_message_ok [OF this Cons.prems(2,3)] obtain c1 where
      c1: "chunks_message W body c w = Some (Inr c1, w\<lparr>wr_encoded := wr_encoded w + 1\<rparr>)"
      "fc_max_frame_size c1 = fc_max_frame_size c" "chunks_bytes c1 = chunks_bytes c @
         frame_bytes (message_frame (wl_zstd W) (dict_at W (wr_encoder w) (wr_encoded w)) body)" .
    with Cons.IH [of c1 "w\<lparr>wr_encoded := wr_encoded w + 1\<rparr>"] Cons.prems Message show ?thesis by auto
  next
    case (Headers metadata)
    with Cons.prems have "length (pb_headers (wl_protobuf W) \<lparr>hd_metadata = metadata\<rparr>) \<le> fc_max_frame_size c"
      by simp
    from chunks_protobuf_ok [where enc = "pb_headers (wl_protobuf W)", OF known(1) this Cons.prems(2)] obtain c1 where
      "chunks_protobuf (pb_headers (wl_protobuf W)) HEADERS \<lparr>hd_metadata = metadata\<rparr> c = Inr c1"
      "fc_max_frame_size c1 = fc_max_frame_size c" "chunks_bytes c1 = chunks_bytes c @
         frame_bytes (HEADERS, pb_headers (wl_protobuf W) \<lparr>hd_metadata = metadata\<rparr>)" .
    with Cons.IH [of c1 w] Cons.prems Headers show ?thesis by (simp add: io_lift_def)
  next
    case (Status status)
    with Cons.prems have "length (pb_status (wl_protobuf W) (rpc_status_from_status status)) \<le> fc_max_frame_size c"
      by simp
    from chunks_protobuf_ok [where enc = "pb_status (wl_protobuf W)", OF known(2) this Cons.prems(2)] obtain c1 where
      "chunks_protobuf (pb_status (wl_protobuf W)) STATUS (rpc_status_from_status status) c = Inr c1"
      "fc_max_frame_size c1 = fc_max_frame_size c" "chunks_bytes c1 = chunks_bytes c @
         frame_bytes (STATUS, pb_status (wl_protobuf W) (rpc_status_from_status status))" .
    with Cons.IH [of c1 w] Cons.prems Status show ?thesis by (simp add: io_lift_def)
  qed
qed

lemma ends_after_simps [simp]:
  "\<not> ends_after [] messages"
  "ends_after (Pending # polls) messages \<longleftrightarrow> ends_after polls messages"
  "ends_after (Ready None # polls) messages \<longleftrightarrow> messages = []"
  "\<not> ends_after (Ready (Some (Inl e)) # polls) messages"
  "ends_after (Ready (Some (Inr body)) # polls) messages \<longleftrightarrow>
     (\<exists>rest. messages = body # rest \<and> ends_after polls rest)"
  by (cases messages; auto simp: ends_after_def)+

lemma ends_after_cases:
  assumes "ends_after (polled # polls) messages"
  obtains (pending) "polled = Pending" "ends_after polls messages"
  | (ended) "polled = Ready None" "messages = []"
  | (item) body rest where "polled = Ready (Some (Inr body))" "messages = body # rest" "ends_after polls rest"
proof (cases polled)
  case (Ready x)
  show thesis
  proof (cases x)
    case (Some y)
    show thesis using item assms Ready Some by (cases y) auto
  qed (use ended assms Ready in auto)
qed (use pending assms in auto)

lemma take_ready_messages_ok:
  assumes "ends_after polls messages"
  shows "\<exists>fin new rest polls'. take_ready_messages polls batch = (Inr fin, batch @ new, polls') \<and>
    messages = new @ rest \<and> (if fin then rest = [] else ends_after polls' rest) \<and>
    length polls' \<le> length polls"
  using assms
proof (induction polls arbitrary: batch messages)
  case (Cons polled polls)
  show ?case
  proof (cases "length batch < MESSAGE_FRAME_BATCH")
    case False
    with Cons.prems show ?thesis by (auto intro: exI [of _ False])
  next
    case True
    from Cons.prems show ?thesis
    proof (cases rule: ends_after_cases)
      case (item body rest)
      from Cons.IH [OF item(3), of "batch @ [body]"] obtain fin new rest' polls' where
        "take_ready_messages polls (batch @ [body]) = (Inr fin, (batch @ [body]) @ new, polls')"
        "rest = new @ rest'" "if fin then rest' = [] else ends_after polls' rest'" "length polls' \<le> length polls"
        by blast
      with item True show ?thesis
        by (intro exI [of _ fin] exI [of _ "body # new"] exI [of _ rest'] exI [of _ polls']) simp
    qed (use True in \<open>auto intro: exI [of _ True] exI [of _ False]\<close>)
  qed
qed simp

lemma await_request_ok:
  assumes "ends_after polls messages"
  shows "(\<exists>polls'. messages = [] \<and> await_request polls = Some (None, polls')) \<or>
    (\<exists>body rest polls'. messages = body # rest \<and> await_request polls = Some (Some (Inr body), polls') \<and>
       ends_after polls' rest \<and> length polls' < length polls)"
  using assms
  by (induction polls rule: await_request.induct) (auto elim!: ends_after_cases)

text \<open>The writers over any send stream that stays open.\<close>

locale frame_writer = frame_write "wl_write W" accepting sent
  for W :: "('w, 'e, 'd) write_lib" and accepting :: "'w \<Rightarrow> bool" and sent :: "'w \<Rightarrow> bytes"
begin

lemma chunks_write_ok:
  assumes "accepting (wr_send w)"
  obtains send where "chunks_write W c w = Some (Inr (), w\<lparr>wr_send := send\<rparr>)" "accepting send"
    "sent send = sent (wr_send w) @ chunks_bytes c"
  using write_step [OF assms, of "fc_chunks (seal_scratch c)"] by (auto simp: chunks_write_def)

lemma write_message_frames_ok:
  assumes "\<forall>body \<in> set bodies. length body \<le> limit" "limit < 2 ^ 62" "me_stream (wr_encoder w) = None"
    "accepting (wr_send w)"
  obtains send where "write_message_frames W bodies limit w =
      Some (Inr (), w\<lparr>wr_encoded := wr_encoded w + length bodies, wr_send := send\<rparr>)" "accepting send"
    "sent send = sent (wr_send w) @ wire_bytes (message_frames W (wr_encoder w) (wr_encoded w) bodies)"
proof -
  define c where "c = with_capacity limit
    (foldl (\<lambda>n message. saturating_add n (scratch_len (length message))) 0 bodies)"
  from chunks_all_messages [of bodies c w W] assms obtain c' where
    c': "chunks_all (chunks_message W) bodies c w =
      Some (Inr c', w\<lparr>wr_encoded := wr_encoded w + length bodies\<rparr>)"
    "chunks_bytes c' = wire_bytes (message_frames W (wr_encoder w) (wr_encoded w) bodies)"
    by (auto simp: c_def)
  from chunks_write_ok [of "w\<lparr>wr_encoded := wr_encoded w + length bodies\<rparr>" c'] assms(4) obtain send where
    "chunks_write W c' (w\<lparr>wr_encoded := wr_encoded w + length bodies\<rparr>) =
      Some (Inr (), w\<lparr>wr_encoded := wr_encoded w + length bodies, wr_send := send\<rparr>)"
    "accepting send" "sent send = sent (wr_send w) @ chunks_bytes c'" by auto
  with c' show thesis
    by (intro that [of send]) (simp_all add: write_message_frames_def Let_def flip: c_def)
qed

lemma write_request_ok:
  assumes "\<forall>body \<in> set bodies. length body \<le> limit" "length (pb_request (wl_protobuf W) request) \<le> limit"
    "limit < 2 ^ 62" "me_stream (wr_encoder w) = None" "accepting (wr_send w)"
  obtains send where "write_request W request bodies limit w =
      Some (Inr (), w\<lparr>wr_encoded := wr_encoded w + length bodies, wr_send := send\<rparr>)" "accepting send"
    "sent send = sent (wr_send w) @ wire_bytes ((REQUEST, pb_request (wl_protobuf W) request) #
       message_frames W (wr_encoder w) (wr_encoded w) bodies)"
proof -
  define c where "c = with_capacity limit
    (foldl (\<lambda>n message. saturating_add n (scratch_len (length message)))
       (saturating_add MAX_FRAME_HEADER_LEN (length (pb_request (wl_protobuf W) request))) bodies)"
  have limits: "REQUEST \<le> ANSWER" "length (pb_request (wl_protobuf W) request) \<le> fc_max_frame_size c"
    "fc_max_frame_size c < 2 ^ 62"
    using assms(2,3) by (simp_all add: c_def frame_type_defs)
  from chunks_protobuf_ok [where enc = "pb_request (wl_protobuf W)", OF limits] obtain c1 where
    c1: "chunks_protobuf (pb_request (wl_protobuf W)) REQUEST request c = Inr c1" "fc_max_frame_size c1 = limit"
    "chunks_bytes c1 = frame_bytes (REQUEST, pb_request (wl_protobuf W) request)"
    by (auto simp: c_def)
  from chunks_all_messages [of bodies c1 w W] assms c1 obtain c' where
    c': "chunks_all (chunks_message W) bodies c1 w =
      Some (Inr c', w\<lparr>wr_encoded := wr_encoded w + length bodies\<rparr>)"
    "chunks_bytes c' = frame_bytes (REQUEST, pb_request (wl_protobuf W) request) @
       wire_bytes (message_frames W (wr_encoder w) (wr_encoded w) bodies)"
    by auto
  from chunks_write_ok [of "w\<lparr>wr_encoded := wr_encoded w + length bodies\<rparr>" c'] assms(5) obtain send where
    "chunks_write W c' (w\<lparr>wr_encoded := wr_encoded w + length bodies\<rparr>) =
      Some (Inr (), w\<lparr>wr_encoded := wr_encoded w + length bodies, wr_send := send\<rparr>)"
    "accepting send" "sent send = sent (wr_send w) @ chunks_bytes c'" by auto
  with c1 c' show thesis
    by (intro that [of send]) (simp_all add: write_request_def Let_def io_lift_def flip: c_def)
qed

lemma write_requests_loop_ok:
  assumes "if fin then messages = [] else ends_after body messages"
    and "\<forall>m \<in> set messages. length m \<le> limit" "limit < 2 ^ 62" "me_stream (wr_encoder w) = None"
    "accepting (wr_send w)"
  shows "\<exists>send. write_requests_loop W limit fin body w =
      Some (Inr (), w\<lparr>wr_encoded := wr_encoded w + length messages, wr_send := send\<rparr>) \<and> accepting send \<and>
    sent send = sent (wr_send w) @ wire_bytes (message_frames W (wr_encoder w) (wr_encoded w) messages)"
  using assms
proof (induction "length body" arbitrary: fin body w messages rule: less_induct)
  case less
  show ?case
  proof (cases fin)
    case True
    with less.prems show ?thesis
      by (intro exI [of _ "wr_send w"]) (simp add: write_requests_loop.simps [of W limit _ body w] io_ret_def)
  next
    case False
    with less.prems(1) have "ends_after body messages" by simp
    from await_request_ok [OF this] show ?thesis
    proof (elim disjE exE conjE)
      fix polls'
      assume "messages = []" "await_request body = Some (None, polls')"
      with False less.prems show ?thesis
        by (intro exI [of _ "wr_send w"]) (simp add: write_requests_loop.simps [of W limit _ body w] io_ret_def)
    next
      fix m rest polls
      assume m: "messages = m # rest" "await_request body = Some (Some (Inr m), polls)" "ends_after polls rest"
        "length polls < length body"
      from take_ready_messages_ok [OF m(3), of "[m]"] obtain fin' new rest' polls' where
        taken: "take_ready_messages polls [m] = (Inr fin', [m] @ new, polls')" "rest = new @ rest'"
        "if fin' then rest' = [] else ends_after polls' rest'" "length polls' \<le> length polls" by blast
      have "\<forall>b \<in> set ([m] @ new). length b \<le> limit" using less.prems(2) m(1) taken(2) by simp
      from write_message_frames_ok [OF this less.prems(3,4,5)] obtain send where
        step: "write_message_frames W ([m] @ new) limit w =
          Some (Inr (), w\<lparr>wr_encoded := wr_encoded w + length ([m] @ new), wr_send := send\<rparr>)" "accepting send"
        "sent send = sent (wr_send w) @ wire_bytes (message_frames W (wr_encoder w) (wr_encoded w) ([m] @ new))" .
      define w1 where "w1 = w\<lparr>wr_encoded := wr_encoded w + length ([m] @ new), wr_send := send\<rparr>"
      have "\<exists>send. write_requests_loop W limit fin' polls' w1 =
          Some (Inr (), w1\<lparr>wr_encoded := wr_encoded w1 + length rest', wr_send := send\<rparr>) \<and> accepting send \<and>
        sent send = sent (wr_send w1) @ wire_bytes (message_frames W (wr_encoder w1) (wr_encoded w1) rest')"
        by (rule less.hyps) (use m taken less.prems step in \<open>simp_all add: w1_def\<close>)
      moreover have "write_requests_loop W limit fin body w = write_requests_loop W limit fin' polls' w1"
        using False m taken step
        by (simp add: write_requests_loop.simps [of W limit _ body w] w1_def)
      ultimately show ?thesis
        using m(1) taken(2) step(3) by (auto simp: w1_def message_frames_append add.assoc)
    qed
  qed
qed

lemma write_request_stream_ok:
  assumes "ends_after body messages" "\<forall>m \<in> set messages. length m \<le> limit"
    "length (pb_request (wl_protobuf W) request) \<le> limit" "limit < 2 ^ 62"
    "me_stream (wr_encoder w) = None" "accepting (wr_send w)"
  obtains send where "write_request_stream W request body limit w =
      Some (Inr (), w\<lparr>wr_encoded := wr_encoded w + length messages, wr_send := send\<rparr>)" "accepting send"
    "sent send = sent (wr_send w) @ wire_bytes ((REQUEST, pb_request (wl_protobuf W) request) #
       message_frames W (wr_encoder w) (wr_encoded w) messages)"
proof -
  from take_ready_messages_ok [OF assms(1), of "[]"] obtain fin new rest polls where
    taken: "take_ready_messages body [] = (Inr fin, new, polls)" "messages = new @ rest"
    "if fin then rest = [] else ends_after polls rest" by auto
  from taken(2) assms(2) have "\<forall>m \<in> set new. length m \<le> limit" by simp
  from write_request_ok [OF this assms(3-6)] obtain send where
    step: "write_request W request new limit w =
      Some (Inr (), w\<lparr>wr_encoded := wr_encoded w + length new, wr_send := send\<rparr>)" "accepting send"
    "sent send = sent (wr_send w) @ wire_bytes ((REQUEST, pb_request (wl_protobuf W) request) #
       message_frames W (wr_encoder w) (wr_encoded w) new)" .
  define w1 where "w1 = w\<lparr>wr_encoded := wr_encoded w + length new, wr_send := send\<rparr>"
  from write_requests_loop_ok [OF taken(3), of limit w1] assms taken(2) step obtain send' where
    loop: "write_requests_loop W limit fin polls w1 =
      Some (Inr (), w1\<lparr>wr_encoded := wr_encoded w1 + length rest, wr_send := send'\<rparr>)" "accepting send'"
    "sent send' = sent (wr_send w1) @ wire_bytes (message_frames W (wr_encoder w1) (wr_encoded w1) rest)"
    by (auto simp: w1_def)
  show thesis
  proof (rule that [of send'])
    show "write_request_stream W request body limit w =
        Some (Inr (), w\<lparr>wr_encoded := wr_encoded w + length messages, wr_send := send'\<rparr>)"
      using taken(1,2) step(1) loop(1) by (simp add: write_request_stream_def w1_def add.assoc)
  qed (use loop step taken(2) in \<open>simp_all add: w1_def message_frames_append\<close>)
qed

lemma write_response_frames_ok:
  assumes "list_all (frame_fits (wl_protobuf W) limit) frames" "limit < 2 ^ 62" "me_stream (wr_encoder w) = None"
    "accepting (wr_send w)" "\<forall>answer. rc_answer w = Some answer \<longrightarrow> length (pb_answer (wl_protobuf W) answer) \<le> limit"
  obtains send where "write_response_frames W frames limit w =
      Some (Inr (), w\<lparr>wr_encoded := wr_encoded w + message_count_of frames, wr_send := send,
        rc_answer := (if takes_answer frames then None else rc_answer w)\<rparr>)" "accepting send"
    "sent send = sent (wr_send w) @ wire_bytes (answer_frames W (if takes_answer frames then rc_answer w else None) @
       response_frames W (wr_encoder w) (wr_encoded w) frames)"
proof -
  define taken where "taken = (if takes_answer frames then rc_answer w else None)"
  define w1 where "w1 = (if takes_answer frames then w\<lparr>rc_answer := None\<rparr> else w)"
  define c where "c = with_capacity limit (foldl (\<lambda>n frame. saturating_add n (frame_estimate frame))
      (if taken \<noteq> None then FRAME_ESTIMATE else 0) frames)"
  have w1: "wr_send w1 = wr_send w" "wr_encoder w1 = wr_encoder w" "wr_encoded w1 = wr_encoded w"
    by (simp_all add: w1_def)
  have run: "write_response_frames W frames limit w =
      (if frames = [] \<and> taken = None then io_ret () w1
       else io_bind (case taken of Some answer \<Rightarrow> io_lift (chunks_protobuf (pb_answer (wl_protobuf W)) ANSWER answer c)
                      | None \<Rightarrow> io_ret c)
              (\<lambda>c. io_bind (chunks_all (chunks_response_frame W) frames c) (chunks_write W)) w1)"
    unfolding write_response_frames_def Let_def taken_def w1_def c_def takes_answer_def by (rule refl)
  obtain c1 where c1: "(case taken of Some answer \<Rightarrow> io_lift (chunks_protobuf (pb_answer (wl_protobuf W)) ANSWER answer c)
        | None \<Rightarrow> io_ret c) w1 = Some (Inr c1, w1)" "fc_max_frame_size c1 = limit"
    "chunks_bytes c1 = wire_bytes (answer_frames W taken)"
  proof (cases taken)
    case None
    show thesis by (rule that [of c]) (simp_all add: None io_ret_def c_def answer_frames_def)
  next
    case (Some answer)
    have "length (pb_answer (wl_protobuf W) answer) \<le> fc_max_frame_size c" "fc_max_frame_size c < 2 ^ 62"
      using Some assms(2,5) by (auto simp: taken_def c_def split: if_split_asm)
    from chunks_protobuf_ok [where enc = "pb_answer (wl_protobuf W)", OF order_refl this] obtain c' where
      "chunks_protobuf (pb_answer (wl_protobuf W)) ANSWER answer c = Inr c'" "fc_max_frame_size c' = fc_max_frame_size c"
      "chunks_bytes c' = chunks_bytes c @ frame_bytes (ANSWER, pb_answer (wl_protobuf W) answer)" .
    then show thesis by (intro that [of c']) (simp_all add: Some io_lift_def c_def answer_frames_def)
  qed
  from chunks_all_responses [of W c1 frames w1] assms c1(2) obtain c2 where
    c2: "chunks_all (chunks_response_frame W) frames c1 w1 =
      Some (Inr c2, w1\<lparr>wr_encoded := wr_encoded w + message_count_of frames\<rparr>)"
    "chunks_bytes c2 = chunks_bytes c1 @ wire_bytes (response_frames W (wr_encoder w) (wr_encoded w) frames)"
    by (auto simp: w1)
  have "accepting (wr_send (w1\<lparr>wr_encoded := wr_encoded w + message_count_of frames\<rparr>))"
    using assms(4) by (simp add: w1)
  from chunks_write_ok [OF this, of c2] obtain send where
    send: "chunks_write W c2 (w1\<lparr>wr_encoded := wr_encoded w + message_count_of frames\<rparr>) =
      Some (Inr (), w1\<lparr>wr_encoded := wr_encoded w + message_count_of frames, wr_send := send\<rparr>)"
    "accepting send" "sent send = sent (wr_send w) @ chunks_bytes c2" by (auto simp: w1)
  show thesis
  proof (cases "frames = [] \<and> taken = None")
    case True
    then have "rc_answer w = None" by (auto simp: taken_def takes_answer_def)
    then show thesis
      by (intro that [of "wr_send w"]) (use True run assms(4) in
        \<open>simp_all add: io_ret_def w1_def takes_answer_def answer_frames_def\<close>)
  next
    case False
    with run c1 c2 send show thesis
      by (intro that [of send]) (simp_all add: w1_def flip: taken_def)
  qed
qed

lemma write_batches_ok:
  assumes "list_all (list_all (frame_fits (wl_protobuf W) limit)) batches" "limit < 2 ^ 62"
    "me_stream (wr_encoder w) = None" "accepting (wr_send w)"
    "\<forall>answer. rc_answer w = Some answer \<longrightarrow> length (pb_answer (wl_protobuf W) answer) \<le> limit"
  shows "\<exists>w'. write_batches W limit batches w = Some (Inr (), w') \<and> accepting (wr_send w') \<and>
    sent (wr_send w') = sent (wr_send w) @
      wire_bytes (batch_frames W (wr_encoder w) (wr_encoded w) (rc_answer w) batches)"
  using assms
proof (induction batches arbitrary: w)
  case Nil
  then show ?case by (simp add: io_ret_def)
next
  case (Cons frames batches)
  from Cons.prems(1) have "list_all (frame_fits (wl_protobuf W) limit) frames" by simp
  from write_response_frames_ok [OF this Cons.prems(2-5)] obtain send where
    step: "write_response_frames W frames limit w =
      Some (Inr (), w\<lparr>wr_encoded := wr_encoded w + message_count_of frames, wr_send := send,
        rc_answer := (if takes_answer frames then None else rc_answer w)\<rparr>)" "accepting send"
    "sent send = sent (wr_send w) @ wire_bytes (answer_frames W (if takes_answer frames then rc_answer w else None) @
       response_frames W (wr_encoder w) (wr_encoded w) frames)" .
  from Cons.IH [of "w\<lparr>wr_encoded := wr_encoded w + message_count_of frames, wr_send := send,
        rc_answer := (if takes_answer frames then None else rc_answer w)\<rparr>"] Cons.prems step
  show ?case by (auto simp: Let_def)
qed

end

sublocale body_sink \<subseteq> body: frame_write "body_write write_chunk" accepting sent
proof
  fix w chunks
  show "accepting w \<Longrightarrow>
    \<exists>w'. body_write write_chunk chunks w = Some (Inr (), w') \<and> accepting w' \<and> sent w' = sent w @ concat chunks"
  proof (induction chunks arbitrary: w)
    case (Cons chunk chunks)
    from chunk_step [OF Cons.prems, of chunk] obtain w1 where
      w1: "write_chunk chunk w = Some (Inr (), w1)" "accepting w1" "sent w1 = sent w @ chunk" by blast
    from Cons.IH [OF w1(2)] w1 show ?case by auto
  qed (simp add: io_ret_def)
qed

interpretation in_memory_sink: frame_write sink_write "\<lambda>_. True" concat
  by unfold_locales (simp add: sink_write_def)

interpretation in_memory_body: body_sink "\<lambda>chunk. sink_write [chunk]" "\<lambda>_. True" concat
  by unfold_locales (simp add: sink_write_def)

interpretation in_memory_writer: frame_writer "write_lib.make P Z L shared sink_write" "\<lambda>_. True" concat
  for P Z L shared
  by unfold_locales (simp add: sink_write_def write_lib.defs)

end
