(* ===== verification/Stream_Readers.thy ===== *)
theory Stream_Readers
  imports Reader_Laws
begin

text \<open>
  Readers that keep the laws of \<open>Reader_Laws\<close>: the body reader of \<open>rpc_body.rs\<close> over any body
  source, and the in-memory streams of \<open>test_io.rs\<close>, on which the locales are interpreted. The
  receive streams of the QUIC libraries are not part of the repository; they enter as parameters
  under the same laws.
\<close>

subsection \<open>The body reader\<close>

record 's body_reader =
  br_source :: 's
  br_chunk :: bytes

definition on_body :: "('s, 'a) io \<Rightarrow> ('s body_reader, 'a) io" where
  "on_body m b = map_option (\<lambda>(r, s). (r, b\<lparr>br_source := s\<rparr>)) (m (br_source b))"

text \<open>The loop of \<open>BodyReader::read_frame_bytes\<close>: whether it ends with a chunk to serve.\<close>

partial_function (option) body_fill ::
  "('s, bytes option) io \<Rightarrow> 's body_reader \<Rightarrow> (bool result \<times> 's body_reader) option" where
  "body_fill next_chunk_of b =
     (if br_chunk b = [] then
        io_bind (on_body next_chunk_of) (\<lambda>r.
          case r of
            None \<Rightarrow> io_ret False
          | Some chunk \<Rightarrow> \<lambda>b. body_fill next_chunk_of (b\<lparr>br_chunk := chunk\<rparr>)) b
      else io_ret True b)"

definition body_read :: "('s, bytes option) io \<Rightarrow> nat \<Rightarrow> ('s body_reader, bytes option) io" where
  "body_read next_chunk_of n =
     io_bind (body_fill next_chunk_of) (\<lambda>filled.
       if filled then
         (\<lambda>b. let len = min n (length (br_chunk b)) in
          Some (Inr (Some (take len (br_chunk b))), b\<lparr>br_chunk := drop len (br_chunk b)\<rparr>))
       else io_ret None)"

definition body_reader :: "('s, bytes option) io \<Rightarrow> 's body_reader frame_read" where
  "body_reader next_chunk_of =
     \<lparr>read_frame_bytes = body_read next_chunk_of,
      read_payload_bytes = read_payload_copy (body_read next_chunk_of)\<rparr>"

definition body_content :: "('s \<Rightarrow> stream) \<Rightarrow> 's body_reader \<Rightarrow> stream" where
  "body_content content b =
     (br_chunk b @ fst (content (br_source b)), snd (content (br_source b)))"

context chunks_of_stream
begin

lemma body_fill_step:
  assumes "valid (br_source b)"
  shows "(\<exists>b'. body_fill next_chunk_of b = Some (Inr True, b') \<and> valid (br_source b') \<and>
            br_chunk b' \<noteq> [] \<and> body_content content b' = body_content content b) \<or>
         (\<exists>b'. body_fill next_chunk_of b = Some (Inr False, b') \<and> valid (br_source b') \<and>
            body_content content b = ([], Inr ()) \<and> body_content content b' = ([], Inr ())) \<or>
         (\<exists>e b'. body_fill next_chunk_of b = Some (Inl e, b') \<and>
            body_content content b = ([], Inl e))"
  using assms
proof (induction "rank (br_source b)" arbitrary: b rule: less_induct)
  case less
  show ?case
  proof (cases "br_chunk b = []")
    case False
    then show ?thesis using less.prems by (simp add: body_fill.simps [of _ b] io_defs)
  next
    case True
    from chunk_step [OF less.prems] show ?thesis
    proof (elim disjE exE conjE)
      fix bs s'
      assume "next_chunk_of (br_source b) = Some (Inr (Some bs), s')"
        and v: "valid s'" and c: "content (br_source b) = (bs @ fst (content s'), snd (content s'))"
        and rank: "bs = [] \<longrightarrow> rank s' < rank (br_source b)"
      then have step: "body_fill next_chunk_of b =
          body_fill next_chunk_of (b\<lparr>br_source := s', br_chunk := bs\<rparr>)"
        using True by (simp add: body_fill.simps [of _ b] on_body_def)
      have same: "body_content content (b\<lparr>br_source := s', br_chunk := bs\<rparr>) =
          body_content content b"
        using True c by (simp add: body_content_def)
      show ?thesis
      proof (cases "bs = []")
        case True
        then show ?thesis
          using less.hyps [of "b\<lparr>br_source := s', br_chunk := bs\<rparr>"] rank v same step by simp
      next
        case False
        then show ?thesis
          using v same step
          by (simp add: body_fill.simps [of _ "b\<lparr>br_source := s', br_chunk := bs\<rparr>"] io_defs)
      qed
    next
      fix s'
      assume "next_chunk_of (br_source b) = Some (Inr None, s')" "valid s'"
        "content (br_source b) = ([], Inr ())" "content s' = content (br_source b)"
      then show ?thesis
        using True by (simp add: body_fill.simps [of _ b] on_body_def body_content_def io_defs)
    next
      fix e s'
      assume "next_chunk_of (br_source b) = Some (Inl e, s')" "content (br_source b) = ([], Inl e)"
      then show ?thesis
        using True by (simp add: body_fill.simps [of _ b] on_body_def body_content_def)
    qed
  qed
qed

end

sublocale chunks_of_stream \<subseteq> bd: byte_reader "body_read next_chunk_of"
  "\<lambda>b. valid (br_source b)" "body_content content" "\<lambda>_. 0"
proof (unfold_locales, goal_cases)
  case (1 b n)
  from body_fill_step [OF 1(1)] show ?case
  proof (elim disjE exE conjE)
    fix b'
    assume "body_fill next_chunk_of b = Some (Inr True, b')" "valid (br_source b')"
      "br_chunk b' \<noteq> []" and c: "body_content content b' = body_content content b"
    then show ?thesis
      using 1(2) unfolding c [symmetric]
      by (auto simp: body_read_def body_content_def Let_def min_def)
  qed (auto simp: body_read_def io_defs)
qed

sublocale chunks_of_stream \<subseteq> bfr: frame_reader "body_reader next_chunk_of"
  "\<lambda>b. valid (br_source b)" "body_content content" "\<lambda>_. 0"
proof (intro_locales, goal_cases)
  case 1
  show ?case using bd.byte_reader_axioms by (simp add: body_reader_def)
next
  case 2
  show ?case
    using bd.read_body_implements
    by unfold_locales (auto simp: body_reader_def read_payload_copy_def)
qed

subsection \<open>In-memory streams\<close>

record script =
  sc_data :: bytes
  sc_read_size :: nat
  sc_served :: nat

definition script_with_read_size :: "bytes \<Rightarrow> nat \<Rightarrow> script" where
  "script_with_read_size data read_size =
     \<lparr>sc_data = data, sc_read_size = read_size, sc_served = 0\<rparr>"

definition script_new :: "bytes \<Rightarrow> script" where
  "script_new data = script_with_read_size data 3"

definition script_read :: "nat \<Rightarrow> (script, bytes option) io" where
  "script_read n s =
     (if sc_data s = [] then io_ret None s
      else
        (let taken = min (min n (sc_read_size s)) (length (sc_data s)) in
         Some (Inr (Some (take taken (sc_data s))),
           s\<lparr>sc_data := drop taken (sc_data s),
             sc_served := saturating_add (sc_served s) taken\<rparr>)))"

definition script_reader :: "script frame_read" where
  "script_reader =
     \<lparr>read_frame_bytes = script_read, read_payload_bytes = read_payload_copy script_read\<rparr>"

record chunks =
  ck_queue :: "bytes list"
  ck_chunk_reads :: nat
  ck_direct_reads :: nat

definition chunks_new :: "bytes list \<Rightarrow> chunks" where
  "chunks_new cs = \<lparr>ck_queue = cs, ck_chunk_reads = 0, ck_direct_reads = 0\<rparr>"

definition chunks_next :: "(chunks, bytes option) io" where
  "chunks_next c =
     (let c = c\<lparr>ck_chunk_reads := saturating_add (ck_chunk_reads c) 1\<rparr> in
      case ck_queue c of
        [] \<Rightarrow> io_ret None c
      | chunk # queue \<Rightarrow> io_ret (Some chunk) (c\<lparr>ck_queue := queue\<rparr>))"

definition chunks_read_into :: "nat \<Rightarrow> (chunks, bytes option) io" where
  "chunks_read_into n c =
     (let c = c\<lparr>ck_direct_reads := saturating_add (ck_direct_reads c) 1\<rparr> in
      case ck_queue c of
        [] \<Rightarrow> io_ret None c
      | chunk # queue \<Rightarrow>
          (let taken = min n (length chunk); chunk' = drop taken chunk in
           io_ret (Some (take taken chunk))
             (c\<lparr>ck_queue := (if chunk' = [] then queue else chunk' # queue)\<rparr>)))"

definition chunks_source :: "chunks chunk_source" where
  "chunks_source = \<lparr>next_chunk = chunks_next, read_into = chunks_read_into\<rparr>"

definition chunks_content :: "chunks \<Rightarrow> stream" where
  "chunks_content c = (concat (ck_queue c), Inr ())"

interpretation script_bytes: byte_reader script_read "\<lambda>s. 0 < sc_read_size s"
  "\<lambda>s. (sc_data s, Inr ())" "\<lambda>_. 0"
  by unfold_locales (auto simp: script_read_def Let_def io_defs)

interpretation script_frames: frame_reader script_reader "\<lambda>s. 0 < sc_read_size s"
  "\<lambda>s. (sc_data s, Inr ())" "\<lambda>_. 0"
  using script_bytes.byte_reader_axioms script_bytes.read_body_implements
  by (auto simp: frame_reader_def frame_reader_axioms_def script_reader_def read_payload_copy_def)

interpretation in_memory: chunked_stream chunks_source "\<lambda>_. True" chunks_content
  "\<lambda>c. length (ck_queue c)"
proof (unfold_locales, goal_cases)
  case (1 c)
  show ?case
    by (cases "ck_queue c")
      (auto simp: chunks_source_def chunks_next_def chunks_content_def io_defs)
next
  case (2 c n)
  then show ?case
    by (cases "ck_queue c")
      (auto simp: chunks_source_def chunks_read_into_def chunks_content_def io_defs Let_def)
qed

subsection \<open>Properties\<close>

text \<open>
  C9. Chunking is invisible: over every chunk source that keeps its laws, the frame reader returns,
  and the next known header, or the error, is the one that \<open>stream_known\<close> reads off the content as
  a whole, with the same bytes left to read. Unknown frames are skipped and each one's wire length
  is reported.
\<close>

theorem chunked_next_known_header:
  assumes "chunked_stream S valid content rank" and "valid s"
  shows "\<exists>c'. next_known_header (chunked_reader S) limit on_skipped k (chunked_new s) =
      Some (fst (stream_known limit on_skipped k (content s)), c') \<and>
    (is_ok (fst (stream_known limit on_skipped k (content s))) \<longrightarrow>
       chunked_content content c' = snd (stream_known limit on_skipped k (content s)))"
proof -
  have "chunked_content content (chunked_new s) = content s"
    by (simp add: chunked_new_def chunked_content_def)
  with frame_reader.next_known_header_implements
      [OF chunked_stream.chunked_frame_reader [OF assms(1)], of "chunked_new s" limit on_skipped k]
    assms(2)
  show ?thesis
    by (auto simp: implements_def chunked_new_def)
qed

theorem chunked_next_known_header_witness:
  "\<exists>c'. next_known_header (chunked_reader chunks_source) 10 (\<lambda>k n. Inr (k + n)) 0
      (chunked_new (chunks_new [[0x21], [0x01], [], [0xff, 0x00], [0x01, 0xaa]])) =
    Some (Inr (Some \<lparr>fh_frame_type = 0, fh_payload_len = 1, fh_header_len = 2\<rparr>, 3 :: nat), c') \<and>
    chunked_content chunks_content c' = ([0xaa], Inr ())"
proof -
  let ?st = "chunks_content (chunks_new [[0x21], [0x01], [], [0xff, 0x00], [0x01, 0xaa]])"
  have "stream_known 10 (\<lambda>k n. Inr (k + n)) 0 ?st =
     (Inr (Some \<lparr>fh_frame_type = 0, fh_payload_len = 1, fh_header_len = 2\<rparr>, 3 :: nat), ([0xaa], Inr ()))"
    by (simp add: chunks_content_def chunks_new_def stream_known.simps stream_header_def decode_eval
        is_known_frame_type_def ANSWER_def stream_skip_def wire_len_def saturating_add_def
        USIZE_MAX_def)
  with chunked_next_known_header [OF in_memory.chunked_stream_axioms TrueI,
      of 10 "\<lambda>k n. Inr (k + n)" 0 "chunks_new [[0x21], [0x01], [], [0xff, 0x00], [0x01, 0xaa]]"]
  show ?thesis by simp
qed

text \<open>
  C32. A frame reads back: whatever reader delivers it, in whatever pieces, an encoded frame is read
  as its type and its payload, and the reader is left right behind it. The same size limit on both
  sides never refuses a frame that the other side could encode.
\<close>

theorem encoded_frame_reads_back:
  assumes "frame_reader R valid content rank" and "valid s"
    and "encode_frame ty payload limit = Inr frame" and "limit \<le> USIZE_MAX"
    and "content s = (frame @ rest, e)"
  shows "\<exists>h s1 s2. read_frame_header R limit s = Some (Inr (Some h), s1) \<and>
    fh_frame_type h = ty \<and> fh_payload_len h = length payload \<and>
    fh_header_len h = length frame - length payload \<and>
    read_payload R (fh_payload_len h) s1 = Some (Inr payload, s2) \<and> content s2 = (rest, e)"
proof -
  note header = stream_header_encoded [OF assms(3,4), of rest e, folded assms(5)]
  obtain s1 where s1: "read_frame_header R limit s =
      Some (Inr (Some \<lparr>fh_frame_type = ty, fh_payload_len = length payload,
                      fh_header_len = length frame - length payload\<rparr>), s1)"
    "valid s1" "content s1 = (payload @ rest, e)"
    using frame_reader.read_frame_header_implements [OF assms(1,2)] header
    by (rule implementsD) simp
  then have "stream_body (length payload) (content s1) = (Inr payload, (rest, e))"
    by (simp add: stream_body_def)
  with frame_reader.read_payload_implements [OF assms(1) s1(2)] obtain s2
    where "read_payload R (length payload) s1 = Some (Inr payload, s2)" "content s2 = (rest, e)"
    by (rule implementsD) simp
  with s1(1) show ?thesis by simp
qed

theorem encoded_frame_reads_back_witness:
  "\<exists>h s1 s2. read_frame_header (chunked_reader chunks_source) 10
      (chunked_new (chunks_new [[0], [2, 0xaa], [0xbb, 7]])) = Some (Inr (Some h), s1) \<and>
    fh_frame_type h = 0 \<and> fh_payload_len h = 2 \<and> fh_header_len h = 2 \<and>
    read_payload (chunked_reader chunks_source) (fh_payload_len h) s1 = Some (Inr [0xaa, 0xbb], s2) \<and>
    chunked_content chunks_content s2 = ([7], Inr ())"
proof -
  have frame: "encode_frame 0 [0xaa, 0xbb] 10 = Inr [0, 2, 0xaa, 0xbb]"
    by (simp add: encode_frame_def put_frame_header_def validate_payload_len_def push_eval)
  have limit: "10 \<le> USIZE_MAX" by (simp add: USIZE_MAX_def)
  have "chunked_content chunks_content (chunked_new (chunks_new [[0], [2, 0xaa], [0xbb, 7]])) =
      ([0, 2, 0xaa, 0xbb] @ [7], Inr ())"
    by (simp add: chunked_content_def chunked_new_def chunks_new_def chunks_content_def)
  from encoded_frame_reads_back [OF in_memory.chunked_frame_reader _ frame limit this]
  show ?thesis by (simp add: numeral_2_eq_2)
qed

end
