(* ===== verification/Connection_Metadata.thy ===== *)
theory Connection_Metadata
  imports Wire "HOL-Library.AList"
begin

text \<open>
  Connection metadata, \<open>connection_metadata.rs\<close>: the set of a channel on the client, what a connection
  does with it on each call, and the sets a server stores per connection. The \<open>Arc\<close>s that share a
  source between connections are state passing: the operations of a connection take the source and
  the connection's confirmed set. The protocol itself is the step relation \<open>cm_run\<close>, in which
  requests and answers are reordered and lost at will.
\<close>

subsection \<open>The client\<close>

definition MAX_SETS :: nat where
  "MAX_SETS = 4"

record md_set =
  set_id :: u32
  set_metadata :: metadata

record metadata_source =
  src_current :: "md_set option"
  src_ids :: u32

definition source_default :: metadata_source where
  "source_default = \<lparr>src_current = None, src_ids = 0\<rparr>"

text \<open>Collecting entries into a map: a later entry replaces an earlier one with its key.\<close>

definition collect_metadata :: "metadata \<Rightarrow> metadata" where
  "collect_metadata entries = foldl (\<lambda>m (key, v). AList.update key v m) [] entries"

definition next_set_id :: "u32 \<Rightarrow> u32 \<times> u32" where
  "next_set_id ids =
     (let sid = ids + 1 in if sid = 0 then (sid + 1, sid + 1) else (sid, sid))"

definition source_set :: "metadata \<Rightarrow> metadata_source \<Rightarrow> (status + unit) \<times> metadata_source" where
  "source_set m s =
     (if m = [] then (Inr (), s\<lparr>src_current := None\<rparr>)
      else
        (let m = collect_metadata (map (\<lambda>(key, v). (normalize_metadata_key key, v)) m) in
         case validate_metadata m of
           Inl e \<Rightarrow> (Inl e, s)
         | Inr _ \<Rightarrow>
             (case next_set_id (src_ids s) of
                (sid, ids) \<Rightarrow>
                  (Inr (), s\<lparr>src_current := Some \<lparr>set_id = sid, set_metadata = m\<rparr>, src_ids := ids\<rparr>))))"

definition source_new :: "metadata \<Rightarrow> status + metadata_source" where
  "source_new m = (case source_set m source_default of (Inl e, _) \<Rightarrow> Inl e | (Inr _, s) \<Rightarrow> Inr s)"

text \<open>The result tells whether the call offered the set, which its ANSWER may confirm.\<close>

definition prepare_metadata :: "metadata_source \<Rightarrow> u32 \<Rightarrow> rpc_request \<Rightarrow> rpc_request \<times> bool" where
  "prepare_metadata s confirmed r =
     (case src_current s of
        None \<Rightarrow> (r\<lparr>rq_connection_metadata := None\<rparr>, False)
      | Some current \<Rightarrow>
          if confirmed = set_id current
          then (r\<lparr>rq_connection_metadata := Some \<lparr>cm_id = set_id current, cm_metadata = []\<rparr>\<rparr>, False)
          else (r\<lparr>rq_connection_metadata :=
                    Some \<lparr>cm_id = set_id current, cm_metadata = set_metadata current\<rparr>\<rparr>, True))"

definition learn_confirmed :: "metadata_source \<Rightarrow> u32 \<Rightarrow> u32 \<Rightarrow> u32" where
  "learn_confirmed s answer confirmed =
     (if answer \<noteq> 0 \<and> map_option set_id (src_current s) = Some answer then answer else confirmed)"

subsection \<open>The server\<close>

type_synonym metadata_store = "(u32 \<times> metadata) list"

definition store_set :: "u32 \<Rightarrow> metadata \<Rightarrow> metadata_store \<Rightarrow> metadata_store" where
  "store_set sid m sets =
     (let sets = filter (\<lambda>(stored, _). stored \<noteq> sid) sets;
          sets = (if length sets = MAX_SETS then tl sets else sets) in
      sets @ [(sid, m)])"

definition lookup_set :: "u32 \<Rightarrow> metadata_store \<Rightarrow> metadata option" where
  "lookup_set sid sets = map_option snd (find (\<lambda>(stored, _). stored = sid) sets)"

text \<open>\<open>entry(key).or_insert_with\<close> over the entries of a set.\<close>

definition or_insert :: "metadata \<Rightarrow> string \<times> bytes \<Rightarrow> metadata" where
  "or_insert m e = (if map_of m (fst e) = None then m @ [e] else m)"

definition merge_metadata :: "metadata \<Rightarrow> metadata \<Rightarrow> metadata" where
  "merge_metadata own m = foldl or_insert own m"

definition resolve ::
  "metadata_store option \<Rightarrow> rpc_request \<Rightarrow> (status + u32) \<times> metadata_store option \<times> rpc_request" where
  "resolve store r =
     (case rq_connection_metadata r of
        None \<Rightarrow> (Inr 0, store, r)
      | Some cm \<Rightarrow>
          (let r = r\<lparr>rq_connection_metadata := None\<rparr>;
               (found, store) =
                 (if cm_metadata cm = []
                  then (and_then (ok_or (Option.bind store (lookup_set (cm_id cm)))
                          (invalid_argument ''unknown connection metadata set {}'')) (\<lambda>m. Inr (m, 0)), store)
                  else
                    (case validate_metadata (cm_metadata cm) of
                       Inl e \<Rightarrow> (Inl e, store)
                     | Inr _ \<Rightarrow>
                         (case store of
                            Some sets \<Rightarrow>
                              (Inr (cm_metadata cm, cm_id cm), Some (store_set (cm_id cm) (cm_metadata cm) sets))
                          | None \<Rightarrow> (Inr (cm_metadata cm, 0), None)))) in
           case found of
             Inl e \<Rightarrow> (Inl e, store, r)
           | Inr (m, confirmed) \<Rightarrow>
               (Inr confirmed, store, r\<lparr>rq_metadata := merge_metadata (rq_metadata r) m\<rparr>)))"

subsection \<open>Specification\<close>

text \<open>
  A connection between a client and a server: requests in flight, each with the set that was current
  when its call was made, and the confirmations in flight. \<open>sy_stored\<close> are the sets the server stored
  so far, oldest first.
\<close>

record cm_system =
  sy_source :: metadata_source
  sy_confirmed :: u32
  sy_requests :: "(rpc_request \<times> metadata) list"
  sy_answers :: "u32 list"
  sy_store :: metadata_store
  sy_stored :: "u32 list"
  sy_history :: "u32 \<rightharpoonup> metadata"

definition current_metadata :: "metadata_source \<Rightarrow> metadata" where
  "current_metadata s = (case src_current s of None \<Rightarrow> [] | Some current \<Rightarrow> set_metadata current)"

definition note_set :: "metadata_source \<Rightarrow> (u32 \<rightharpoonup> metadata) \<Rightarrow> (u32 \<rightharpoonup> metadata)" where
  "note_set s history =
     (case src_current s of None \<Rightarrow> history | Some current \<Rightarrow> history(set_id current \<mapsto> set_metadata current))"

text \<open>The sets of one channel: fewer than \<open>2 ^ 32\<close>, so that no ID is used twice.\<close>

inductive cm_run :: "cm_system \<Rightarrow> bool" where
  connected: "cm_run \<lparr>sy_source = source_default, sy_confirmed = 0, sy_requests = [], sy_answers = [],
    sy_store = [], sy_stored = [], sy_history = Map.empty\<rparr>"
| changed: "cm_run sy \<Longrightarrow> src_ids (sy_source sy) \<noteq> - 1 \<Longrightarrow> source_set m (sy_source sy) = (result, s') \<Longrightarrow>
    cm_run (sy\<lparr>sy_source := s', sy_history := note_set s' (sy_history sy)\<rparr>)"
| called: "cm_run sy \<Longrightarrow> prepare_metadata (sy_source sy) (sy_confirmed sy) r = (r', offered) \<Longrightarrow>
    cm_run (sy\<lparr>sy_requests := sy_requests sy @ [(r', current_metadata (sy_source sy))]\<rparr>)"
| served: "cm_run sy \<Longrightarrow> sy_requests sy = rs @ (r, m) # rs' \<Longrightarrow>
    resolve (Some (sy_store sy)) r = (Inr confirmed, Some store, r') \<Longrightarrow>
    cm_run (sy\<lparr>sy_requests := rs @ rs', sy_answers := sy_answers sy @ [confirmed], sy_store := store,
      sy_stored := sy_stored sy @ (if confirmed = 0 then [] else [confirmed])\<rparr>)"
| refused: "cm_run sy \<Longrightarrow> sy_requests sy = rs @ (r, m) # rs' \<Longrightarrow>
    resolve (Some (sy_store sy)) r = (Inl e, Some store, r') \<Longrightarrow>
    cm_run (sy\<lparr>sy_requests := rs @ rs', sy_store := store\<rparr>)"
| learned: "cm_run sy \<Longrightarrow> sy_answers sy = as @ a # as' \<Longrightarrow>
    cm_run (sy\<lparr>sy_answers := as @ as', sy_confirmed := learn_confirmed (sy_source sy) a (sy_confirmed sy)\<rparr>)"
| lost_request: "cm_run sy \<Longrightarrow> sy_requests sy = rs @ r # rs' \<Longrightarrow> cm_run (sy\<lparr>sy_requests := rs @ rs'\<rparr>)"
| lost_answer: "cm_run sy \<Longrightarrow> sy_answers sy = as @ a # as' \<Longrightarrow> cm_run (sy\<lparr>sy_answers := as @ as'\<rparr>)"

definition last_n :: "nat \<Rightarrow> 'a list \<Rightarrow> 'a list" where
  "last_n n xs = drop (length xs - n) xs"

text \<open>A request in flight: an offer of a set, or a reference to one the server stored.\<close>

definition request_ok :: "cm_system \<Rightarrow> rpc_request \<times> metadata \<Rightarrow> bool" where
  "request_ok sy rm = (case rm of (r, m) \<Rightarrow>
     (case rq_connection_metadata r of
        None \<Rightarrow> m = []
      | Some cm \<Rightarrow> sy_history sy (cm_id cm) = Some m \<and>
          (cm_metadata cm = m \<or> cm_metadata cm = [] \<and> cm_id cm \<in> set (sy_stored sy))))"

definition cm_inv :: "cm_system \<Rightarrow> bool" where
  "cm_inv sy \<longleftrightarrow>
     (\<forall>current. src_current (sy_source sy) = Some current \<longrightarrow>
        sy_history sy (set_id current) = Some (set_metadata current)) \<and>
     (\<forall>sid m. sy_history sy sid = Some m \<longrightarrow>
        sid \<noteq> 0 \<and> unat sid \<le> unat (src_ids (sy_source sy)) \<and> m \<noteq> [] \<and> validate_metadata m = Inr ()) \<and>
     (sy_confirmed sy = 0 \<or> sy_confirmed sy \<in> set (sy_stored sy)) \<and>
     (\<forall>a \<in> set (sy_answers sy). a = 0 \<or> a \<in> set (sy_stored sy)) \<and>
     (\<forall>rm \<in> set (sy_requests sy). request_ok sy rm) \<and>
     (\<forall>e \<in> set (sy_store sy). sy_history sy (fst e) = Some (snd e)) \<and>
     map fst (sy_store sy) = last_n MAX_SETS (remdups (sy_stored sy))"

definition example_set :: metadata where
  "example_set = [(''k'', [1])]"

definition example_source :: metadata_source where
  "example_source = \<lparr>src_current = Some \<lparr>set_id = 1, set_metadata = example_set\<rparr>, src_ids = 1\<rparr>"

definition metadata_request :: "metadata \<Rightarrow> rpc_request" where
  "metadata_request m = (rpc_request_new ''/s/m'')\<lparr>rq_metadata := [(''own'', [2])],
     rq_connection_metadata := Some \<lparr>cm_id = 1, cm_metadata = m\<rparr>\<rparr>"

definition example_system :: cm_system where
  "example_system = \<lparr>sy_source = example_source, sy_confirmed = 1,
     sy_requests = [(metadata_request [], example_set)], sy_answers = [],
     sy_store = [(1, example_set)], sy_stored = [1], sy_history = [1 \<mapsto> example_set]\<rparr>"

subsection \<open>Properties\<close>

lemma lookup_set_map_of: "lookup_set sid sets = map_of sets sid"
  by (induction sets) (auto simp: lookup_set_def)

lemma remdups_snoc: "remdups (xs @ [x]) = filter (\<lambda>y. y \<noteq> x) (remdups xs) @ [x]"
  by (induction xs) auto

lemma last_n_snoc: "last_n (Suc n) (xs @ [x]) = last_n n xs @ [x]"
  by (simp add: last_n_def)

text \<open>Storing a set keeps the last distinct ones.\<close>

lemma last_n_filter:
  assumes "distinct xs" and "ys = filter (\<lambda>y. y \<noteq> x) (last_n (Suc n) xs)"
  shows "(if length ys = Suc n then tl ys else ys) = last_n n (filter (\<lambda>y. y \<noteq> x) xs)"
proof -
  define as where "as = take (length xs - Suc n) xs"
  define bs where "bs = last_n (Suc n) xs"
  have xs: "xs = as @ bs" by (simp add: as_def bs_def last_n_def)
  have len: "length bs \<le> Suc n" "as \<noteq> [] \<Longrightarrow> length bs = Suc n" by (auto simp: as_def bs_def last_n_def)
  have ys: "ys = filter (\<lambda>y. y \<noteq> x) bs" by (simp add: assms(2) bs_def)
  show ?thesis
  proof (cases "x \<in> set bs")
    case True
    have "distinct bs" using assms(1) xs by simp
    then have "remove1 x bs = ys"
      by (simp add: ys distinct_remove1_removeAll removeAll_filter_not_eq eq_commute [of x])
    then have "length ys = length bs - 1" using True length_remove1 [of x bs] by simp
    moreover have "filter (\<lambda>y. y \<noteq> x) as = as" using assms(1) xs True by (auto intro: filter_True)
    ultimately show ?thesis using len True
      by (cases "as = []") (auto simp: xs ys last_n_def)
  next
    case False
    then have "ys = bs" by (auto simp: ys intro: filter_True)
    with False show ?thesis using len
      by (cases "as = []") (auto simp: xs ys last_n_def drop_Suc)
  qed
qed

lemma next_set_id_fresh:
  assumes "ids \<noteq> - 1"
  shows "next_set_id ids = (ids + 1, ids + 1)" "ids + 1 \<noteq> 0" "unat (ids + 1) = Suc (unat ids)"
proof -
  have "1 + ids \<noteq> 0" using assms by (metis add.commute eq_neg_iff_add_eq_0)
  then show "next_set_id ids = (ids + 1, ids + 1)" "ids + 1 \<noteq> 0" "unat (ids + 1) = Suc (unat ids)"
    by (simp_all add: next_set_id_def unatSuc add.commute Let_def)
qed

lemma collect_metadata_Nil: "m \<noteq> [] \<Longrightarrow> collect_metadata m \<noteq> []"
proof (induction m rule: rev_induct)
  case (snoc e m)
  have "AList.update key v xs \<noteq> []" for key v and xs :: metadata by (cases xs) auto
  then show ?case by (cases e) (simp add: collect_metadata_def)
qed simp

lemma source_set_cases:
  assumes "source_set m s = (result, s')" and "src_ids s \<noteq> - 1"
  obtains (same) "s' = s" | (removed) "s' = s\<lparr>src_current := None\<rparr>"
  | (added) v where "v \<noteq> []" "validate_metadata v = Inr ()"
      "s' = s\<lparr>src_current := Some \<lparr>set_id = src_ids s + 1, set_metadata = v\<rparr>, src_ids := src_ids s + 1\<rparr>"
proof (cases "m = []")
  case True
  then show thesis using assms that(2) by (simp add: source_set_def)
next
  case False
  define v where "v = collect_metadata (map (\<lambda>(key, v). (normalize_metadata_key key, v)) m)"
  have "v \<noteq> []" using False by (simp add: v_def collect_metadata_Nil)
  then show thesis
    using assms(1) False next_set_id_fresh [OF assms(2)] that(1) that(3) [of v]
    by (auto simp: source_set_def Let_def v_def [symmetric] split: sum.splits)
qed

lemma request_ok_mono:
  assumes "request_ok sy rm" and "sy_history sy \<subseteq>\<^sub>m sy_history sy'" and "set (sy_stored sy) \<subseteq> set (sy_stored sy')"
  shows "request_ok sy' rm"
  using assms by (auto simp: request_ok_def map_le_def dom_def split: prod.splits option.splits)

lemma request_ok_update [simp]:
  "request_ok (sy\<lparr>sy_source := s\<rparr>) = request_ok sy"
  "request_ok (sy\<lparr>sy_requests := rs\<rparr>) = request_ok sy"
  "request_ok (sy\<lparr>sy_answers := as\<rparr>) = request_ok sy"
  "request_ok (sy\<lparr>sy_confirmed := c\<rparr>) = request_ok sy"
  "request_ok (sy\<lparr>sy_store := store\<rparr>) = request_ok sy"
  by (simp_all add: fun_eq_iff request_ok_def split: prod.splits option.splits)

lemma cm_inv_history:
  assumes "cm_inv sy" and "sy_history sy sid = Some m"
  shows "sid \<noteq> 0" "unat sid \<le> unat (src_ids (sy_source sy))" "m \<noteq> []" "validate_metadata m = Inr ()"
  using assms unfolding cm_inv_def by blast+

lemma changed_inv:
  assumes inv: "cm_inv sy" and "src_ids (sy_source sy) \<noteq> - 1" and "source_set m (sy_source sy) = (result, s')"
  shows "cm_inv (sy\<lparr>sy_source := s', sy_history := note_set s' (sy_history sy)\<rparr>)"
  using assms(3,2)
proof (cases rule: source_set_cases)
  case same
  have "note_set (sy_source sy) (sy_history sy) = sy_history sy"
    using inv by (auto simp: cm_inv_def note_set_def fun_upd_idem split: option.splits)
  then show ?thesis using inv same by simp
next
  case removed
  then show ?thesis using inv by (auto simp: cm_inv_def note_set_def)
next
  case (added v)
  define n where "n = src_ids (sy_source sy) + 1"
  define h where "h = (sy_history sy)(n \<mapsto> v)"
  note n = next_set_id_fresh(2,3) [OF assms(2), folded n_def]
  have "sy_history sy n = None"
    using cm_inv_history(2) [OF inv, of n] n(2) by (cases "sy_history sy n") auto
  then have le: "sy_history sy \<subseteq>\<^sub>m h" by (auto simp: h_def map_le_def dom_def)
  then have old: "sy_history sy sid = Some w \<Longrightarrow> h sid = Some w" for sid w by (auto simp: map_le_def dom_def)
  have "\<forall>rm \<in> set (sy_requests sy). request_ok (sy\<lparr>sy_source := s', sy_history := h\<rparr>) rm"
    using inv le by (auto simp: cm_inv_def intro: request_ok_mono)
  moreover have "h sid = Some w \<Longrightarrow> sid \<noteq> 0 \<and> unat sid \<le> unat n \<and> w \<noteq> [] \<and> validate_metadata w = Inr ()" for sid w
    using cm_inv_history [OF inv, of sid w] n added(1,2) by (auto simp: h_def split: if_split_asm)
  moreover have "note_set s' (sy_history sy) = h" by (simp add: note_set_def h_def added(3) n_def)
  ultimately show ?thesis
    using inv old by (auto simp: cm_inv_def added(3) h_def n_def)
qed

lemma called_inv:
  assumes inv: "cm_inv sy" and "prepare_metadata (sy_source sy) (sy_confirmed sy) r = (r', offered)"
  shows "cm_inv (sy\<lparr>sy_requests := sy_requests sy @ [(r', current_metadata (sy_source sy))]\<rparr>)"
proof -
  have "request_ok sy (r', current_metadata (sy_source sy))"
  proof (cases "src_current (sy_source sy)")
    case None
    then show ?thesis using assms(2) by (auto simp: prepare_metadata_def request_ok_def current_metadata_def)
  next
    case (Some current)
    then have h: "sy_history sy (set_id current) = Some (set_metadata current)" using inv by (simp add: cm_inv_def)
    moreover have "set_id current \<in> set (sy_stored sy)" if "sy_confirmed sy = set_id current"
      using inv that cm_inv_history(1) [OF inv h] by (auto simp: cm_inv_def)
    ultimately show ?thesis
      using assms(2) Some by (auto simp: prepare_metadata_def request_ok_def current_metadata_def split: if_split_asm)
  qed
  then show ?thesis using inv by (auto simp: cm_inv_def)
qed

lemma map_fst_filter: "map fst (filter (\<lambda>(stored, _). stored \<noteq> sid) sets) = filter (\<lambda>stored. stored \<noteq> sid) (map fst sets)"
  by (induction sets) auto

lemma store_set_ids:
  assumes "map fst sets = last_n MAX_SETS (remdups stored)"
  shows "map fst (store_set sid m sets) = last_n MAX_SETS (remdups (stored @ [sid]))"
proof -
  define ys where "ys = filter (\<lambda>stored. stored \<noteq> sid) (last_n (Suc 3) (remdups stored))"
  have ids: "map fst (filter (\<lambda>(stored, _). stored \<noteq> sid) sets) = ys"
    using assms by (simp add: map_fst_filter ys_def MAX_SETS_def)
  have "length (filter (\<lambda>(stored, _). stored \<noteq> sid) sets) = length ys"
    using arg_cong [OF ids, of length] by simp
  then have "map fst (store_set sid m sets) = (if length ys = Suc 3 then tl ys else ys) @ [sid]"
    by (simp add: store_set_def Let_def MAX_SETS_def map_tl ids)
  also have "\<dots> = last_n (Suc 3) (remdups (stored @ [sid]))"
    using last_n_filter [OF distinct_remdups ys_def] by (simp add: remdups_snoc last_n_snoc [of 3, simplified])
  finally show ?thesis by (simp add: MAX_SETS_def)
qed

lemma store_set_entries: "set (store_set sid m sets) \<subseteq> insert (sid, m) (set sets)"
proof -
  define f where "f = filter (\<lambda>(stored, _). stored \<noteq> sid) sets"
  have "set (tl f) \<subseteq> set f" by (cases f) auto
  moreover have "set f \<subseteq> set sets" by (auto simp: f_def)
  ultimately show ?thesis by (auto simp: store_set_def Let_def f_def [symmetric])
qed

text \<open>What resolving a request in flight does.\<close>

lemma resolve_cases:
  assumes inv: "cm_inv sy" and ok: "request_ok sy (r, m)"
    and resolve: "resolve (Some (sy_store sy)) r = (result, store, r')"
  obtains (plain) "rq_connection_metadata r = None" "result = Inr 0" "store = Some (sy_store sy)" "r' = r" "m = []"
  | (offer) cm where "rq_connection_metadata r = Some cm" "cm_metadata cm = m" "sy_history sy (cm_id cm) = Some m"
      "result = Inr (cm_id cm)" "store = Some (store_set (cm_id cm) m (sy_store sy))"
      "r' = r\<lparr>rq_connection_metadata := None, rq_metadata := merge_metadata (rq_metadata r) m\<rparr>"
  | (reference) cm where "rq_connection_metadata r = Some cm" "cm_metadata cm = []" "map_of (sy_store sy) (cm_id cm) = Some m"
      "result = Inr 0" "store = Some (sy_store sy)"
      "r' = r\<lparr>rq_connection_metadata := None, rq_metadata := merge_metadata (rq_metadata r) m\<rparr>"
  | (unknown) cm e where "rq_connection_metadata r = Some cm" "cm_metadata cm = []" "map_of (sy_store sy) (cm_id cm) = None"
      "cm_id cm \<in> set (sy_stored sy)" "result = Inl e" "store = Some (sy_store sy)"
proof (cases "rq_connection_metadata r")
  case None
  show thesis by (rule plain) (use None resolve ok in \<open>auto simp: resolve_def request_ok_def\<close>)
next
  case (Some cm)
  then have h: "sy_history sy (cm_id cm) = Some m" and
    kind: "cm_metadata cm = m \<or> cm_metadata cm = [] \<and> cm_id cm \<in> set (sy_stored sy)"
    using ok by (simp_all add: request_ok_def)
  have m: "m \<noteq> []" "validate_metadata m = Inr ()" using cm_inv_history [OF inv h] by simp_all
  show thesis
  proof (cases "cm_metadata cm = []")
    case False
    then have "cm_metadata cm = m" using kind by simp
    then show thesis by (intro offer) (use Some h m resolve in \<open>auto simp: resolve_def Let_def\<close>)
  next
    case True
    show thesis
    proof (cases "map_of (sy_store sy) (cm_id cm)")
      case None
      then show thesis
        by (intro unknown [of cm]) (use Some True kind m resolve in
          \<open>auto simp: resolve_def Let_def lookup_set_map_of ok_or_def and_then_def\<close>)
    next
      case m': (Some m')
      then have "(cm_id cm, m') \<in> set (sy_store sy)" by (rule map_of_SomeD)
      then have "m' = m" using inv h by (fastforce simp: cm_inv_def)
      with m' show thesis
        by (intro reference [of cm]) (use Some True resolve in
          \<open>auto simp: resolve_def Let_def lookup_set_map_of ok_or_def and_then_def\<close>)
    qed
  qed
qed

lemma served_inv:
  assumes inv: "cm_inv sy" and requests: "sy_requests sy = rs @ (r, m) # rs'"
    and resolve: "resolve (Some (sy_store sy)) r = (Inr confirmed, Some store, r')"
  shows "cm_inv (sy\<lparr>sy_requests := rs @ rs', sy_answers := sy_answers sy @ [confirmed], sy_store := store,
      sy_stored := sy_stored sy @ (if confirmed = 0 then [] else [confirmed])\<rparr>)" (is "cm_inv ?t")
proof -
  have ok: "request_ok sy (r, m)" using inv requests by (simp add: cm_inv_def)
  have rest: "set (rs @ rs') \<subseteq> set (sy_requests sy)" using requests by auto
  from inv ok resolve show ?thesis
  proof (cases rule: resolve_cases)
    case (offer cm)
    have id: "confirmed = cm_id cm" "confirmed \<noteq> 0" using offer cm_inv_history(1) [OF inv offer(3)] by simp_all
    have old: "\<forall>rm \<in> set (rs @ rs'). request_ok sy rm" using inv rest by (auto simp: cm_inv_def)
    have "\<forall>rm \<in> set (rs @ rs'). request_ok ?t rm"
      by (intro ballI request_ok_mono [OF old [rule_format]]) auto
    moreover have "\<forall>e \<in> set store. sy_history sy (fst e) = Some (snd e)"
      using inv offer store_set_entries [of "cm_id cm" m "sy_store sy"] by (fastforce simp: cm_inv_def)
    moreover have "map fst store = last_n MAX_SETS (remdups (sy_stored sy @ [confirmed]))"
      using inv offer id by (simp add: cm_inv_def store_set_ids)
    ultimately show ?thesis using inv id by (auto simp: cm_inv_def)
  qed (use inv rest in \<open>auto simp: cm_inv_def\<close>)
qed

lemma cm_run_inv: "cm_run sy \<Longrightarrow> cm_inv sy"
proof (induction rule: cm_run.induct)
  case connected
  show ?case by (simp add: cm_inv_def source_default_def last_n_def)
next
  case (changed sy m result s')
  then show ?case by (intro changed_inv)
next
  case (called sy r r' offered)
  then show ?case by (intro called_inv)
next
  case (served sy rs r m rs' confirmed store r')
  then show ?case by (intro served_inv)
next
  case (refused sy rs r m rs' e store r')
  then have ok: "request_ok sy (r, m)" by (simp add: cm_inv_def)
  from refused.IH ok refused.hyps(3) have "store = sy_store sy"
    by (cases rule: resolve_cases) auto
  then show ?case using refused by (simp add: cm_inv_def)
next
  case (learned sy as a as')
  then show ?case by (simp add: cm_inv_def learn_confirmed_def) blast
next
  case (lost_request sy rs r rs')
  then show ?case by (simp add: cm_inv_def)
next
  case (lost_answer sy as a as')
  then show ?case by (simp add: cm_inv_def)
qed

lemma map_of_merge: "map_of (merge_metadata own m) = map_of m ++ map_of own"
proof (induction m arbitrary: own)
  case (Cons e m)
  have "map_of (merge_metadata own (e # m)) = map_of m ++ map_of (or_insert own e)"
    using Cons by (simp add: merge_metadata_def)
  moreover have "map_of (or_insert own e) = [fst e \<mapsto> snd e] ++ map_of own"
    by (auto simp: or_insert_def map_add_def fun_eq_iff split: option.splits)
  ultimately show ?case by (cases e) (auto simp: map_add_def fun_eq_iff split: option.splits)
qed (simp add: merge_metadata_def)

text \<open>
  C11. A call reaches its handler with the connection metadata that was set when the call was made,
  overridden by the call's own entries, however requests and answers are delayed, reordered or lost:
  whether the request offered the set or referred to it makes no difference. A server refuses a
  request of a client only when it refers to a set that the server did store but that is no longer
  among the last \<open>MAX_SETS\<close> it stored on the connection.
\<close>

theorem connection_metadata_faithful:
  assumes "cm_run sy" and "(r, m) \<in> set (sy_requests sy)"
    and "resolve (Some (sy_store sy)) r = (result, store, r')"
  shows "(case result of
      Inr _ \<Rightarrow> map_of (rq_metadata r') = map_of m ++ map_of (rq_metadata r)
    | Inl _ \<Rightarrow> \<exists>cm. rq_connection_metadata r = Some cm \<and> cm_metadata cm = [] \<and>
        cm_id cm \<in> set (sy_stored sy) - set (last_n MAX_SETS (remdups (sy_stored sy))))"
proof -
  have inv: "cm_inv sy" using assms(1) by (rule cm_run_inv)
  then have ok: "request_ok sy (r, m)" using assms(2) by (simp add: cm_inv_def)
  from inv ok assms(3) show ?thesis
  proof (cases rule: resolve_cases)
    case (unknown cm e)
    then have "cm_id cm \<notin> fst ` set (sy_store sy)" by (simp add: map_of_eq_None_iff)
    moreover have "fst ` set (sy_store sy) = set (last_n MAX_SETS (remdups (sy_stored sy)))"
      using inv by (simp add: cm_inv_def flip: set_map)
    ultimately show ?thesis using unknown by auto
  qed (simp_all add: map_of_merge)
qed

lemma example_valid: "validate_metadata example_set = Inr ()"
  by (simp add: example_set_def validate_metadata_def validate_metadata_key_def is_metadata_key_byte_def
      metadata_limits RESERVED_METADATA_PREFIX_def starts_with_def saturating_add_def USIZE_MAX_def)

lemma example_system_run: "cm_run example_system"
proof -
  let ?r = "(rpc_request_new ''/s/m'')\<lparr>rq_metadata := [(''own'', [2])]\<rparr>"
  let ?s = "\<lparr>sy_source = example_source, sy_confirmed = 0, sy_requests = [], sy_answers = [],
    sy_store = [], sy_stored = [], sy_history = [1 \<mapsto> example_set]\<rparr>"
  have set: "source_set example_set source_default = (Inr (), example_source)"
    using example_valid by (simp add: source_set_def source_default_def example_source_def collect_metadata_def
        normalize_metadata_key_def to_ascii_lowercase_def example_set_def next_set_id_def Let_def)
  have "src_ids source_default \<noteq> - 1" by (simp add: source_default_def)
  with cm_run.changed [OF cm_run.connected, of example_set "Inr ()" example_source] set
  have "cm_run ?s" by (simp add: note_set_def example_source_def)
  from cm_run.called [OF this, of ?r "metadata_request example_set" True]
  have "cm_run (?s\<lparr>sy_requests := [(metadata_request example_set, example_set)]\<rparr>)"
    by (simp add: prepare_metadata_def example_source_def metadata_request_def current_metadata_def)
  from cm_run.served [OF this, of "[]" "metadata_request example_set" example_set "[]" 1 "[(1, example_set)]"
      "?r\<lparr>rq_metadata := merge_metadata [(''own'', [2])] example_set\<rparr>"]
  have "cm_run (?s\<lparr>sy_answers := [1], sy_store := [(1, example_set)], sy_stored := [1]\<rparr>)"
    using example_valid
    by (simp add: resolve_def metadata_request_def example_set_def rpc_request_new_def store_set_def MAX_SETS_def Let_def)
  from cm_run.learned [OF this, of "[]" 1 "[]"]
  have "cm_run (?s\<lparr>sy_confirmed := 1, sy_store := [(1, example_set)], sy_stored := [1]\<rparr>)"
    by (simp add: learn_confirmed_def example_source_def)
  from cm_run.called [OF this, of ?r "metadata_request []" False]
  show ?thesis
    by (simp add: prepare_metadata_def example_source_def metadata_request_def current_metadata_def example_system_def)
qed

theorem connection_metadata_faithful_witness:
  "map_of (rq_metadata (snd (snd (resolve (Some (sy_store example_system)) (metadata_request []))))) ''k'' = Some [1]"
proof -
  obtain result store r' where r: "resolve (Some (sy_store example_system)) (metadata_request []) = (result, store, r')"
    by (rule prod_cases3)
  have "result = Inr 0" using r
    by (auto simp: resolve_def metadata_request_def example_system_def lookup_set_def Let_def ok_or_def and_then_def)
  with connection_metadata_faithful [OF example_system_run _ r, of example_set]
  have "map_of (rq_metadata r') = map_of example_set ++ map_of [(''own'', [2])]"
    by (simp add: example_system_def metadata_request_def)
  then show ?thesis unfolding r by (simp add: example_set_def)
qed

text \<open>
  The server keeps the sets it stored last, not the newest: after late offers of four older sets a
  reference to the confirmed current one is refused.
\<close>

lemma newest_set_evicted:
  "lookup_set 5 (foldl (\<lambda>sets sid. store_set sid example_set sets) [] [5, 1, 2, 3, 4]) = None"
  by (simp add: store_set_def lookup_set_def MAX_SETS_def Let_def)

end
