(* ===== verification/Framed_Calls.thy ===== *)
theory Framed_Calls
  imports Frame_Writers Stream_Readers Connection_Metadata
begin

text \<open>
  The reading half of \<open>framed.rs\<close>: the server reads the REQUEST frame and the request messages of a
  call, the client its response frames, among them the ANSWER, which it learns. What a call shares with
  its connection and its upload is one record, on which \<open>ResponseReading\<close> acts where the source holds
  an \<open>Arc\<close>.
\<close>

subsection \<open>Computations on a part of the state\<close>

definition io_fst :: "('s, 'a) io \<Rightarrow> ('s \<times> 't, 'a) io" where
  "io_fst m st = map_option (\<lambda>(r, s). (r, (s, snd st))) (m (fst st))"

definition io_snd :: "('t, 'a) io \<Rightarrow> ('s \<times> 't, 'a) io" where
  "io_snd m st = map_option (\<lambda>(r, t). (r, (fst st, t))) (m (snd st))"

subsection \<open>Compressed messages\<close>

definition NOT_STREAM_COMPRESSED :: string where
  "NOT_STREAM_COMPRESSED = ''stream-compressed message where stream compression is not enabled''"

definition inflate_message ::
  "zstd_lib \<Rightarrow> (string \<Rightarrow> status) \<Rightarrow> bytes \<Rightarrow> usize \<Rightarrow> (accept, bytes) io" where
  "inflate_message Z invalid payload max_frame_size accept =
     (case inflate Z accept payload max_frame_size of
        (r, accept) \<Rightarrow> Some (map_err (rejected_into_error invalid) r, accept))"

definition inflate_streamed ::
  "('e, 'd) stream_lib \<Rightarrow> (string \<Rightarrow> status) \<Rightarrow> bytes \<Rightarrow> usize \<Rightarrow> ('d inflater option, bytes) io" where
  "inflate_streamed L invalid payload max_frame_size stream =
     (case stream of
        None \<Rightarrow> io_err (EStatus (invalid NOT_STREAM_COMPRESSED)) None
      | Some stream \<Rightarrow>
          map_option (\<lambda>(r, stream). (map_err (rejected_into_error invalid) r, Some stream))
            (inflater_decode L payload max_frame_size stream))"

subsection \<open>The request half\<close>

definition request_error :: "string \<Rightarrow> error" where
  "request_error message = EStatus (invalid_argument message)"

definition read_request ::
  "'s frame_read \<Rightarrow> protobuf \<Rightarrow> usize \<Rightarrow> ('c \<Rightarrow> usize \<Rightarrow> 'c result) \<Rightarrow> 'c \<Rightarrow> ('s, rpc_request \<times> 'c) io" where
  "read_request R P max_frame_size on_skipped c =
     io_bind (next_known_header R max_frame_size on_skipped c) (\<lambda>(header, c).
     io_bind (io_lift (ok_or header unexpected_eof)) (\<lambda>header.
       if fh_frame_type header \<noteq> REQUEST
       then io_err (request_error ''request stream must begin with a REQUEST frame'')
       else
         io_bind (read_payload R (fh_payload_len header)) (\<lambda>payload.
         io_bind (io_lift (decode_payload (pb_decode_request P) RpcRequest_type payload)) (\<lambda>request.
           io_ret (request, c)))))"

text \<open>The state: the receive stream, what the server accepts, and its stream decompressor.\<close>

definition read_request_frame ::
  "'s frame_read \<Rightarrow> zstd_lib \<Rightarrow> ('e, 'd) stream_lib \<Rightarrow> usize \<Rightarrow> ('c \<Rightarrow> usize \<Rightarrow> 'c result) \<Rightarrow> 'c \<Rightarrow>
   ('s \<times> accept \<times> 'd inflater option, bytes option \<times> 'c) io" where
  "read_request_frame R Z L max_frame_size on_skipped c =
     io_bind (io_fst (next_known_header R max_frame_size on_skipped c)) (\<lambda>(header, c).
       case header of
         None \<Rightarrow> io_ret (None, c)
       | Some header \<Rightarrow>
           (let payload = io_fst (read_payload R (fh_payload_len header)) in
            if fh_frame_type header = MESSAGE then
              io_bind payload (\<lambda>message. io_ret (Some message, c))
            else if fh_frame_type header = ZSTD_MESSAGE then
              io_bind payload (\<lambda>payload.
              io_bind (io_snd (io_fst (inflate_message Z invalid_argument payload max_frame_size)))
                (\<lambda>message. io_ret (Some message, c)))
            else if fh_frame_type header = ZSTD_STREAM_MESSAGE then
              (\<lambda>s. if snd (snd s) = None then io_err (request_error NOT_STREAM_COMPRESSED) s
                   else
                     io_bind payload (\<lambda>payload.
                     io_bind (io_snd (io_snd (inflate_streamed L invalid_argument payload max_frame_size)))
                       (\<lambda>message. io_ret (Some message, c))) s)
            else if fh_frame_type header = REQUEST then
              io_err (request_error ''request stream contained a second REQUEST'')
            else if fh_frame_type header = HEADERS then
              io_err (request_error ''request stream contained a HEADERS frame'')
            else if fh_frame_type header = STATUS then
              io_err (request_error ''request stream contained a STATUS frame'')
            else io_err (request_error ''request stream contained an ANSWER frame'')))"

definition read_request_end ::
  "'s frame_read \<Rightarrow> usize \<Rightarrow> ('c \<Rightarrow> usize \<Rightarrow> 'c result) \<Rightarrow> 'c \<Rightarrow> string \<Rightarrow> ('s, 'c) io" where
  "read_request_end R max_frame_size on_skipped c unexpected =
     io_bind (next_known_header R max_frame_size on_skipped c) (\<lambda>(header, c).
       case header of
         Some _ \<Rightarrow> io_err (request_error unexpected)
       | None \<Rightarrow> io_ret c)"

subsection \<open>The response half\<close>

text \<open>What the call shares: the connection's state, the switch of its requests, and its replay.\<close>

record call_shared =
  sh_compression :: client_compression
  sh_source :: metadata_source
  sh_confirmed :: u32
  sh_enabled :: bool
  sh_replay :: replay
  sh_available :: usize
  sh_optimism :: bool
  sh_woken :: "waker list"

text \<open>\<open>ResponseReading\<close>: an optional handle is whether the call has it.\<close>

record 'd response_reading =
  rr_accept :: accept
  rr_learn :: bool
  rr_stream :: "'d inflater option"
  rr_enable_requests :: bool
  rr_replay :: bool
  rr_refused :: bool
  rr_optimism :: bool
  rr_connection_metadata :: bool
  rr_answer_closed :: bool
  rr_shared :: call_shared

definition settle_replay :: "call_shared \<Rightarrow> call_shared" where
  "settle_replay sh =
     (case settle (sh_available sh) (sh_replay sh) of
        (ws, available, replay) \<Rightarrow>
          sh\<lparr>sh_woken := sh_woken sh @ ws, sh_available := available, sh_replay := replay\<rparr>)"

definition internal_error :: "string \<Rightarrow> error" where
  "internal_error message = EStatus (internal message)"

definition reading_start :: "bool \<Rightarrow> ('d response_reading, unit) io" where
  "reading_start status_frame r =
     (if \<not> rr_answer_closed r then
        (let r = r\<lparr>rr_answer_closed := True\<rparr> in
         if rr_replay r \<and> \<not> status_frame
         then io_err (internal_error ''optimistic call responded without an ANSWER'') r
         else io_ret () r)
      else io_ret () r)"

definition reading_answer :: "rpc_answer \<Rightarrow> ('d response_reading, unit) io" where
  "reading_answer answer r =
     (if rr_answer_closed r
      then io_err (internal_error ''response stream contained an ANSWER after its first frame'') r
      else
        (let r = r\<lparr>rr_answer_closed := True\<rparr>;
             sh = rr_shared r;
             sh = (if rr_learn r
                   then sh\<lparr>sh_compression := learn (sh_compression sh) (an_dictionaries answer)\<rparr> else sh);
             sh = (if rr_connection_metadata r
                   then sh\<lparr>sh_confirmed :=
                          learn_confirmed (sh_source sh) (an_connection_metadata answer) (sh_confirmed sh)\<rparr>
                   else sh);
             sh = (if rr_enable_requests r
                   then sh\<lparr>sh_enabled := stream_enable (sh_enabled sh) (an_stream_compression answer)\<rparr>
                   else sh);
             optimistic = rr_replay r;
             r = r\<lparr>rr_learn := False, rr_connection_metadata := False, rr_enable_requests := False,
                   rr_replay := False\<rparr> in
         if optimistic \<and> \<not> an_stream_compression answer
         then io_err (internal_error ''optimistic call answered without accepting stream compression'')
                (r\<lparr>rr_shared := sh\<rparr>)
         else
           (let sh = (if optimistic then settle_replay sh else sh);
                sh = (if an_stream_compression answer \<and> rr_optimism r
                      then sh\<lparr>sh_optimism := optimism_answered (sh_optimism sh)\<rparr> else sh) in
            io_ret () (r\<lparr>rr_shared := sh\<rparr>))))"

definition on_accept :: "(accept, 'a) io \<Rightarrow> ('d response_reading, 'a) io" where
  "on_accept m r = map_option (\<lambda>(x, a). (x, r\<lparr>rr_accept := a\<rparr>)) (m (rr_accept r))"

definition on_stream :: "('d inflater option, 'a) io \<Rightarrow> ('d response_reading, 'a) io" where
  "on_stream m r = map_option (\<lambda>(x, i). (x, r\<lparr>rr_stream := i\<rparr>)) (m (rr_stream r))"

text \<open>The STATUS of a call decides an optimistic one: the server refused it, or it is settled.\<close>

definition reading_status :: "rpc_status \<Rightarrow> ('d response_reading, response_frame) io" where
  "reading_status status r =
     io_ret (Status (status_from_rpc_status status))
       (if rr_replay r then
          (let r = r\<lparr>rr_replay := False\<rparr>; sh = rr_shared r in
           if rs_refused_stream_compression status
           then r\<lparr>rr_refused := True,
                  rr_shared := (if rr_optimism r
                                then sh\<lparr>sh_optimism := optimism_refused (sh_optimism sh)\<rparr> else sh)\<rparr>
           else r\<lparr>rr_shared := settle_replay sh\<rparr>)
        else r)"

definition decode_response_frame ::
  "protobuf \<Rightarrow> zstd_lib \<Rightarrow> ('e, 'd) stream_lib \<Rightarrow> u64 \<Rightarrow> bytes \<Rightarrow> usize \<Rightarrow>
   ('d response_reading, response_frame option) io" where
  "decode_response_frame P Z L frame_type payload max_frame_size =
     (if frame_type = ANSWER then
        io_bind (io_lift (decode_payload (pb_decode_answer P) RpcAnswer_type payload)) (\<lambda>answer.
        io_bind (reading_answer answer) (\<lambda>_. io_ret None))
      else
        io_bind (reading_start (frame_type = STATUS)) (\<lambda>_.
        io_bind
          (if frame_type = MESSAGE then io_ret (Message payload)
           else if frame_type = ZSTD_MESSAGE then
             io_bind (on_accept (inflate_message Z internal payload max_frame_size)) (io_ret \<circ> Message)
           else if frame_type = ZSTD_STREAM_MESSAGE then
             io_bind (on_stream (inflate_streamed L internal payload max_frame_size)) (io_ret \<circ> Message)
           else if frame_type = HEADERS then
             io_bind (io_lift (decode_payload (pb_decode_headers P) RpcHeaders_type payload)) (\<lambda>headers.
               io_ret (Headers (hd_metadata headers)))
           else if frame_type = STATUS then
             io_bind (io_lift (decode_payload (pb_decode_status P) RpcStatus_type payload)) reading_status
           else io_err (internal_error ''response stream contained a REQUEST frame''))
          (io_ret \<circ> Some)))"

text \<open>A response reader ignores the frames it skips.\<close>

abbreviation ignore_skipped :: "unit \<Rightarrow> usize \<Rightarrow> unit result" where
  "ignore_skipped \<equiv> \<lambda>_ _. Inr ()"

partial_function (option) read_response_frame ::
  "'s frame_read \<Rightarrow> protobuf \<Rightarrow> zstd_lib \<Rightarrow> ('e, 'd) stream_lib \<Rightarrow> usize \<Rightarrow> 's \<times> 'd response_reading \<Rightarrow>
   (response_frame option result \<times> ('s \<times> 'd response_reading)) option" where
  "read_response_frame R P Z L max_frame_size s =
     io_bind (io_fst (next_known_header R max_frame_size ignore_skipped ())) (\<lambda>(header, _).
       case header of
         None \<Rightarrow> io_ret None
       | Some header \<Rightarrow>
           io_bind
             (if fh_frame_type header = REQUEST then io_ret []
              else io_fst (read_payload R (fh_payload_len header))) (\<lambda>payload.
           io_bind (io_snd (decode_response_frame P Z L (fh_frame_type header) payload max_frame_size))
             (\<lambda>frame.
             case frame of
               Some frame \<Rightarrow> io_ret (Some frame)
             | None \<Rightarrow> read_response_frame R P Z L max_frame_size))) s"

definition drain_fin_after_terminal_status ::
  "'s frame_read \<Rightarrow> usize \<Rightarrow> string \<Rightarrow> ('s, unit) io" where
  "drain_fin_after_terminal_status R max_frame_size stream_name =
     io_bind (next_known_header R max_frame_size ignore_skipped ()) (\<lambda>(header, _).
       if header \<noteq> None
       then io_err (internal_error (stream_name @ '' continued after terminal status''))
       else io_ret ())"

subsection \<open>Specification\<close>

text \<open>Reading the request messages up to the end of the stream.\<close>

partial_function (option) read_messages ::
  "'s frame_read \<Rightarrow> zstd_lib \<Rightarrow> ('e, 'd) stream_lib \<Rightarrow> usize \<Rightarrow> ('c \<Rightarrow> usize \<Rightarrow> 'c result) \<Rightarrow> 'c \<Rightarrow> bytes list \<Rightarrow>
   's \<times> accept \<times> 'd inflater option \<Rightarrow> ((bytes list \<times> 'c) result \<times> ('s \<times> accept \<times> 'd inflater option)) option" where
  "read_messages R Z L limit on_skipped c messages s =
     io_bind (read_request_frame R Z L limit on_skipped c) (\<lambda>(message, c).
       case message of
         None \<Rightarrow> io_ret (messages, c)
       | Some message \<Rightarrow> read_messages R Z L limit on_skipped c (messages @ [message])) s"

text \<open>What the protobuf library and the two ends rely on: a request that its decoder gives back.\<close>

definition request_survives :: "protobuf \<Rightarrow> rpc_request \<Rightarrow> bool" where
  "request_survives P request \<longleftrightarrow>
     decode_payload (pb_decode_request P) RpcRequest_type (pb_request P request) = Inr request"

partial_function (option) read_responses ::
  "'s frame_read \<Rightarrow> protobuf \<Rightarrow> zstd_lib \<Rightarrow> ('e, 'd) stream_lib \<Rightarrow> usize \<Rightarrow> response_frame list \<Rightarrow>
   's \<times> 'd response_reading \<Rightarrow> (response_frame list result \<times> ('s \<times> 'd response_reading)) option" where
  "read_responses R P Z L limit frames s =
     io_bind (read_response_frame R P Z L limit) (\<lambda>frame.
       case frame of
         None \<Rightarrow> io_ret frames
       | Some frame \<Rightarrow> read_responses R P Z L limit (frames @ [frame])) s"

fun frame_survives :: "protobuf \<Rightarrow> response_frame \<Rightarrow> bool" where
  "frame_survives P (Message body) \<longleftrightarrow> True"
| "frame_survives P (Headers metadata) \<longleftrightarrow>
     decode_payload (pb_decode_headers P) RpcHeaders_type (pb_headers P \<lparr>hd_metadata = metadata\<rparr>) =
       Inr \<lparr>hd_metadata = metadata\<rparr>"
| "frame_survives P (Status status) \<longleftrightarrow>
     decode_payload (pb_decode_status P) RpcStatus_type (pb_status P (rpc_status_from_status status)) =
       Inr (rpc_status_from_status status)"

definition answer_survives :: "protobuf \<Rightarrow> rpc_answer \<Rightarrow> bool" where
  "answer_survives P answer \<longleftrightarrow>
     decode_payload (pb_decode_answer P) RpcAnswer_type (pb_answer P answer) = Inr answer"

text \<open>What the client receives of a frame: a status never claims to refuse stream compression.\<close>

fun received :: "response_frame \<Rightarrow> response_frame" where
  "received (Status status) = Status (status\<lparr>st_refused_stream_compression := False\<rparr>)"
| "received frame = frame"

text \<open>What a call has learned from its ANSWER.\<close>

definition learned :: "rpc_answer \<Rightarrow> 'd response_reading \<Rightarrow> 'd response_reading \<Rightarrow> bool" where
  "learned answer r r' \<longleftrightarrow>
     sh_compression (rr_shared r') =
       (if rr_learn r then learn (sh_compression (rr_shared r)) (an_dictionaries answer)
        else sh_compression (rr_shared r)) \<and>
     sh_confirmed (rr_shared r') =
       (if rr_connection_metadata r
        then learn_confirmed (sh_source (rr_shared r)) (an_connection_metadata answer) (sh_confirmed (rr_shared r))
        else sh_confirmed (rr_shared r)) \<and>
     sh_enabled (rr_shared r') =
       (sh_enabled (rr_shared r) \<or> rr_enable_requests r \<and> an_stream_compression answer) \<and>
     (rr_replay r \<longrightarrow> rp_decision (sh_replay (rr_shared r')) \<noteq> DecisionPending)"

definition sends_answer :: "response_frame list list \<Rightarrow> bool" where
  "sends_answer batches \<longleftrightarrow> list_ex takes_answer batches"

definition kept :: "'d response_reading \<Rightarrow> 'd response_reading \<Rightarrow> bool" where
  "kept r r' \<longleftrightarrow> rr_answer_closed r' \<and> \<not> rr_replay r' \<and> rr_stream r' = rr_stream r \<and>
     accept_lookup (rr_accept r') = accept_lookup (rr_accept r) \<and>
     (\<not> rr_replay r \<longrightarrow> rr_shared r' = rr_shared r)"

text \<open>The error a server answers a frame with that has no place among the request messages.\<close>

definition misplaced_request :: "u64 \<Rightarrow> error" where
  "misplaced_request ty = request_error
     (if ty = REQUEST then ''request stream contained a second REQUEST''
      else if ty = HEADERS then ''request stream contained a HEADERS frame''
      else if ty = STATUS then ''request stream contained a STATUS frame''
      else if ty = ANSWER then ''request stream contained an ANSWER frame''
      else NOT_STREAM_COMPRESSED)"

definition example_protobuf :: protobuf where
  "example_protobuf =
     \<lparr>pb_request = \<lambda>_. [0x0a, 4, 0x2f, 0x73, 0x2f, 0x6d],
      pb_headers = \<lambda>_. [],
      pb_answer = \<lambda>_. [0x10, 1],
      pb_status = \<lambda>_. [0x08, 5],
      pb_decode_request = \<lambda>_. Inr (rpc_request_new ''/s/m''),
      pb_decode_headers = \<lambda>_. Inr \<lparr>hd_metadata = []\<rparr>,
      pb_decode_answer = \<lambda>_. Inr \<lparr>an_dictionaries = [], an_stream_compression = True, an_connection_metadata = 0\<rparr>,
      pb_decode_status = \<lambda>_. Inr (rpc_status_from_status (not_found []))\<rparr>"

definition example_writes :: "(bytes list, unit, unit) write_lib" where
  "example_writes = write_lib.make example_protobuf rle_zstd raw_lib
     (\<lambda>n. (client_compression_new plain_only, False)) sink_write"

definition example_writer :: "(bytes list, unit) writer" where
  "example_writer = \<lparr>wr_send = [], wr_available = 0,
     wr_encoder = message_encoder_new (KnownDict (dict_plain 1)), wr_encoded = 0\<rparr>"

definition example_body :: request_stream where
  "example_body = [Ready (Some (Inr [1, 2])), Pending, Ready (Some (Inr (replicate 300 7))), Ready None]"

definition example_responder :: "(bytes list, unit) responder" where
  "example_responder = \<lparr>wr_send = [], wr_available = 0,
     wr_encoder = message_encoder_new (KnownDict (dict_plain 1)), wr_encoded = 0,
     rc_answer = Some \<lparr>an_dictionaries = [], an_stream_compression = True, an_connection_metadata = 0\<rparr>\<rparr>"

definition example_batches :: "response_frame list list" where
  "example_batches = [[Headers [], Message [1, 2]], [Message (replicate 300 7)], [Status (not_found [])]]"

definition example_reading :: "unit response_reading" where
  "example_reading =
     \<lparr>rr_accept = AcceptOne (dict_plain 1), rr_learn = True, rr_stream = None, rr_enable_requests = True,
      rr_replay = True, rr_refused = False, rr_optimism = True, rr_connection_metadata = False,
      rr_answer_closed = False,
      rr_shared = \<lparr>sh_compression = client_compression_new plain_only, sh_source = source_default,
        sh_confirmed = 0, sh_enabled = False, sh_replay = replay_new example_body, sh_available = 0,
        sh_optimism = True, sh_woken = []\<rparr>\<rparr>"

subsection \<open>Properties\<close>

lemma io_part_simps [simp]:
  "m (fst st) = Some (r, s) \<Longrightarrow> io_fst m st = Some (r, (s, snd st))"
  "k (snd st) = Some (r, t) \<Longrightarrow> io_snd k st = Some (r, (fst st, t))"
  by (simp_all add: io_fst_def io_snd_def)

lemma inflate_message_frame:
  assumes "zstd_laws Z" "message_frame Z d message = (ZSTD_MESSAGE, payload)" "shares_dict accept d"
    "length message \<le> limit" "limit \<le> USIZE_MAX"
  shows "\<exists>accept'. inflate_message Z invalid payload limit accept = Some (Inr message, accept') \<and>
    accept_lookup accept' = accept_lookup accept"
  using inflate_shared [OF assms] by (auto simp: inflate_message_def)

lemma message_frame_type:
  "message_frame Z d message = (MESSAGE, message) \<or> (\<exists>payload. message_frame Z d message = (ZSTD_MESSAGE, payload))"
  by (simp add: message_frame_def split: option.splits)

lemma stream_known_frame:
  assumes "ty \<le> ANSWER" "length payload \<le> limit" "limit < 2 ^ 62"
  shows "stream_known limit on_skipped c (frame_bytes (ty, payload) @ rest, e) =
    (Inr (Some \<lparr>fh_frame_type = ty, fh_payload_len = length payload,
       fh_header_len = length (frame_bytes (ty, payload)) - length payload\<rparr>, c), (payload @ rest, e))"
proof -
  have "limit \<le> USIZE_MAX" using assms(3) by (simp add: USIZE_MAX_def)
  from stream_header_encoded [OF encode_frame_ok [OF assms] this] assms(1) show ?thesis
    by (simp add: stream_known.simps is_known_frame_type_def)
qed

context frame_reader
begin

lemma next_frame_read:
  assumes "valid s" "content s = (frame_bytes (ty, payload) @ rest, e)"
    and "ty \<le> ANSWER" "length payload \<le> limit" "limit < 2 ^ 62"
  obtains h s1 s2 where "next_known_header R limit on_skipped c s = Some (Inr (Some h, c), s1)"
    "fh_frame_type h = ty" "read_payload R (fh_payload_len h) s1 = Some (Inr payload, s2)"
    "valid s2" "content s2 = (rest, e)"
proof -
  note known = stream_known_frame [OF assms(3-5), of on_skipped c rest e, folded assms(2)]
  from next_known_header_implements [OF assms(1)] known obtain s1 where
    s1: "next_known_header R limit on_skipped c s = Some (Inr (Some \<lparr>fh_frame_type = ty, fh_payload_len = length payload,
       fh_header_len = length (frame_bytes (ty, payload)) - length payload\<rparr>, c), s1)"
    "valid s1" "content s1 = (payload @ rest, e)"
    by (rule implementsD) simp
  then have "stream_body (length payload) (content s1) = (Inr payload, (rest, e))"
    by (simp add: stream_body_def)
  with read_payload_implements [OF s1(2)] obtain s2
    where "read_payload R (length payload) s1 = Some (Inr payload, s2)" "valid s2" "content s2 = (rest, e)"
    by (rule implementsD) simp
  with s1 show thesis by (intro that [OF s1(1)]) simp_all
qed

lemma next_header_end:
  assumes "valid s" "content s = ([], Inr ())"
  obtains s1 where "next_known_header R limit on_skipped c s = Some (Inr (None, c), s1)"
    "valid s1" "content s1 = ([], Inr ())"
proof -
  have "stream_known limit on_skipped c (content s) = (Inr (None, c), ([], Inr ()))"
    by (simp add: assms(2) stream_known.simps stream_header_def)
  with next_known_header_implements [OF assms(1)] obtain s1 where
    "next_known_header R limit on_skipped c s = Some (Inr (None, c), s1)" "valid s1" "content s1 = ([], Inr ())"
    by (rule implementsD) simp
  then show thesis by (rule that)
qed

lemma read_request_frame_message:
  assumes "valid s" "content s = (frame_bytes (message_frame Z d message) @ rest, e)"
    and "length message \<le> limit" "limit < 2 ^ 62" "zstd_laws Z" "shares_dict accept d"
  shows "\<exists>s' accept'. read_request_frame R Z L limit on_skipped c (s, accept, i) =
      Some (Inr (Some message, c), (s', accept', i)) \<and> valid s' \<and> content s' = (rest, e) \<and>
    accept_lookup accept' = accept_lookup accept"
proof -
  obtain ty payload where f: "message_frame Z d message = (ty, payload)" by (rule prod.exhaust)
  have "ty \<le> ANSWER" "length payload \<le> limit"
    using message_frame_bounds [of Z d message] assms(3) by (simp_all add: f)
  from next_frame_read [OF assms(1) assms(2) [unfolded f] this assms(4), of on_skipped c] obtain h s1 s2 where
    h: "next_known_header R limit on_skipped c s = Some (Inr (Some h, c), s1)" "fh_frame_type h = ty"
    "read_payload R (fh_payload_len h) s1 = Some (Inr payload, s2)" "valid s2" "content s2 = (rest, e)" .
  from message_frame_type [of Z d message] show ?thesis
  proof (elim disjE exE)
    assume "message_frame Z d message = (MESSAGE, message)"
    with f h show ?thesis by (simp add: read_request_frame_def io_ret_def)
  next
    fix p
    assume z: "message_frame Z d message = (ZSTD_MESSAGE, p)"
    have "limit \<le> USIZE_MAX" using assms(4) by (simp add: USIZE_MAX_def)
    from inflate_message_frame [OF assms(5) z assms(6,3) this] obtain accept' where
      "inflate_message Z invalid_argument p limit accept = Some (Inr message, accept')"
      "accept_lookup accept' = accept_lookup accept" by blast
    with z f h show ?thesis by (simp add: read_request_frame_def io_ret_def frame_type_defs)
  qed
qed

lemma read_messages_all:
  assumes "valid s" "content s = (wire_bytes (message_frames W m n messages), Inr ())"
    and "\<forall>message \<in> set messages. length message \<le> limit" "limit < 2 ^ 62" "zstd_laws (wl_zstd W)"
    "\<forall>n. shares_dict accept (dict_at W m n)"
  shows "\<exists>s' accept'. read_messages R (wl_zstd W) L limit on_skipped c before (s, accept, i) =
    Some (Inr (before @ messages, c), (s', accept', i))"
  using assms
proof (induction messages arbitrary: s n accept before)
  case Nil
  from Nil.prems have "content s = ([], Inr ())" by simp
  from next_header_end [OF Nil.prems(1) this, of limit on_skipped c] obtain s1 where
    "next_known_header R limit on_skipped c s = Some (Inr (None, c), s1)" .
  then show ?case by (simp add: read_messages.simps [of R _ L] read_request_frame_def io_ret_def)
next
  case (Cons message messages)
  from Cons.prems have "content s = (frame_bytes (message_frame (wl_zstd W) (dict_at W m n) message) @
      wire_bytes (message_frames W m (n + 1) messages), Inr ())" "length message \<le> limit"
    "shares_dict accept (dict_at W m n)" by simp_all
  from read_request_frame_message [OF Cons.prems(1) this(1,2) Cons.prems(4,5) this(3), of L on_skipped c i]
  obtain s' accept' where
    step: "read_request_frame R (wl_zstd W) L limit on_skipped c (s, accept, i) =
      Some (Inr (Some message, c), (s', accept', i))" "valid s'"
    "content s' = (wire_bytes (message_frames W m (n + 1) messages), Inr ())"
    "accept_lookup accept' = accept_lookup accept" by blast
  from Cons.IH [OF step(2,3), of accept' "before @ [message]"] Cons.prems step(4)
  show ?case
    using shares_dict_cong [OF step(4)]
    by (auto simp: read_messages.simps [of R _ L limit on_skipped c before "(s, accept, i)"] step(1))
qed

lemma read_request_ok:
  assumes "valid s" "content s = (frame_bytes (REQUEST, pb_request P request) @ rest, e)"
    and "length (pb_request P request) \<le> limit" "limit < 2 ^ 62" "request_survives P request"
  obtains s' where "read_request R P limit on_skipped c s = Some (Inr (request, c), s')" "valid s'"
    "content s' = (rest, e)"
proof -
  have "REQUEST \<le> ANSWER" by (simp add: frame_type_defs)
  from next_frame_read [OF assms(1,2) this assms(3,4), of on_skipped c] obtain h s1 s2 where
    h: "next_known_header R limit on_skipped c s = Some (Inr (Some h, c), s1)" "fh_frame_type h = REQUEST"
    "read_payload R (fh_payload_len h) s1 = Some (Inr (pb_request P request), s2)" "valid s2" "content s2 = (rest, e)" .
  with assms(5) show thesis
    by (intro that [of s2]) (simp_all add: read_request_def request_survives_def io_lift_def io_ret_def ok_or_def)
qed

end

lemma message_count_of_append [simp]:
  "message_count_of (xs @ ys) = message_count_of xs + message_count_of ys"
  by (induction xs rule: message_count_of.induct) simp_all

lemma response_frames_append:
  "response_frames W m n (xs @ ys) = response_frames W m n xs @ response_frames W m (n + message_count_of xs) ys"
  by (induction W m n xs rule: response_frames.induct) simp_all

lemma batch_frames_answered:
  "batch_frames W m n None batches = response_frames W m n (concat batches)"
  by (induction batches arbitrary: n) (simp_all add: answer_frames_def Let_def response_frames_append)

lemma batch_frames_eq:
  assumes "list_all takes_answer (butlast batches)"
  shows "batch_frames W m n answer batches =
    answer_frames W (if sends_answer batches then answer else None) @ response_frames W m n (concat batches)"
proof (cases batches)
  case Nil
  then show ?thesis by (simp add: sends_answer_def answer_frames_def)
next
  case (Cons frames rest)
  show ?thesis
  proof (cases "takes_answer frames")
    case True
    with Cons show ?thesis
      by (simp add: sends_answer_def batch_frames_answered response_frames_append Let_def)
  next
    case False
    with Cons assms have "rest = []" by (cases rest) auto
    with Cons False show ?thesis by (simp add: sends_answer_def Let_def)
  qed
qed

lemma settle_decided: "rp_decision (sh_replay (settle_replay sh)) \<noteq> DecisionPending"
  by (auto simp: settle_replay_def settle_def replay_wake_def split: prod.splits)

lemma settle_replay_keeps [simp]:
  "sh_compression (settle_replay sh) = sh_compression sh" "sh_confirmed (settle_replay sh) = sh_confirmed sh"
  "sh_enabled (settle_replay sh) = sh_enabled sh" "sh_source (settle_replay sh) = sh_source sh"
  by (simp_all add: settle_replay_def split: prod.splits)

lemma reading_answer_ok:
  assumes "\<not> rr_answer_closed r" "rr_replay r \<longrightarrow> an_stream_compression answer"
  obtains r' where "reading_answer answer r = Some (Inr (), r')" "learned answer r r'" "rr_answer_closed r'"
    "\<not> rr_replay r'" "rr_accept r' = rr_accept r" "rr_stream r' = rr_stream r"
proof -
  obtain r' where r': "reading_answer answer r = Some (Inr (), r')"
    using assms by (auto simp: reading_answer_def Let_def io_defs split: if_split_asm)
  then have "learned answer r r' \<and> rr_answer_closed r' \<and> \<not> rr_replay r' \<and> rr_accept r' = rr_accept r \<and>
      rr_stream r' = rr_stream r"
    using assms
    by (auto simp: reading_answer_def Let_def io_defs learned_def stream_enable_def settle_decided split: if_split_asm)
  with r' that show thesis by blast
qed

lemma status_received:
  "status_from_rpc_status (rpc_status_from_status s) = s\<lparr>st_refused_stream_compression := False\<rparr>"
  by (simp add: status_from_rpc_status_def rpc_status_from_status_def with_metadata_def status_new_def)

text \<open>A frame after the ANSWER, or a status without one, changes nothing that a call learned.\<close>

lemma reading_start_ok:
  assumes "\<not> rr_replay r \<or> status_frame"
  shows "reading_start status_frame r = Some (Inr (), r\<lparr>rr_answer_closed := True\<rparr>)"
  using assms by (cases r) (auto simp: reading_start_def Let_def io_defs)

lemma decode_response_frame_ok:
  assumes "response_frames W m n [frame] = [(ty, payload)]" "frame_survives (wl_protobuf W) frame"
    "zstd_laws (wl_zstd W)" "shares_dict (rr_accept r) (dict_at W m n)"
    "frame_fits (wl_protobuf W) limit frame" "limit < 2 ^ 62" "\<not> rr_replay r \<or> is_status frame"
  obtains r' where "decode_response_frame (wl_protobuf W) (wl_zstd W) L ty payload limit r =
      Some (Inr (Some (received frame)), r')" "kept r r'"
proof (cases frame)
  case (Message message)
  with assms(1) have f: "message_frame (wl_zstd W) (dict_at W m n) message = (ty, payload)" by simp
  from assms(7) Message have replay: "\<not> rr_replay r" by simp
  from message_frame_type [of "wl_zstd W" "dict_at W m n" message] show thesis
  proof (elim disjE exE)
    assume "message_frame (wl_zstd W) (dict_at W m n) message = (MESSAGE, message)"
    with f replay Message show thesis
      by (intro that [of "r\<lparr>rr_answer_closed := True\<rparr>"])
        (simp_all add: decode_response_frame_def reading_start_ok frame_type_defs io_ret_def kept_def)
  next
    fix p
    assume z: "message_frame (wl_zstd W) (dict_at W m n) message = (ZSTD_MESSAGE, p)"
    have "limit \<le> USIZE_MAX" using assms(6) by (simp add: USIZE_MAX_def)
    from inflate_message_frame [OF assms(3) z assms(4) _ this, of internal] assms(5) Message obtain accept' where
      "inflate_message (wl_zstd W) internal p limit (rr_accept r) = Some (Inr message, accept')"
      "accept_lookup accept' = accept_lookup (rr_accept r)" by auto
    with f z replay Message show thesis
      by (intro that [of "r\<lparr>rr_answer_closed := True, rr_accept := accept'\<rparr>"])
        (simp_all add: decode_response_frame_def reading_start_ok frame_type_defs io_ret_def on_accept_def kept_def)
  qed
next
  case (Headers metadata)
  with assms(1,2,7) show thesis
    by (intro that [of "r\<lparr>rr_answer_closed := True\<rparr>"])
      (auto simp: decode_response_frame_def reading_start_ok frame_type_defs io_ret_def io_lift_def kept_def)
next
  case (Status status)
  define r1 where "r1 = r\<lparr>rr_answer_closed := True\<rparr>"
  obtain r' where r': "reading_status (rpc_status_from_status status) r1 =
      Some (Inr (Status (status\<lparr>st_refused_stream_compression := False\<rparr>)), r')" "kept r r'"
    by (auto simp: reading_status_def io_ret_def Let_def kept_def r1_def status_received split: if_split_asm)
  with assms(1,2) Status show thesis
    by (intro that [of r'])
      (auto simp: decode_response_frame_def reading_start_ok frame_type_defs io_ret_def io_lift_def r1_def)
qed

lemma response_frame_bounds:
  assumes "response_frames W m n [frame] = [(ty, payload)]" "frame_fits (wl_protobuf W) limit frame"
  shows "ty \<le> ANSWER \<and> length payload \<le> limit \<and> ty \<noteq> REQUEST"
proof (cases frame)
  case (Message message)
  with assms message_frame_bounds [of "wl_zstd W" "dict_at W m n" message]
    message_frame_type [of "wl_zstd W" "dict_at W m n" message]
  show ?thesis by (auto simp: frame_type_defs)
qed (use assms in \<open>auto simp: frame_type_defs\<close>)

lemma response_frames_Cons:
  obtains ty payload n' where "response_frames W m n [frame] = [(ty, payload)]"
    "\<And>frames. response_frames W m n (frame # frames) = (ty, payload) # response_frames W m n' frames"
  by (cases frame) (auto intro: that simp: prod_eq_iff)

context frame_reader
begin

lemma read_response_frame_decoded:
  assumes "valid s" "content s = (frame_bytes (ty, payload) @ rest, e)"
    and "ty \<le> ANSWER" "length payload \<le> limit" "limit < 2 ^ 62" "ty \<noteq> REQUEST"
  obtains s' where "valid s'" "content s' = (rest, e)"
    "read_response_frame R P Z L limit (s, r) =
       io_bind (io_snd (decode_response_frame P Z L ty payload limit)) (\<lambda>frame.
         case frame of
           Some frame \<Rightarrow> io_ret (Some frame)
         | None \<Rightarrow> read_response_frame R P Z L limit) (s', r)"
proof -
  from next_frame_read [OF assms(1-5), of ignore_skipped "()"] obtain h s1 s2 where
    h: "next_known_header R limit ignore_skipped () s = Some (Inr (Some h, ()), s1)" "fh_frame_type h = ty"
    "read_payload R (fh_payload_len h) s1 = Some (Inr payload, s2)" "valid s2" "content s2 = (rest, e)" .
  with assms(6) show thesis
    by (intro that [of s2]) (simp_all add: read_response_frame.simps [of R P Z L limit "(s, r)"])
qed

lemma read_responses_frames:
  assumes "valid s" "content s = (wire_bytes (response_frames W m n frames), Inr ())"
    and "list_all (frame_fits (wl_protobuf W) limit) frames" "list_all (frame_survives (wl_protobuf W)) frames"
    "limit < 2 ^ 62" "zstd_laws (wl_zstd W)" "\<forall>n. shares_dict (rr_accept r) (dict_at W m n)"
    "\<not> rr_replay r \<or> list_all is_status frames"
  shows "\<exists>s' r'. read_responses R (wl_protobuf W) (wl_zstd W) L limit before (s, r) =
      Some (Inr (before @ map received frames), (s', r')) \<and> (\<not> rr_replay r \<longrightarrow> rr_shared r' = rr_shared r)"
  using assms
proof (induction frames arbitrary: s n r before)
  case Nil
  from Nil.prems have "content s = ([], Inr ())" by simp
  from next_header_end [OF Nil.prems(1) this, of limit ignore_skipped "()"] obtain s1 where
    "next_known_header R limit ignore_skipped () s = Some (Inr (None, ()), s1)" .
  then show ?case
    by (simp add: read_responses.simps [of R _ _ L] read_response_frame.simps [of R _ _ L] io_ret_def)
next
  case (Cons frame frames)
  obtain ty payload n' where f: "response_frames W m n [frame] = [(ty, payload)]"
    "response_frames W m n (frame # frames) = (ty, payload) # response_frames W m n' frames"
    by (rule response_frames_Cons) blast
  have fits: "frame_fits (wl_protobuf W) limit frame" "frame_survives (wl_protobuf W) frame"
    "\<not> rr_replay r \<or> is_status frame" "shares_dict (rr_accept r) (dict_at W m n)"
    using Cons.prems by auto
  note bounds = response_frame_bounds [OF f(1) fits(1)]
  have "content s = (frame_bytes (ty, payload) @ wire_bytes (response_frames W m n' frames), Inr ())"
    using Cons.prems(2) f(2) by simp
  from read_response_frame_decoded [OF Cons.prems(1) this _ _ Cons.prems(5), of "wl_protobuf W" "wl_zstd W" L r] bounds
  obtain s' where s': "valid s'" "content s' = (wire_bytes (response_frames W m n' frames), Inr ())"
    "read_response_frame R (wl_protobuf W) (wl_zstd W) L limit (s, r) =
       io_bind (io_snd (decode_response_frame (wl_protobuf W) (wl_zstd W) L ty payload limit)) (\<lambda>frame.
         case frame of
           Some frame \<Rightarrow> io_ret (Some frame)
         | None \<Rightarrow> read_response_frame R (wl_protobuf W) (wl_zstd W) L limit) (s', r)" by blast
  from decode_response_frame_ok [OF f(1) fits(2) Cons.prems(6) fits(4,1) Cons.prems(5) fits(3), of L] obtain r' where
    r': "decode_response_frame (wl_protobuf W) (wl_zstd W) L ty payload limit r =
      Some (Inr (Some (received frame)), r')" "kept r r'" .
  with s'(3) have step: "read_response_frame R (wl_protobuf W) (wl_zstd W) L limit (s, r) =
      Some (Inr (Some (received frame)), (s', r'))" by (simp add: io_ret_def)
  have "\<forall>n. shares_dict (rr_accept r') (dict_at W m n)" "\<not> rr_replay r'"
    using r'(2) Cons.prems(7) shares_dict_cong [of "rr_accept r'" "rr_accept r"] by (auto simp: kept_def)
  with Cons.IH [OF s'(1,2), of r' "before @ [received frame]"] Cons.prems r'(2)
  show ?case by (auto simp: read_responses.simps [of R _ _ L limit before "(s, r)"] step kept_def)
qed

lemma read_responses_answered:
  assumes "valid s" "content s = (frame_bytes (ANSWER, pb_answer P answer) @ rest, e)"
    and "length (pb_answer P answer) \<le> limit" "limit < 2 ^ 62" "answer_survives P answer"
    "\<not> rr_answer_closed r" "rr_replay r \<longrightarrow> an_stream_compression answer"
  obtains s' r' where "valid s'" "content s' = (rest, e)" "learned answer r r'" "\<not> rr_replay r'"
    "rr_accept r' = rr_accept r"
    "read_responses R P Z L limit before (s, r) = read_responses R P Z L limit before (s', r')"
proof -
  have "ANSWER \<noteq> REQUEST" by (simp add: frame_type_defs)
  from read_response_frame_decoded [OF assms(1,2) order_refl assms(3,4) this, of P Z L r] obtain s' where
    s': "valid s'" "content s' = (rest, e)"
    "read_response_frame R P Z L limit (s, r) =
       io_bind (io_snd (decode_response_frame P Z L ANSWER (pb_answer P answer) limit)) (\<lambda>frame.
         case frame of
           Some frame \<Rightarrow> io_ret (Some frame)
         | None \<Rightarrow> read_response_frame R P Z L limit) (s', r)" .
  from reading_answer_ok [OF assms(6,7)] obtain r' where
    r': "reading_answer answer r = Some (Inr (), r')" "learned answer r r'" "\<not> rr_replay r'"
    "rr_accept r' = rr_accept r" by blast
  then have "decode_response_frame P Z L ANSWER (pb_answer P answer) limit r = Some (Inr None, r')"
    using assms(5) by (simp add: decode_response_frame_def answer_survives_def io_lift_def io_ret_def)
  with s'(3) have "read_response_frame R P Z L limit (s, r) = read_response_frame R P Z L limit (s', r')" by simp
  then have "read_responses R P Z L limit before (s, r) = read_responses R P Z L limit before (s', r')"
    by (simp add: read_responses.simps [of R P Z L limit before] io_bind_def)
  with s' r' that show thesis by blast
qed

end

text \<open>
  C13. A call's request half arrives: what \<open>write_request_stream\<close> writes to a send stream that stays
  open, in however many writes and chunks, the server reads as the request, then as exactly the
  caller's messages in order, and then as the end, whether or not a message was compressed, and
  whatever pieces the transport delivers.
\<close>

theorem requests_read_back:
  assumes "frame_writer W accepting sent" and "frame_reader R valid content rank"
    and "accepting (wr_send w)" and "sent (wr_send w) = []" and "me_stream (wr_encoder w) = None"
    and "ends_after body messages" and "\<forall>message \<in> set messages. length message \<le> limit"
    and "length (pb_request (wl_protobuf W) request) \<le> limit" and "limit < 2 ^ 62"
    and "request_survives (wl_protobuf W) request" and "zstd_laws (wl_zstd W)"
    and "\<forall>n. shares_dict accept (dict_at W (wr_encoder w) n)"
  shows "\<exists>w'. write_request_stream W request body limit w = Some (Inr (), w') \<and>
    (\<forall>s. valid s \<longrightarrow> content s = (sent (wr_send w'), Inr ()) \<longrightarrow>
      (\<exists>s1 s2 accept'.
         read_request R (wl_protobuf W) limit on_skipped c s = Some (Inr (request, c), s1) \<and>
         read_messages R (wl_zstd W) L limit on_skipped c [] (s1, accept, i) =
           Some (Inr (messages, c), (s2, accept', i))))"
proof -
  from frame_writer.write_request_stream_ok [OF assms(1,6,7,8,9,5,3)] obtain send where
    written: "write_request_stream W request body limit w =
      Some (Inr (), w\<lparr>wr_encoded := wr_encoded w + length messages, wr_send := send\<rparr>)"
    "sent send = sent (wr_send w) @ wire_bytes ((REQUEST, pb_request (wl_protobuf W) request) #
       message_frames W (wr_encoder w) (wr_encoded w) messages)" .
  have "\<exists>s1 s2 accept'. read_request R (wl_protobuf W) limit on_skipped c s = Some (Inr (request, c), s1) \<and>
      read_messages R (wl_zstd W) L limit on_skipped c [] (s1, accept, i) = Some (Inr (messages, c), (s2, accept', i))"
    if s: "valid s" "content s = (sent send, Inr ())" for s
  proof -
    have "content s = (frame_bytes (REQUEST, pb_request (wl_protobuf W) request) @
        wire_bytes (message_frames W (wr_encoder w) (wr_encoded w) messages), Inr ())"
      using s(2) written(2) assms(4) by simp
    from frame_reader.read_request_ok [OF assms(2) s(1) this assms(8-10), of on_skipped c] obtain s1 where
      s1: "read_request R (wl_protobuf W) limit on_skipped c s = Some (Inr (request, c), s1)" "valid s1"
      "content s1 = (wire_bytes (message_frames W (wr_encoder w) (wr_encoded w) messages), Inr ())" .
    with frame_reader.read_messages_all [OF assms(2) s1(2,3) assms(7,9,11,12), of L on_skipped c "[]" i]
    show ?thesis by auto
  qed
  with written(1) show ?thesis by auto
qed

lemma example_preflight:
  "request_survives example_protobuf (rpc_request_new ''/s/m'')"
  "answer_survives example_protobuf
     \<lparr>an_dictionaries = [], an_stream_compression = True, an_connection_metadata = 0\<rparr>"
  "frame_survives example_protobuf (Headers [])" "frame_survives example_protobuf (Status (not_found []))"
  by (simp_all add: request_survives_def answer_survives_def example_protobuf_def decode_payload_def
      preflight_known_wire_def preflight_wire_message_def preflight_wire_loop.simps consume_proto_varint_def
      consume_u64_varint_def consume_u64_varint_loop.simps known_field_def consume_proto_bytes_def
      skip_proto_value.simps checked_add_def get_range_def USIZE_MAX_def)

lemma example_shares: "shares_dict (accept_server None) (dict_at W (message_encoder_new (KnownDict (dict_plain 1))) n)"
  by (simp add: shares_dict_def dict_at_def message_encoder_new_def dict_plain_def accept_server_def PLAIN_ID_def
      config_or_plain_def plain_only_def without_dictionaries_def config_dict_def Let_def)

lemma example_simps:
  "wl_protobuf example_writes = example_protobuf" "wl_zstd example_writes = rle_zstd"
  "length (pb_request example_protobuf request) = 6" "length (pb_answer example_protobuf answer) = 2"
  "pb_headers example_protobuf headers = []" "length (pb_status example_protobuf status) = 2"
  "wr_send example_writer = []" "wr_encoder example_writer = message_encoder_new (KnownDict (dict_plain 1))"
  "me_stream (message_encoder_new d) = None"
  by (simp_all add: example_writes_def write_lib.defs example_protobuf_def example_writer_def message_encoder_new_def)

lemma example_frame_writer: "frame_writer example_writes (\<lambda>_. True) concat"
  unfolding example_writes_def by (rule in_memory_writer.frame_writer_axioms)

theorem requests_read_back_witness:
  "\<exists>w'. write_request_stream example_writes (rpc_request_new ''/s/m'') example_body 1000 example_writer =
      Some (Inr (), w') \<and>
    (\<exists>s1 s2 accept'.
       read_request script_reader example_protobuf 1000 (\<lambda>_ _. Inr ()) () (script_new (concat (wr_send w'))) =
         Some (Inr (rpc_request_new ''/s/m'', ()), s1) \<and>
       read_messages script_reader rle_zstd raw_lib 1000 (\<lambda>_ _. Inr ()) () [] (s1, accept_server None, None) =
         Some (Inr ([[1, 2], replicate 300 7], ()), (s2, accept', None)))"
proof -
  have body: "ends_after example_body [[1, 2], replicate 300 7]" by (simp add: example_body_def)
  have "\<exists>w'. write_request_stream example_writes (rpc_request_new ''/s/m'') example_body 1000 example_writer =
      Some (Inr (), w') \<and>
    (\<forall>s. 0 < sc_read_size s \<longrightarrow> (sc_data s, Inr () :: unit result) = (concat (wr_send w'), Inr ()) \<longrightarrow>
      (\<exists>s1 s2 accept'.
       read_request script_reader (wl_protobuf example_writes) 1000 (\<lambda>_ _. Inr ()) () s =
         Some (Inr (rpc_request_new ''/s/m'', ()), s1) \<and>
       read_messages script_reader (wl_zstd example_writes) raw_lib 1000 (\<lambda>_ _. Inr ()) () []
         (s1, accept_server None, None) =
         Some (Inr ([[1, 2], replicate 300 7], ()), (s2, accept', None))))"
    by (rule requests_read_back [OF example_frame_writer script_frames.frame_reader_axioms])
      (simp_all add: body example_simps example_preflight rle_zstd_laws example_shares)
  then obtain w' where w': "write_request_stream example_writes (rpc_request_new ''/s/m'') example_body 1000 example_writer =
      Some (Inr (), w')" and
    read: "\<forall>s. 0 < sc_read_size s \<longrightarrow> (sc_data s, Inr () :: unit result) = (concat (wr_send w'), Inr ()) \<longrightarrow>
      (\<exists>s1 s2 accept'.
       read_request script_reader (wl_protobuf example_writes) 1000 (\<lambda>_ _. Inr ()) () s =
         Some (Inr (rpc_request_new ''/s/m'', ()), s1) \<and>
       read_messages script_reader (wl_zstd example_writes) raw_lib 1000 (\<lambda>_ _. Inr ()) () []
         (s1, accept_server None, None) =
         Some (Inr ([[1, 2], replicate 300 7], ()), (s2, accept', None)))"
    by blast
  from read [rule_format, of "script_new (concat (wr_send w'))"] w' show ?thesis
    by (simp add: script_new_def script_with_read_size_def example_simps)
qed

text \<open>
  C2. A call's response half arrives: whatever batches a server writes its response frames in, a
  batch of statuses alone only as the last, the client reads exactly these frames, in order, and then
  the end. The call's ANSWER goes out before the first of them that is not a status, so that the client
  learns from it, once, what it asked for, and an optimistic call is settled before its first response.
\<close>

theorem responses_read_back:
  assumes "frame_writer W accepting sent" and "frame_reader R valid content rank"
    and "accepting (wr_send w)" and "sent (wr_send w) = []" and "me_stream (wr_encoder w) = None"
    and "list_all takes_answer (butlast batches)"
    and "list_all (frame_fits (wl_protobuf W) limit) (concat batches)"
    and "list_all (frame_survives (wl_protobuf W)) (concat batches)"
    and "\<forall>answer. rc_answer w = Some answer \<longrightarrow>
      length (pb_answer (wl_protobuf W) answer) \<le> limit \<and> answer_survives (wl_protobuf W) answer"
    and "limit < 2 ^ 62" and "zstd_laws (wl_zstd W)"
    and "\<forall>n. shares_dict (rr_accept r) (dict_at W (wr_encoder w) n)" and "\<not> rr_answer_closed r"
    and "rr_replay r \<longrightarrow> sends_answer batches \<longrightarrow>
      (\<exists>answer. rc_answer w = Some answer \<and> an_stream_compression answer)"
  shows "\<exists>w'. write_batches W limit batches w = Some (Inr (), w') \<and>
    (\<forall>s. valid s \<longrightarrow> content s = (sent (wr_send w'), Inr ()) \<longrightarrow>
      (\<exists>s' r'. read_responses R (wl_protobuf W) (wl_zstd W) L limit [] (s, r) =
           Some (Inr (map received (concat batches)), (s', r')) \<and>
         (\<forall>answer. sends_answer batches \<longrightarrow> rc_answer w = Some answer \<longrightarrow> learned answer r r')))"
proof -
  have "list_all (list_all (frame_fits (wl_protobuf W) limit)) batches"
    using assms(7) by (simp add: list_all_iff)
  from frame_writer.write_batches_ok [OF assms(1) this assms(10,5,3)] assms(9) obtain w' where
    written: "write_batches W limit batches w = Some (Inr (), w')"
    "sent (wr_send w') = wire_bytes (answer_frames W (if sends_answer batches then rc_answer w else None) @
       response_frames W (wr_encoder w) (wr_encoded w) (concat batches))"
    using assms(4) by (auto simp: batch_frames_eq [OF assms(6)])
  have "\<exists>s' r'. read_responses R (wl_protobuf W) (wl_zstd W) L limit [] (s, r) =
       Some (Inr (map received (concat batches)), (s', r')) \<and>
     (\<forall>answer. sends_answer batches \<longrightarrow> rc_answer w = Some answer \<longrightarrow> learned answer r r')"
    if s: "valid s" "content s = (sent (wr_send w'), Inr ())" for s
  proof (cases "sends_answer batches \<and> rc_answer w \<noteq> None")
    case True
    then obtain answer where answer: "rc_answer w = Some answer" by blast
    then have "content s = (frame_bytes (ANSWER, pb_answer (wl_protobuf W) answer) @
        wire_bytes (response_frames W (wr_encoder w) (wr_encoded w) (concat batches)), Inr ())"
      using s(2) written(2) True by (simp add: answer_frames_def)
    from frame_reader.read_responses_answered [OF assms(2) s(1) this _ assms(10) _ assms(13),
        of "wl_zstd W" L "[]"] assms(9,14) answer True
    obtain s1 r1 where r1: "valid s1"
      "content s1 = (wire_bytes (response_frames W (wr_encoder w) (wr_encoded w) (concat batches)), Inr ())"
      "learned answer r r1" "\<not> rr_replay r1" "rr_accept r1 = rr_accept r"
      "read_responses R (wl_protobuf W) (wl_zstd W) L limit [] (s, r) =
       read_responses R (wl_protobuf W) (wl_zstd W) L limit [] (s1, r1)" by auto
    from frame_reader.read_responses_frames [OF assms(2) r1(1,2) assms(7,8,10,11), of r1 L "[]"] r1 assms(12) answer
    show ?thesis by (auto simp: learned_def)
  next
    case False
    then have "content s = (wire_bytes (response_frames W (wr_encoder w) (wr_encoded w) (concat batches)), Inr ())"
      using s(2) written(2) by (auto simp: answer_frames_def)
    moreover have "\<not> rr_replay r \<or> list_all is_status (concat batches)"
      using False assms(14) by (auto simp: sends_answer_def takes_answer_def list_ex_iff list_all_iff)
    ultimately show ?thesis
      using frame_reader.read_responses_frames [OF assms(2) s(1) _ assms(7,8,10,11,12), of "wr_encoded w" L "[]"] False by auto
  qed
  with written(1) show ?thesis by blast
qed

lemma example_response_simps:
  "wr_send example_responder = []" "wr_encoder example_responder = message_encoder_new (KnownDict (dict_plain 1))"
  "rc_answer example_responder = Some \<lparr>an_dictionaries = [], an_stream_compression = True, an_connection_metadata = 0\<rparr>"
  "list_all takes_answer (butlast example_batches)" "sends_answer example_batches"
  "concat example_batches = [Headers [], Message [1, 2], Message (replicate 300 7), Status (not_found [])]"
  "rr_accept example_reading = AcceptOne (dict_plain 1)" "\<not> rr_answer_closed example_reading"
  "received (Status (not_found [])) = Status (not_found [])"
  by (simp_all add: example_responder_def example_batches_def takes_answer_def sends_answer_def example_reading_def
      not_found_def status_new_def)

lemma example_client_shares:
  "shares_dict (AcceptOne (dict_plain 1)) (dict_at W (message_encoder_new (KnownDict (dict_plain 1))) n)"
  by (simp add: shares_dict_def dict_at_def message_encoder_new_def dict_plain_def PLAIN_ID_def)

theorem responses_read_back_witness:
  "\<exists>w'. write_batches example_writes 1000 example_batches example_responder = Some (Inr (), w') \<and>
    (\<exists>s' r'. read_responses script_reader example_protobuf rle_zstd raw_lib 1000 []
         (script_new (concat (wr_send w')), example_reading) =
         Some (Inr [Headers [], Message [1, 2], Message (replicate 300 7), Status (not_found [])], (s', r')) \<and>
       sh_compression (rr_shared r') = learn (client_compression_new plain_only) [] \<and> sh_enabled (rr_shared r') \<and>
       rp_decision (sh_replay (rr_shared r')) \<noteq> DecisionPending)"
proof -
  have "\<exists>w'. write_batches example_writes 1000 example_batches example_responder = Some (Inr (), w') \<and>
    (\<forall>s. 0 < sc_read_size s \<longrightarrow> (sc_data s, Inr () :: unit result) = (concat (wr_send w'), Inr ()) \<longrightarrow>
      (\<exists>s' r'. read_responses script_reader (wl_protobuf example_writes) (wl_zstd example_writes) raw_lib 1000 []
           (s, example_reading) = Some (Inr (map received (concat example_batches)), (s', r')) \<and>
         (\<forall>answer. sends_answer example_batches \<longrightarrow> rc_answer example_responder = Some answer \<longrightarrow>
            learned answer example_reading r')))"
    by (rule responses_read_back [OF example_frame_writer script_frames.frame_reader_axioms])
      (simp_all add: example_simps example_response_simps example_preflight rle_zstd_laws example_client_shares
        del: frame_survives.simps(2,3))
  then obtain w' where w': "write_batches example_writes 1000 example_batches example_responder = Some (Inr (), w')"
    and read: "\<forall>s. 0 < sc_read_size s \<longrightarrow> (sc_data s, Inr () :: unit result) = (concat (wr_send w'), Inr ()) \<longrightarrow>
      (\<exists>s' r'. read_responses script_reader (wl_protobuf example_writes) (wl_zstd example_writes) raw_lib 1000 []
           (s, example_reading) = Some (Inr (map received (concat example_batches)), (s', r')) \<and>
         (\<forall>answer. sends_answer example_batches \<longrightarrow> rc_answer example_responder = Some answer \<longrightarrow>
            learned answer example_reading r'))" by blast
  from read [rule_format, of "script_new (concat (wr_send w'))"] w' show ?thesis
    by (auto simp: script_new_def script_with_read_size_def example_simps example_response_simps learned_def
        example_reading_def simp del: received.simps(1))
qed

context frame_reader
begin

lemma known_header_read:
  assumes "valid s" "stream_known limit on_skipped c (content s) = (Inr (Some h, c'), st)"
  obtains s' where "next_known_header R limit on_skipped c s = Some (Inr (Some h, c'), s')" "valid s'" "content s' = st"
  using next_known_header_implements [OF assms(1)] assms(2) by (rule implementsD) simp

lemma response_payload_read:
  assumes "valid s" "stream_known limit ignore_skipped () (content s) = (Inr (Some h, ()), st)"
    and "stream_body (fh_payload_len h) st = (Inr payload, st')" "fh_frame_type h \<noteq> REQUEST"
    and "decode_response_frame P Z L (fh_frame_type h) payload limit r = Some (Inl e, r')"
  shows "\<exists>s'. read_response_frame R P Z L limit (s, r) = Some (Inl e, (s', r')) \<and> content s' = st'"
proof -
  from known_header_read [OF assms(1,2)] obtain s1 where
    h: "next_known_header R limit ignore_skipped () s = Some (Inr (Some h, ()), s1)" "valid s1" "content s1 = st" .
  from read_payload_implements [OF h(2), of "fh_payload_len h"] assms(3) obtain s2 where
    "read_payload R (fh_payload_len h) s1 = Some (Inr payload, s2)" "content s2 = st'"
    unfolding h(3) [symmetric] by (rule implementsD) simp
  with h(1) assms(4,5) show ?thesis
    by (simp add: read_response_frame.simps [of R P Z L limit "(s, r)"])
qed

end

lemma decode_misplaced_response:
  "rr_replay r \<and> \<not> rr_answer_closed r \<Longrightarrow> ty \<noteq> ANSWER \<Longrightarrow> ty \<noteq> STATUS \<Longrightarrow>
     decode_response_frame P Z L ty payload limit r =
       Some (Inl (internal_error ''optimistic call responded without an ANSWER''), r\<lparr>rr_answer_closed := True\<rparr>)"
  "rr_answer_closed r \<Longrightarrow> decode_payload (pb_decode_answer P) RpcAnswer_type payload = Inr answer \<Longrightarrow>
     decode_response_frame P Z L ANSWER payload limit r =
       Some (Inl (internal_error ''response stream contained an ANSWER after its first frame''), r)"
  "\<not> (rr_replay r \<and> \<not> rr_answer_closed r) \<Longrightarrow> rr_stream r = None \<Longrightarrow>
     decode_response_frame P Z L ZSTD_STREAM_MESSAGE payload limit r =
       Some (Inl (internal_error ''stream-compressed message where stream compression is not enabled''),
         r\<lparr>rr_answer_closed := True\<rparr>)"
  "\<not> (rr_replay r \<and> \<not> rr_answer_closed r) \<Longrightarrow>
     decode_response_frame P Z L REQUEST payload limit r =
       Some (Inl (internal_error ''response stream contained a REQUEST frame''), r\<lparr>rr_answer_closed := True\<rparr>)"
  by (cases r; simp add: decode_response_frame_def reading_start_def reading_answer_def io_defs frame_type_defs Let_def
      on_stream_def inflate_streamed_def NOT_STREAM_COMPRESSED_def internal_error_def; fail)+



end
