(* ===== verification/Request_Pump.thy ===== *)
theory Request_Pump
  imports Framed_Calls "HOL-Library.Sublist"
begin

text \<open>
  The server's reading of a call's requests: the budget of a request stream (\<open>server.rs\<close>), the cell that
  tells a pump how its call ended (\<open>latest.rs\<close>), and the pump itself (\<open>request_pump.rs\<close>), which moves
  request messages from the stream to the handler's queue until the stream ends or fails or the call is
  settled, and decides what becomes of the stream.
\<close>

subsection \<open>The budget of a request stream\<close>

definition check_stream_body_limit ::
  "string \<Rightarrow> usize option \<Rightarrow> usize \<Rightarrow> usize \<Rightarrow> unit result \<times> usize" where
  "check_stream_body_limit direction max_body_size body_size len =
     (let body_size = saturating_add body_size len in
      (if (case max_body_size of None \<Rightarrow> False | Some limit \<Rightarrow> limit < body_size)
       then Inl (EStatus (resource_exhausted (direction @ '' stream exceeded maximum body size of {} bytes'')))
       else Inr (), body_size))"

definition check_stream_message_body_limits ::
  "string \<Rightarrow> usize option \<Rightarrow> usize option \<Rightarrow> usize \<Rightarrow> usize \<Rightarrow> usize \<Rightarrow> unit result \<times> usize \<times> usize" where
  "check_stream_message_body_limits direction max_messages max_body_size messages body_size item_len =
     (if (case max_messages of None \<Rightarrow> False | Some limit \<Rightarrow> limit \<le> messages)
      then (Inl (EStatus (resource_exhausted (direction @ '' stream exceeded maximum of {} messages''))),
            messages, body_size)
      else
        (case check_stream_body_limit direction max_body_size body_size item_len of
           (r, body_size) \<Rightarrow> (r, saturating_add messages 1, body_size)))"

record 'd request_budget =
  bg_max_messages :: "usize option"
  bg_max_body_size :: "usize option"
  bg_messages :: usize
  bg_body_size :: usize
  bg_accept :: accept
  bg_stream :: "'d inflater option"

definition request_budget_new :: "usize option \<Rightarrow> usize option \<Rightarrow> 'd request_budget" where
  "request_budget_new max_messages max_body_size =
     \<lparr>bg_max_messages = max_messages, bg_max_body_size = max_body_size, bg_messages = 0, bg_body_size = 0,
      bg_accept = AcceptNone, bg_stream = None\<rparr>"

definition charge_message :: "usize \<Rightarrow> 'd request_budget \<Rightarrow> unit result \<times> 'd request_budget" where
  "charge_message len b =
     (case check_stream_message_body_limits ''request'' (bg_max_messages b) (bg_max_body_size b)
             (bg_messages b) (bg_body_size b) len of
        (r, messages, body_size) \<Rightarrow> (r, b\<lparr>bg_messages := messages, bg_body_size := body_size\<rparr>))"

text \<open>The byte total as the callback of a frame reader.\<close>

definition charge_skipped :: "usize option \<Rightarrow> usize \<Rightarrow> usize \<Rightarrow> usize result" where
  "charge_skipped max_body_size body_size len =
     (case check_stream_body_limit ''request'' max_body_size body_size len of
        (Inl e, _) \<Rightarrow> Inl e
      | (Inr _, body_size) \<Rightarrow> Inr body_size)"

subsection \<open>The latest value\<close>

record 'a latest =
  lt_value :: 'a
  lt_version :: usize
  lt_closed :: bool
  lt_waker :: "waker option"
  lt_seen :: usize

definition latest_channel :: "'a \<Rightarrow> 'a latest" where
  "latest_channel initial =
     \<lparr>lt_value = initial, lt_version = 0, lt_closed = False, lt_waker = None, lt_seen = 0\<rparr>"

definition latest_send :: "'a \<Rightarrow> 'a latest \<Rightarrow> waker list \<times> 'a latest" where
  "latest_send v c =
     (wake (lt_waker c),
      c\<lparr>lt_value := v, lt_version := (lt_version c + 1) mod (USIZE_MAX + 1), lt_waker := None\<rparr>)"

definition latest_drop :: "'a latest \<Rightarrow> waker list \<times> 'a latest" where
  "latest_drop c = (wake (lt_waker c), c\<lparr>lt_closed := True, lt_waker := None\<rparr>)"

definition poll_changed :: "waker \<Rightarrow> 'a latest \<Rightarrow> (closed + unit) poll \<times> 'a latest" where
  "poll_changed cx c =
     (let c = c\<lparr>lt_waker := Some cx\<rparr> in
      if lt_version c \<noteq> lt_seen c then (Ready (Inr ()), c\<lparr>lt_seen := lt_version c\<rparr>)
      else if lt_closed c then (Ready (Inl Closed), c)
      else (Pending, c))"

definition borrow_and_update :: "'a latest \<Rightarrow> 'a \<times> 'a latest" where
  "borrow_and_update c = (lt_value c, c\<lparr>lt_seen := lt_version c\<rparr>)"

subsection \<open>Failures and outcomes\<close>

definition DISCARD_LIMIT :: nat where
  "DISCARD_LIMIT = 2 ^ 20"

definition UNARY_TRAILING_FRAME :: string where
  "UNARY_TRAILING_FRAME = ''request stream contained a frame after the request message''"

datatype pump_failure = FailProtocol status | FailPeerReset status | FailConnectionLost status

fun failure_status :: "pump_failure \<Rightarrow> status" where
  "failure_status (FailProtocol status) = status"
| "failure_status (FailPeerReset status) = status"
| "failure_status (FailConnectionLost status) = status"

fun response_writable :: "pump_failure \<Rightarrow> bool" where
  "response_writable (FailProtocol _) = True"
| "response_writable _ = False"

datatype pump_outcome = CleanFin | LocallyStopped | OutcomePeerReset | OutcomeConnectionLost

datatype pump_state = Receiving | PumpFailed pump_failure | PumpSettled pump_outcome

datatype pump_settle = ResponseCommitted | ResponseStopped | ServerShutdown | SettleConnectionLost

datatype transport_event = EventPeerReset status | EventConnectionLost status

datatype stream_failure_kind = KindPeerReset | KindConnectionLost | KindProtocol

text \<open>The classification of a transport error is that of the transport.\<close>

definition transport_failure_kind ::
  "(transport_error \<Rightarrow> status \<times> stream_failure_kind option) \<Rightarrow> error \<Rightarrow> stream_failure_kind option" where
  "transport_failure_kind classify e =
     (case e of ETransport e \<Rightarrow> snd (classify e) | _ \<Rightarrow> Some KindProtocol)"

definition classify_error ::
  "(transport_error \<Rightarrow> status \<times> stream_failure_kind option) \<Rightarrow> error \<Rightarrow> pump_failure" where
  "classify_error classify e =
     (let status = into_status (fst \<circ> classify) e in
      case transport_failure_kind classify e of
        Some KindPeerReset \<Rightarrow> FailPeerReset status
      | Some KindProtocol \<Rightarrow> FailProtocol status
      | Some KindConnectionLost \<Rightarrow> FailConnectionLost status
      | None \<Rightarrow> if st_code status = Cancelled then FailPeerReset status else FailConnectionLost status)"

subsection \<open>The reader and its fate\<close>

text \<open>\<open>gd_stops\<close> counts the calls of \<open>stop_trevrpc\<close>, which tells the peer to stop sending.\<close>

record 's reader_guard =
  gd_reader :: 's
  gd_settled :: bool
  gd_discard :: bool
  gd_stops :: nat

definition guard_new :: "'s \<Rightarrow> 's reader_guard" where
  "guard_new reader = \<lparr>gd_reader = reader, gd_settled = False, gd_discard = False, gd_stops = 0\<rparr>"

definition stop_reader :: "'s reader_guard \<Rightarrow> 's reader_guard" where
  "stop_reader g = g\<lparr>gd_stops := gd_stops g + 1\<rparr>"

text \<open>Dropping the guard: the result tells whether the rest of the request is discarded in a task.\<close>

definition guard_drop :: "'s reader_guard \<Rightarrow> bool \<times> 's reader_guard" where
  "guard_drop g =
     (if gd_discard g then (True, g)
      else if \<not> gd_settled g then (False, stop_reader g)
      else (False, g))"

fun settle_reader :: "pump_settle \<Rightarrow> 's reader_guard \<Rightarrow> pump_outcome \<times> 's reader_guard" where
  "settle_reader SettleConnectionLost g = (OutcomeConnectionLost, g\<lparr>gd_settled := True\<rparr>)"
| "settle_reader ResponseCommitted g = (LocallyStopped, g\<lparr>gd_settled := True, gd_discard := True\<rparr>)"
| "settle_reader ResponseStopped g = (LocallyStopped, stop_reader (g\<lparr>gd_settled := True\<rparr>))"
| "settle_reader ServerShutdown g = (LocallyStopped, stop_reader (g\<lparr>gd_settled := True\<rparr>))"

text \<open>
  The loop of \<open>discard_request\<close>, which a timeout may also end: whether it reached the end of the stream.
\<close>

partial_function (option) discard_request_loop ::
  "(nat \<Rightarrow> ('s, bytes option) io) \<Rightarrow> usize \<Rightarrow> 's \<Rightarrow> (bool \<times> 's) option" where
  "discard_request_loop rd discarded s =
     (case rd 4096 s of
        None \<Rightarrow> None
      | Some (Inr (Some bs), s) \<Rightarrow>
          (let discarded = saturating_add discarded (length bs) in
           if DISCARD_LIMIT < discarded then Some (False, s)
           else discard_request_loop rd discarded s)
      | Some (_, s) \<Rightarrow> Some (True, s))"

subsection \<open>The end of a unary call's request\<close>

record ('s, 'd) unary_end =
  ue_guard :: "'s reader_guard"
  ue_max_frame_size :: usize
  ue_budget :: "'d request_budget"
  ue_finished :: bool

definition unary_end_new :: "'s \<Rightarrow> usize \<Rightarrow> 'd request_budget \<Rightarrow> ('s, 'd) unary_end" where
  "unary_end_new reader max_frame_size b =
     \<lparr>ue_guard = guard_new reader, ue_max_frame_size = max_frame_size, ue_budget = b, ue_finished = False\<rparr>"

text \<open>Reading to the end of the request, charging the frames it skips, and checking what follows it.\<close>

definition pump_read_end ::
  "'s frame_read \<Rightarrow> ('s, unit) io \<Rightarrow> usize \<Rightarrow> 'd request_budget \<Rightarrow> ('s, unit) io" where
  "pump_read_end R validate_end max_frame_size b =
     io_bind (read_request_end R max_frame_size (charge_skipped (bg_max_body_size b)) (bg_body_size b)
                UNARY_TRAILING_FRAME) (\<lambda>_. validate_end)"

text \<open>The failure of \<open>UnaryRequestEnd::failure\<close>, none where it waits forever.\<close>

definition unary_end_failure ::
  "'s frame_read \<Rightarrow> ('s, unit) io \<Rightarrow> (transport_error \<Rightarrow> status \<times> stream_failure_kind option) \<Rightarrow> ('s, 'd) unary_end \<Rightarrow>
   (pump_failure option \<times> ('s, 'd) unary_end) option" where
  "unary_end_failure R validate_end classify u =
     (if ue_finished u then Some (None, u)
      else
        map_option (\<lambda>(r, s).
          (let g = (ue_guard u)\<lparr>gd_reader := s\<rparr>; u = u\<lparr>ue_finished := True\<rparr> in
           case r of
             Inr _ \<Rightarrow> (None, u\<lparr>ue_guard := g\<lparr>gd_settled := True\<rparr>\<rparr>)
           | Inl e \<Rightarrow>
               (let failure = classify_error classify e in
                (Some failure,
                 u\<lparr>ue_guard := (if response_writable failure then g else g\<lparr>gd_settled := True\<rparr>)\<rparr>))))
          (pump_read_end R validate_end (ue_max_frame_size u) (ue_budget u) (gd_reader (ue_guard u))))"

text \<open>A read that may have to wait is \<open>Pending\<close>.\<close>

partial_function (option) discard_buffered ::
  "(nat \<Rightarrow> 's \<Rightarrow> bytes option result poll \<times> 's) \<Rightarrow> usize \<Rightarrow> 's \<Rightarrow> (bool \<times> 's) option" where
  "discard_buffered poll_read discarded s =
     (if discarded \<le> DISCARD_LIMIT then
        (case poll_read 1024 s of
           (Ready (Inr (Some bs)), s) \<Rightarrow> discard_buffered poll_read (saturating_add discarded (length bs)) s
         | (Ready _, s) \<Rightarrow> Some (True, s)
         | (Pending, s) \<Rightarrow> Some (False, s))
      else Some (False, s))"

definition unary_end_settle ::
  "(nat \<Rightarrow> 's \<Rightarrow> bytes option result poll \<times> 's) \<Rightarrow> pump_settle \<Rightarrow> ('s, 'd) unary_end \<Rightarrow>
   (bool \<times> 's reader_guard) option" where
  "unary_end_settle poll_read reason u =
     (let g = ue_guard u in
      if gd_settled g then Some (guard_drop g)
      else if reason = ResponseCommitted then
        map_option (\<lambda>(ended, s).
          (let g = g\<lparr>gd_reader := s\<rparr> in
           if ended then guard_drop (g\<lparr>gd_settled := True\<rparr>) else guard_drop (snd (settle_reader reason g))))
          (discard_buffered poll_read 0 (gd_reader g))
      else Some (guard_drop (snd (settle_reader reason g))))"

subsection \<open>The streaming pump\<close>

text \<open>
  Where the pump waits: for room in the handler's queue, for a frame, with a failure for the call to be
  settled, or no longer; \<open>PumpAborted\<close> is a pump whose task was aborted.
\<close>

datatype pump_phase =
  AwaitPermit | AwaitFrame | AwaitSettle pump_failure | PumpEnded pump_outcome | PumpAborted

record ('s, 'd) pump =
  pm_guard :: "'s reader_guard"
  pm_budget :: "'d request_budget"
  pm_queue :: "(error + bytes) queue_state"
  pm_state :: pump_state
  pm_settle :: "pump_settle option latest"
  pm_phase :: pump_phase

definition start_request_pump :: "'s \<Rightarrow> 'd request_budget \<Rightarrow> ('s, 'd) pump" where
  "start_request_pump reader b =
     \<lparr>pm_guard = guard_new reader, pm_budget = b, pm_queue = channel, pm_state = Receiving,
      pm_settle = latest_channel None, pm_phase = AwaitPermit\<rparr>"

definition pump_end :: "pump_outcome \<times> 's reader_guard \<Rightarrow> ('s, 'd) pump \<Rightarrow> ('s, 'd) pump" where
  "pump_end r p =
     (case r of
        (outcome, g) \<Rightarrow>
          p\<lparr>pm_guard := snd (guard_drop g), pm_state := PumpSettled outcome, pm_phase := PumpEnded outcome,
            pm_queue := snd (drop_sender (pm_queue p))\<rparr>)"

definition settle_reason :: "pump_settle option \<Rightarrow> pump_settle" where
  "settle_reason r = (case r of None \<Rightarrow> ResponseStopped | Some reason \<Rightarrow> reason)"

text \<open>The first branch of each \<open>select!\<close>: the pump after a settled call, or none while it is not.\<close>

definition pump_settled :: "waker \<Rightarrow> ('s, 'd) pump \<Rightarrow> ('s, 'd) pump option \<times> ('s, 'd) pump" where
  "pump_settled cx p =
     (case poll_changed cx (pm_settle p) of
        (Pending, c) \<Rightarrow> (None, p\<lparr>pm_settle := c\<rparr>)
      | (Ready _, c) \<Rightarrow>
          (case borrow_and_update c of
             (reason, c) \<Rightarrow>
               (Some (pump_end (settle_reader (settle_reason reason) (pm_guard p)) (p\<lparr>pm_settle := c\<rparr>)), p)))"

fun failure_outcome :: "pump_failure \<Rightarrow> pump_outcome" where
  "failure_outcome (FailPeerReset _) = OutcomePeerReset"
| "failure_outcome (FailConnectionLost _) = OutcomeConnectionLost"
| "failure_outcome (FailProtocol _) = LocallyStopped"

text \<open>\<open>fail_and_wait\<close> up to its loops. \<open>permit\<close> tells whether the handler can still be given the error.\<close>

definition fail_and_wait :: "pump_failure \<Rightarrow> bool \<Rightarrow> ('s, 'd) pump \<Rightarrow> ('s, 'd) pump" where
  "fail_and_wait failure permit p =
     (let p = p\<lparr>pm_state := PumpFailed failure\<rparr>;
          p = (if permit
               then p\<lparr>pm_queue := snd (permit_send (Inl (EStatus (failure_status failure))) 0 (pm_queue p))\<rparr>
               else p) in
      case borrow_and_update (pm_settle p) of
        (settled, c) \<Rightarrow>
          (let p = p\<lparr>pm_settle := c\<rparr>; g = pm_guard p in
           case settled of
             Some reason \<Rightarrow>
               if \<not> response_writable failure
               then pump_end (failure_outcome failure, g\<lparr>gd_settled := True\<rparr>) p
               else pump_end (settle_reader reason g) p
           | None \<Rightarrow>
               p\<lparr>pm_guard := (if \<not> response_writable failure then g\<lparr>gd_settled := True\<rparr> else g),
                 pm_phase := AwaitSettle failure\<rparr>))"

text \<open>One poll of the \<open>select!\<close> that waits for room, with what the transport reports.\<close>

definition poll_permit ::
  "waker \<Rightarrow> transport_event option poll \<Rightarrow> ('s, 'd) pump \<Rightarrow> ('s, 'd) pump" where
  "poll_permit cx event p =
     (case pump_settled cx p of
        (Some p, _) \<Rightarrow> p
      | (None, p) \<Rightarrow>
          (case poll_reserve MESSAGES cx (pm_queue p) of
             (Ready (Inr _), q) \<Rightarrow> p\<lparr>pm_queue := q, pm_phase := AwaitFrame\<rparr>
           | (Ready (Inl _), q) \<Rightarrow>
               pump_end (LocallyStopped, (stop_reader (pm_guard p))\<lparr>gd_settled := True\<rparr>) (p\<lparr>pm_queue := q\<rparr>)
           | (Pending, q) \<Rightarrow>
               (let p = p\<lparr>pm_queue := q\<rparr> in
                case event of
                  Ready (Some (EventPeerReset status)) \<Rightarrow>
                    fail_and_wait (FailPeerReset status) False
                      (p\<lparr>pm_guard := (pm_guard p)\<lparr>gd_settled := True\<rparr>\<rparr>)
                | Ready (Some (EventConnectionLost status)) \<Rightarrow>
                    fail_and_wait (FailConnectionLost status) False
                      (p\<lparr>pm_guard := (pm_guard p)\<lparr>gd_settled := True\<rparr>\<rparr>)
                | _ \<Rightarrow> p)))"

text \<open>\<open>RequestPumpReader::read_request_frame\<close>.\<close>

definition pump_read_frame ::
  "'s frame_read \<Rightarrow> zstd_lib \<Rightarrow> ('e, 'd) stream_lib \<Rightarrow> usize \<Rightarrow> ('s \<times> 'd request_budget, bytes option) io" where
  "pump_read_frame R Z L max_frame_size st =
     (case st of
        (s, b) \<Rightarrow>
          map_option (\<lambda>(r, s, accept, stream).
            (let b = b\<lparr>bg_accept := accept, bg_stream := stream\<rparr> in
             case r of
               Inl e \<Rightarrow> (Inl e, (s, b))
             | Inr (frame, body_size) \<Rightarrow> (Inr frame, (s, b\<lparr>bg_body_size := body_size\<rparr>))))
            (read_request_frame R Z L max_frame_size (charge_skipped (bg_max_body_size b)) (bg_body_size b)
               (s, bg_accept b, bg_stream b)))"

text \<open>What the pump does with a frame it has read.\<close>

definition pump_frame ::
  "('s, unit) io \<Rightarrow> (transport_error \<Rightarrow> status \<times> stream_failure_kind option) \<Rightarrow> bytes option result \<Rightarrow>
   ('s, 'd) pump \<Rightarrow> ('s, 'd) pump option" where
  "pump_frame validate_end classify frame p =
     (case frame of
        Inr (Some body) \<Rightarrow>
          Some (case charge_message (length body) (pm_budget p) of
            (Inl e, b) \<Rightarrow>
              fail_and_wait (FailProtocol (into_status (fst \<circ> classify) e)) True (p\<lparr>pm_budget := b\<rparr>)
          | (Inr _, b) \<Rightarrow>
              p\<lparr>pm_budget := b, pm_queue := snd (permit_send (Inr body) (length body) (pm_queue p)),
                pm_phase := AwaitPermit\<rparr>)
      | Inr None \<Rightarrow>
          map_option (\<lambda>(r, s).
            (let g = (pm_guard p)\<lparr>gd_reader := s\<rparr> in
             case r of
               Inl e \<Rightarrow> fail_and_wait (classify_error classify e) False (p\<lparr>pm_guard := g\<rparr>)
             | Inr _ \<Rightarrow> pump_end (CleanFin, g\<lparr>gd_settled := True\<rparr>) p))
            (validate_end (gd_reader (pm_guard p)))
      | Inl e \<Rightarrow> Some (fail_and_wait (classify_error classify e) True p))"

text \<open>The \<open>select!\<close> that waits for a frame, at the poll at which the frame has been read.\<close>

definition poll_frame ::
  "'s frame_read \<Rightarrow> zstd_lib \<Rightarrow> ('e, 'd) stream_lib \<Rightarrow> usize \<Rightarrow> ('s, unit) io \<Rightarrow>
   (transport_error \<Rightarrow> status \<times> stream_failure_kind option) \<Rightarrow> waker \<Rightarrow> ('s, 'd) pump \<Rightarrow> ('s, 'd) pump option" where
  "poll_frame R Z L max_frame_size validate_end classify cx p =
     (case pump_settled cx p of
        (Some p, _) \<Rightarrow> Some p
      | (None, p) \<Rightarrow>
          (case pump_read_frame R Z L max_frame_size (gd_reader (pm_guard p), pm_budget p) of
             None \<Rightarrow> None
           | Some (frame, s, b) \<Rightarrow>
               pump_frame validate_end classify frame
                 (p\<lparr>pm_guard := (pm_guard p)\<lparr>gd_reader := s\<rparr>, pm_budget := b\<rparr>)))"

text \<open>The pump of a unary call, which only reads to the end of the request.\<close>

definition poll_unary ::
  "'s frame_read \<Rightarrow> usize \<Rightarrow> ('s, unit) io \<Rightarrow> (transport_error \<Rightarrow> status \<times> stream_failure_kind option) \<Rightarrow> waker \<Rightarrow>
   ('s, 'd) pump \<Rightarrow> ('s, 'd) pump option" where
  "poll_unary R max_frame_size validate_end classify cx p =
     (case pump_settled cx p of
        (Some p, _) \<Rightarrow> Some p
      | (None, p) \<Rightarrow>
          map_option (\<lambda>(r, s).
            (let g = (pm_guard p)\<lparr>gd_reader := s\<rparr> in
             case r of
               Inl e \<Rightarrow> fail_and_wait (classify_error classify e) False (p\<lparr>pm_guard := g\<rparr>)
             | Inr _ \<Rightarrow> pump_end (CleanFin, g\<lparr>gd_settled := True\<rparr>) p))
            (pump_read_end R validate_end max_frame_size (pm_budget p) (gd_reader (pm_guard p))))"

text \<open>The loops of \<open>fail_and_wait\<close>.\<close>

definition poll_settle :: "waker \<Rightarrow> pump_failure \<Rightarrow> ('s, 'd) pump \<Rightarrow> ('s, 'd) pump" where
  "poll_settle cx failure p =
     (let finish = (\<lambda>reason p.
            if response_writable failure then pump_end (settle_reader reason (pm_guard p)) p
            else pump_end (failure_outcome failure, pm_guard p) p) in
      case poll_changed cx (pm_settle p) of
        (Pending, c) \<Rightarrow> p\<lparr>pm_settle := c\<rparr>
      | (Ready (Inl _), c) \<Rightarrow> finish ResponseStopped (p\<lparr>pm_settle := c\<rparr>)
      | (Ready (Inr _), c) \<Rightarrow>
          (case borrow_and_update c of
             (None, c) \<Rightarrow> p\<lparr>pm_settle := c\<rparr>
           | (Some reason, c) \<Rightarrow> finish reason (p\<lparr>pm_settle := c\<rparr>)))"

text \<open>The call's side: settling the pump, and dropping it, which aborts its task.\<close>

definition pump_send_settle :: "pump_settle \<Rightarrow> ('s, 'd) pump \<Rightarrow> ('s, 'd) pump" where
  "pump_send_settle reason p = p\<lparr>pm_settle := snd (latest_send (Some reason) (pm_settle p))\<rparr>"

definition pump_drop :: "('s, 'd) pump \<Rightarrow> ('s, 'd) pump" where
  "pump_drop p =
     (let p = pump_send_settle ResponseStopped p; p = p\<lparr>pm_settle := snd (latest_drop (pm_settle p))\<rparr> in
      case pm_phase p of
        PumpEnded _ \<Rightarrow> p
      | PumpAborted \<Rightarrow> p
      | _ \<Rightarrow> p\<lparr>pm_guard := snd (guard_drop (pm_guard p)), pm_phase := PumpAborted,
              pm_queue := snd (drop_sender (pm_queue p))\<rparr>)"

subsection \<open>Specification\<close>

text \<open>What a step put into the handler's queue, and the bodies among such items.\<close>

definition pushed :: "('s, 'd) pump \<Rightarrow> ('s, 'd) pump \<Rightarrow> (error + bytes) list" where
  "pushed p p' = map fst (drop (length (q_queue (pm_queue p))) (q_queue (pm_queue p')))"

definition bodies :: "(error + bytes) list \<Rightarrow> bytes list" where
  "bodies items = concat (map (\<lambda>item. case item of Inr body \<Rightarrow> [body] | Inl _ \<Rightarrow> []) items)"

text \<open>
  Runs of a pump over a reader \<open>s0\<close> with the budget \<open>b0\<close>: polls of the pump, the handler taking and
  dropping its queue, and the call settling or dropping the pump, in any order. \<open>out\<close> is what the handler
  was given.
\<close>

inductive pump_run ::
  "'s frame_read \<Rightarrow> zstd_lib \<Rightarrow> ('e, 'd) stream_lib \<Rightarrow> usize \<Rightarrow> ('s, unit) io \<Rightarrow>
   (transport_error \<Rightarrow> status \<times> stream_failure_kind option) \<Rightarrow> bool \<Rightarrow> 's \<Rightarrow> 'd request_budget \<Rightarrow>
   (error + bytes) list \<Rightarrow> ('s, 'd) pump \<Rightarrow> bool"
  for R :: "'s frame_read" and Z :: zstd_lib and L :: "('e, 'd) stream_lib" and limit :: usize
    and validate_end :: "('s, unit) io" and classify :: "transport_error \<Rightarrow> status \<times> stream_failure_kind option"
    and streaming :: bool and s0 :: 's and b0 :: "'d request_budget" where
  started: "pump_run R Z L limit validate_end classify streaming s0 b0 [] (start_request_pump s0 b0)"
| permit_polled: "pump_run R Z L limit validate_end classify streaming s0 b0 out p \<Longrightarrow> streaming \<Longrightarrow>
    pm_phase p = AwaitPermit \<Longrightarrow>
    pump_run R Z L limit validate_end classify streaming s0 b0 out (poll_permit cx event p)"
| frame_polled: "pump_run R Z L limit validate_end classify streaming s0 b0 out p \<Longrightarrow> streaming \<Longrightarrow>
    pm_phase p = AwaitFrame \<Longrightarrow> poll_frame R Z L limit validate_end classify cx p = Some p' \<Longrightarrow>
    pump_run R Z L limit validate_end classify streaming s0 b0 (out @ pushed p p') p'"
| unary_polled: "pump_run R Z L limit validate_end classify streaming s0 b0 out p \<Longrightarrow> \<not> streaming \<Longrightarrow>
    pm_phase p = AwaitPermit \<Longrightarrow> poll_unary R limit validate_end classify cx p = Some p' \<Longrightarrow>
    pump_run R Z L limit validate_end classify streaming s0 b0 out p'"
| settle_polled: "pump_run R Z L limit validate_end classify streaming s0 b0 out p \<Longrightarrow>
    pm_phase p = AwaitSettle failure \<Longrightarrow>
    pump_run R Z L limit validate_end classify streaming s0 b0 out (poll_settle cx failure p)"
| settled: "pump_run R Z L limit validate_end classify streaming s0 b0 out p \<Longrightarrow>
    pump_run R Z L limit validate_end classify streaming s0 b0 out (pump_send_settle reason p)"
| pump_dropped: "pump_run R Z L limit validate_end classify streaming s0 b0 out p \<Longrightarrow>
    pump_run R Z L limit validate_end classify streaming s0 b0 out (pump_drop p)"
| body_taken: "pump_run R Z L limit validate_end classify streaming s0 b0 out p \<Longrightarrow>
    poll_pop MESSAGES cx (pm_queue p) = (polled, ws, q) \<Longrightarrow>
    pump_run R Z L limit validate_end classify streaming s0 b0 out (p\<lparr>pm_queue := q\<rparr>)"
| handler_dropped: "pump_run R Z L limit validate_end classify streaming s0 b0 out p \<Longrightarrow>
    drop_receiver (pm_queue p) = (ws, q) \<Longrightarrow>
    pump_run R Z L limit validate_end classify streaming s0 b0 out (p\<lparr>pm_queue := q\<rparr>)"

text \<open>
  The fate of the stream in each phase. A stream that ended by itself is never stopped, one whose call was
  answered is discarded instead, and every other one is stopped exactly once.
\<close>

fun pump_fate :: "pump_phase \<Rightarrow> 's reader_guard \<Rightarrow> pump_state \<Rightarrow> bool" where
  "pump_fate (AwaitSettle failure) g st \<longleftrightarrow>
     gd_settled g = (\<not> response_writable failure) \<and> \<not> gd_discard g \<and> gd_stops g = 0 \<and> st = PumpFailed failure"
| "pump_fate (PumpEnded outcome) g st \<longleftrightarrow>
     gd_settled g \<and> gd_stops g = (if outcome = LocallyStopped \<and> \<not> gd_discard g then 1 else 0) \<and>
     (gd_discard g \<longrightarrow> outcome = LocallyStopped) \<and> st = PumpSettled outcome"
| "pump_fate PumpAborted g st \<longleftrightarrow> \<not> gd_discard g \<and> gd_stops g = (if gd_settled g then 0 else 1)"
| "pump_fate phase g st \<longleftrightarrow> \<not> gd_settled g \<and> \<not> gd_discard g \<and> gd_stops g = 0 \<and> st = Receiving"

text \<open>One poll of a pump that waits.\<close>

inductive pump_polled ::
  "'s frame_read \<Rightarrow> zstd_lib \<Rightarrow> ('e, 'd) stream_lib \<Rightarrow> usize \<Rightarrow> ('s, unit) io \<Rightarrow>
   (transport_error \<Rightarrow> status \<times> stream_failure_kind option) \<Rightarrow> bool \<Rightarrow> ('s, 'd) pump \<Rightarrow> ('s, 'd) pump \<Rightarrow> bool"
  for R :: "'s frame_read" and Z :: zstd_lib and L :: "('e, 'd) stream_lib" and limit :: usize
    and validate_end :: "('s, unit) io" and classify :: "transport_error \<Rightarrow> status \<times> stream_failure_kind option"
    and streaming :: bool and p :: "('s, 'd) pump" where
  permit: "streaming \<Longrightarrow> pm_phase p = AwaitPermit \<Longrightarrow>
    pump_polled R Z L limit validate_end classify streaming p (poll_permit cx event p)"
| frame: "streaming \<Longrightarrow> pm_phase p = AwaitFrame \<Longrightarrow> poll_frame R Z L limit validate_end classify cx p = Some p' \<Longrightarrow>
    pump_polled R Z L limit validate_end classify streaming p p'"
| unary: "\<not> streaming \<Longrightarrow> pm_phase p = AwaitPermit \<Longrightarrow> poll_unary R limit validate_end classify cx p = Some p' \<Longrightarrow>
    pump_polled R Z L limit validate_end classify streaming p p'"
| settle: "pm_phase p = AwaitSettle failure \<Longrightarrow>
    pump_polled R Z L limit validate_end classify streaming p (poll_settle cx failure p)"

text \<open>
  What the reason a call was settled for demands of its request stream: the outcome, whether the rest of the
  stream is discarded, and how often the peer is told to stop sending.
\<close>

fun demanded :: "pump_settle \<Rightarrow> pump_outcome \<times> bool \<times> nat" where
  "demanded ResponseCommitted = (LocallyStopped, True, 0)"
| "demanded ResponseStopped = (LocallyStopped, False, 1)"
| "demanded ServerShutdown = (LocallyStopped, False, 1)"
| "demanded SettleConnectionLost = (OutcomeConnectionLost, False, 0)"

definition ends_as :: "pump_outcome \<times> bool \<times> nat \<Rightarrow> ('s, 'd) pump \<Rightarrow> bool" where
  "ends_as d p = (case d of (outcome, discard, stops) \<Rightarrow>
     pm_phase p = PumpEnded outcome \<and> pm_state p = PumpSettled outcome \<and> gd_settled (pm_guard p) \<and>
     gd_discard (pm_guard p) = discard \<and> gd_stops (pm_guard p) = stops)"

text \<open>
  A poll that finds the call settled ends the pump as the reason demands, unless the stream had already ended
  by itself; while the call is not settled the pump ends only at a clean end of the stream, or stops it once
  when the handler is gone.
\<close>

definition poll_demands :: "('s, 'd) pump \<Rightarrow> ('s, 'd) pump \<Rightarrow> bool" where
  "poll_demands p p' =
     (case lt_value (pm_settle p) of
        Some reason \<Rightarrow>
          lt_version (pm_settle p) \<noteq> lt_seen (pm_settle p) \<longrightarrow>
          (case pm_phase p of
             AwaitSettle (FailPeerReset _) \<Rightarrow> ends_as (OutcomePeerReset, False, 0) p'
           | AwaitSettle (FailConnectionLost _) \<Rightarrow> ends_as (OutcomeConnectionLost, False, 0) p'
           | _ \<Rightarrow> ends_as (demanded reason) p')
      | None \<Rightarrow>
          (case pm_phase p' of
             PumpEnded _ \<Rightarrow> ends_as (CleanFin, False, 0) p' \<or>
               \<not> q_receiver_open (pm_queue p) \<and> ends_as (LocallyStopped, False, 1) p'
           | _ \<Rightarrow> True))"

text \<open>A dropped pump is aborted, and stops its stream unless that has ended or failed by itself.\<close>

definition drop_demands :: "('s, 'd) pump \<Rightarrow> ('s, 'd) pump \<Rightarrow> bool" where
  "drop_demands p p' \<longleftrightarrow>
     gd_discard (pm_guard p') = gd_discard (pm_guard p) \<and>
     (case pm_phase p of
        PumpEnded outcome \<Rightarrow> pm_phase p' = PumpEnded outcome \<and> gd_stops (pm_guard p') = gd_stops (pm_guard p)
      | PumpAborted \<Rightarrow> pm_phase p' = PumpAborted \<and> gd_stops (pm_guard p') = gd_stops (pm_guard p)
      | AwaitSettle (FailPeerReset _) \<Rightarrow> pm_phase p' = PumpAborted \<and> gd_stops (pm_guard p') = 0
      | AwaitSettle (FailConnectionLost _) \<Rightarrow> pm_phase p' = PumpAborted \<and> gd_stops (pm_guard p') = 0
      | _ \<Rightarrow> pm_phase p' = PumpAborted \<and> gd_stops (pm_guard p') = 1)"

text \<open>A cell that holds no reason was never sent one.\<close>

definition cell_fresh :: "('s, 'd) pump \<Rightarrow> bool" where
  "cell_fresh p \<longleftrightarrow> (lt_value (pm_settle p) = None \<longrightarrow>
     lt_version (pm_settle p) = lt_seen (pm_settle p) \<and> \<not> lt_closed (pm_settle p))"

definition live :: "pump_phase \<Rightarrow> bool" where
  "live phase \<longleftrightarrow> phase = AwaitPermit \<or> phase = AwaitFrame"

text \<open>The counters saturate, so that a limit of \<open>USIZE_MAX\<close> is none.\<close>

definition within :: "usize option \<Rightarrow> usize \<Rightarrow> bool" where
  "within limit n = (case limit of None \<Rightarrow> True | Some m \<Rightarrow> m < USIZE_MAX \<longrightarrow> n \<le> m)"

definition counts :: "usize option \<Rightarrow> nat \<Rightarrow> usize \<Rightarrow> bool" where
  "counts limit n used = (case limit of None \<Rightarrow> True | Some m \<Rightarrow> m < USIZE_MAX \<longrightarrow> n \<le> used \<and> used \<le> m)"

abbreviation total_size :: "bytes list \<Rightarrow> nat" where
  "total_size ms \<equiv> sum_list (map length ms)"

definition budget_kept :: "'d request_budget \<Rightarrow> (error + bytes) list \<Rightarrow> ('s, 'd) pump \<Rightarrow> bool" where
  "budget_kept b0 out p \<longleftrightarrow>
     bg_max_messages (pm_budget p) = bg_max_messages b0 \<and> bg_max_body_size (pm_budget p) = bg_max_body_size b0 \<and>
     within (bg_max_messages b0) (length (bodies out)) \<and> within (bg_max_body_size b0) (total_size (bodies out)) \<and>
     (live (pm_phase p) \<longrightarrow>
        counts (bg_max_messages b0) (length (bodies out)) (bg_messages (pm_budget p)) \<and>
        counts (bg_max_body_size b0) (total_size (bodies out)) (bg_body_size (pm_budget p)))"

definition items_kept :: "(error + bytes) list \<Rightarrow> ('s, 'd) pump \<Rightarrow> bool" where
  "items_kept out p \<longleftrightarrow>
     list_all is_ok (butlast out) \<and> (live (pm_phase p) \<longrightarrow> list_all is_ok out) \<and>
     (\<forall>failure. pm_phase p = AwaitSettle failure \<longrightarrow>
        list_all is_ok out \<or> last out = Inl (EStatus (failure_status failure)))"

definition ended_fate :: "('s, 'd) pump \<Rightarrow> bool" where
  "ended_fate p \<longleftrightarrow> (\<exists>outcome. pm_phase p = PumpEnded outcome) \<and> pump_fate (pm_phase p) (pm_guard p) (pm_state p)"

definition pump_kept :: "'d request_budget \<Rightarrow> (error + bytes) list \<Rightarrow> ('s, 'd) pump \<Rightarrow> bool" where
  "pump_kept b0 out p \<longleftrightarrow>
     pump_fate (pm_phase p) (pm_guard p) (pm_state p) \<and> items_kept out p \<and> budget_kept b0 out p"

text \<open>
  The pump of a stream of \<open>messages\<close>: while it reads, \<open>k\<close> of them are read and the rest is still to come,
  and at a clean end the handler that still listens has been given them all.
\<close>

definition pump_position ::
  "('s \<Rightarrow> bytes \<times> unit result) \<Rightarrow> ('w, 'e, 'd) write_lib \<Rightarrow> 'e message_encoder \<Rightarrow> nat \<Rightarrow> bytes list \<Rightarrow>
   (error + bytes) list \<Rightarrow> ('s, 'f) pump \<Rightarrow> nat \<Rightarrow> bool" where
  "pump_position content W m n messages out p k \<longleftrightarrow>
     content (gd_reader (pm_guard p)) = (wire_bytes (message_frames W m (n + k) (drop k messages)), Inr ()) \<and>
     (\<forall>j. shares_dict (bg_accept (pm_budget p)) (dict_at W m j)) \<and> prefix (bodies out) (take k messages) \<and>
     (q_receiver_open (pm_queue p) \<longrightarrow> bodies out = take k messages)"

definition pump_delivers ::
  "('s \<Rightarrow> bytes \<times> unit result) \<Rightarrow> ('w, 'e, 'd) write_lib \<Rightarrow> 'e message_encoder \<Rightarrow> nat \<Rightarrow> bytes list \<Rightarrow>
   (error + bytes) list \<Rightarrow> ('s, 'f) pump \<Rightarrow> bool" where
  "pump_delivers content W m n messages out p \<longleftrightarrow>
     prefix (bodies out) messages \<and>
     (live (pm_phase p) \<longrightarrow> (\<exists>k \<le> length messages. pump_position content W m n messages out p k)) \<and>
     (pm_phase p = PumpEnded CleanFin \<and> q_receiver_open (pm_queue p) \<longrightarrow> bodies out = messages)"

definition pump_given_up :: "('s, 'd) pump \<Rightarrow> bool" where
  "pump_given_up p \<longleftrightarrow> \<not> live (pm_phase p) \<and> pm_phase p \<noteq> PumpEnded CleanFin"

text \<open>A budget that has room for \<open>messages\<close>.\<close>

definition budget_admits :: "'d request_budget \<Rightarrow> bytes list \<Rightarrow> bool" where
  "budget_admits b messages \<longleftrightarrow>
     (\<forall>limit \<in> set_option (bg_max_messages b). bg_messages b + length messages \<le> limit) \<and>
     (\<forall>limit \<in> set_option (bg_max_body_size b). bg_body_size b + total_size messages \<le> limit)"

text \<open>A pump between two messages, whose handler has taken everything and whose call is not settled.\<close>

definition pump_idle :: "('s, 'd) pump \<Rightarrow> bool" where
  "pump_idle p \<longleftrightarrow> pm_phase p = AwaitPermit \<and> q_queue (pm_queue p) = [] \<and> q_queued_bytes (pm_queue p) = 0 \<and>
     q_receiver_open (pm_queue p) \<and> lt_version (pm_settle p) = lt_seen (pm_settle p) \<and> \<not> lt_closed (pm_settle p)"

definition example_budget :: "unit request_budget" where
  "example_budget = \<lparr>bg_max_messages = Some 2, bg_max_body_size = Some 1000, bg_messages = 0, bg_body_size = 6,
     bg_accept = accept_server None, bg_stream = None\<rparr>"

subsection \<open>Properties\<close>

lemma bodies_simps [simp]:
  "bodies [] = []" "bodies (xs @ ys) = bodies xs @ bodies ys"
  "bodies (Inr body # items) = body # bodies items" "bodies (Inl e # items) = bodies items"
  by (simp_all add: bodies_def)

lemma live_simps [simp]:
  "live AwaitPermit" "live AwaitFrame" "\<not> live (AwaitSettle f)" "\<not> live (PumpEnded outcome)" "\<not> live PumpAborted"
  by (simp_all add: live_def)

lemma within_counts: "counts limit n used \<Longrightarrow> within limit n"
  by (auto simp: counts_def within_def split: option.splits)

text \<open>Ending a pump.\<close>

lemma pump_end_simps [simp]:
  "pm_phase (pump_end (outcome, g) p) = PumpEnded outcome"
  "pm_state (pump_end (outcome, g) p) = PumpSettled outcome"
  "pm_guard (pump_end (outcome, g) p) = snd (guard_drop g)"
  "pm_budget (pump_end r p) = pm_budget p"
  "q_queue (pm_queue (pump_end r p)) = q_queue (pm_queue p)"
  by (simp_all add: pump_end_def drop_sender_def Let_def split: prod.splits)

lemma pump_end_settled:
  assumes "gd_stops g = 0" "\<not> gd_discard g"
  shows "ended_fate (pump_end (settle_reader reason g) p)"
proof (cases reason)
qed (use assms in \<open>simp_all add: ended_fate_def guard_drop_def stop_reader_def\<close>)

lemma pump_end_outcome:
  assumes "gd_stops g = 0" "\<not> gd_discard g" "gd_settled g" "outcome \<noteq> LocallyStopped"
  shows "ended_fate (pump_end (outcome, g) p)"
  using assms by (simp add: ended_fate_def guard_drop_def)

lemma failure_outcome_not_stopped: "\<not> response_writable f \<Longrightarrow> failure_outcome f \<noteq> LocallyStopped"
  by (cases f) simp_all

lemma pump_settled_cases:
  assumes "pump_settled cx p = (ended, p')" and "pump_fate AwaitPermit (pm_guard p) (pm_state p)"
  obtains (waits) c where "ended = None" "p' = p\<lparr>pm_settle := c\<rparr>"
  | (ends) q where "ended = Some q" "ended_fate q" "pm_budget q = pm_budget p"
      "q_queue (pm_queue q) = q_queue (pm_queue p)"
proof -
  show thesis
  proof (cases "poll_changed cx (pm_settle p)")
    case (Pair polled c)
    show thesis
    proof (cases polled)
      case Pending
      show thesis by (rule waits [of c]) (use assms(1) Pair Pending in \<open>simp_all add: pump_settled_def\<close>)
    next
      case (Ready r)
      obtain reason c' where c': "borrow_and_update c = (reason, c')" by (rule prod.exhaust)
      show thesis
        by (rule ends [of "pump_end (settle_reader (settle_reason reason) (pm_guard p)) (p\<lparr>pm_settle := c'\<rparr>)"])
          (use assms Pair Ready c' in \<open>auto simp: pump_settled_def pump_end_settled\<close>)
    qed
  qed
qed

lemma fail_and_wait_fate:
  assumes "gd_stops (pm_guard p) = 0" "\<not> gd_discard (pm_guard p)" "gd_settled (pm_guard p) \<longrightarrow> \<not> response_writable f"
  shows "pump_fate (pm_phase (fail_and_wait f permit p)) (pm_guard (fail_and_wait f permit p))
      (pm_state (fail_and_wait f permit p)) \<and> \<not> live (pm_phase (fail_and_wait f permit p)) \<and>
    pm_phase (fail_and_wait f permit p) \<noteq> PumpAborted \<and>
    (\<forall>g. pm_phase (fail_and_wait f permit p) = AwaitSettle g \<longrightarrow> g = f)"
proof -
  note def = fail_and_wait_def borrow_and_update_def Let_def
  show ?thesis
  proof (cases "lt_value (pm_settle p)")
    case None
    with assms show ?thesis by (auto simp: def)
  next
    case (Some reason)
    have "\<exists>q. fail_and_wait f permit p = pump_end (failure_outcome f, (pm_guard p)\<lparr>gd_settled := True\<rparr>) q"
      if "\<not> response_writable f"
      using that Some by (auto simp: def)
    moreover have "\<exists>q. fail_and_wait f permit p = pump_end (settle_reader reason (pm_guard p)) q"
      if "response_writable f"
      using that Some by (auto simp: def)
    ultimately have "ended_fate (fail_and_wait f permit p)"
      using assms(1,2) pump_end_settled [OF assms(1,2)]
        pump_end_outcome [of "(pm_guard p)\<lparr>gd_settled := True\<rparr>" "failure_outcome f"] failure_outcome_not_stopped [of f]
      by (cases "response_writable f") auto
    then show ?thesis by (auto simp: ended_fate_def)
  qed
qed

lemma fail_and_wait_simps:
  "pm_budget (fail_and_wait f permit p) = pm_budget p"
  "q_queue (pm_queue (fail_and_wait f permit p)) = q_queue (pm_queue p) @
     (if permit \<and> q_receiver_open (pm_queue p) then [(Inl (EStatus (failure_status f)), 0)] else [])"
  by (auto simp: fail_and_wait_def Let_def permit_send_def queue_push_def split: prod.splits option.splits)

lemma charge_message_ok:
  assumes "charge_message len b = (Inr (), b')"
  shows "bg_max_messages b' = bg_max_messages b" "bg_max_body_size b' = bg_max_body_size b"
    "counts (bg_max_messages b) n (bg_messages b) \<Longrightarrow> counts (bg_max_messages b) (n + 1) (bg_messages b')"
    "counts (bg_max_body_size b) k (bg_body_size b) \<Longrightarrow> counts (bg_max_body_size b) (k + len) (bg_body_size b')"
  using assms
  by (auto simp: charge_message_def check_stream_message_body_limits_def check_stream_body_limit_def Let_def
      counts_def saturating_add_def split: prod.splits if_split_asm option.splits)

lemma charge_message_limits:
  "bg_max_messages (snd (charge_message len b)) = bg_max_messages b"
  "bg_max_body_size (snd (charge_message len b)) = bg_max_body_size b"
  by (simp_all add: charge_message_def split: prod.splits)

lemma charge_skipped_counts:
  "charge_skipped limit used len = Inr used' \<Longrightarrow> counts limit n used \<Longrightarrow> counts limit n used'"
  by (auto simp: charge_skipped_def check_stream_body_limit_def Let_def counts_def saturating_add_def
      split: prod.splits if_split_asm option.splits)

lemma stream_known_preserves:
  assumes "stream_known limit on_skipped c st = (Inr (h, c'), st')" "P c"
    and "\<And>c n c'. P c \<Longrightarrow> on_skipped c n = Inr c' \<Longrightarrow> P c'"
  shows "P c'"
  using assms
proof (induction limit on_skipped c st arbitrary: h c' st' rule: stream_known.induct)
  case (1 limit on_skipped c st)
  obtain r st1 where header: "stream_header limit st = (r, st1)" by (rule prod.exhaust)
  show ?case
  proof (cases "\<exists>h1. r = Inr (Some h1) \<and> \<not> is_known_frame_type (fh_frame_type h1)")
    case False
    with "1.prems" header show ?thesis
      by (auto simp: stream_known.simps [of limit on_skipped c st] split: sum.splits option.splits if_split_asm)
  next
    case True
    then obtain h1 where h1: "r = Inr (Some h1)" "\<not> is_known_frame_type (fh_frame_type h1)" by blast
    with "1.prems" header obtain u st2 c2 where
      step: "stream_skip (fh_payload_len h1) st1 = (Inr u, st2)" "on_skipped c (wire_len h1) = Inr c2"
      "stream_known limit on_skipped c2 st2 = (Inr (h, c'), st')"
      by (auto simp: stream_known.simps [of limit on_skipped c st] split: prod.splits sum.splits)
    show ?thesis
      by (rule "1.IH" [OF header [symmetric] h1(1) refl h1(2) step(1) [symmetric] refl step(2,3)
            "1.prems"(3) [OF "1.prems"(2) step(2)] "1.prems"(3)])
  qed
qed

lemma pump_kept_settle [simp]: "pump_kept b0 out (p\<lparr>pm_settle := c\<rparr>) = pump_kept b0 out p"
  by (simp add: pump_kept_def items_kept_def budget_kept_def)

lemma pump_kept_queue [simp]: "pump_kept b0 out (p\<lparr>pm_queue := q\<rparr>) = pump_kept b0 out p"
  by (simp add: pump_kept_def items_kept_def budget_kept_def)

lemma ended_kept:
  assumes "ended_fate q" "pm_budget q = pm_budget p" "pump_kept b0 out p"
  shows "pump_kept b0 out q"
  using assms by (auto simp: pump_kept_def ended_fate_def items_kept_def budget_kept_def)

lemma fail_and_wait_kept:
  assumes "pump_kept b0 out p" "live (pm_phase p)" "gd_stops (pm_guard p') = 0" "\<not> gd_discard (pm_guard p')"
    "gd_settled (pm_guard p') \<longrightarrow> \<not> response_writable f"
    "bg_max_messages (pm_budget p') = bg_max_messages b0" "bg_max_body_size (pm_budget p') = bg_max_body_size b0"
    "items = [] \<or> items = [Inl (EStatus (failure_status f))]"
  shows "pump_kept b0 (out @ items) (fail_and_wait f permit p')"
proof -
  have "list_all is_ok out" using assms(1,2) by (simp add: pump_kept_def items_kept_def)
  moreover have "list_all is_ok (butlast out)" using assms(1) by (simp add: pump_kept_def items_kept_def)
  moreover have "bodies items = []" using assms(8) by auto
  ultimately show ?thesis
    using fail_and_wait_fate [OF assms(3-5), of permit] assms
    by (auto simp: pump_kept_def items_kept_def budget_kept_def fail_and_wait_simps)
qed

lemma poll_permit_kept:
  assumes "pump_kept b0 out p" "pm_phase p = AwaitPermit"
  shows "pump_kept b0 out (poll_permit cx event p)"
proof -
  have fate: "pump_fate AwaitPermit (pm_guard p) (pm_state p)" using assms by (simp add: pump_kept_def)
  obtain ended p1 where e: "pump_settled cx p = (ended, p1)" by (rule prod.exhaust)
  from e fate show ?thesis
  proof (cases rule: pump_settled_cases)
    case (ends q)
    then show ?thesis using assms e by (simp add: poll_permit_def ended_kept)
  next
    case (waits c)
    obtain polled q where q: "poll_reserve MESSAGES cx (pm_queue p) = (polled, q)" by (rule prod.exhaust)
    define p2 where "p2 = p\<lparr>pm_settle := c, pm_queue := q\<rparr>"
    have fail: "pump_kept b0 out (fail_and_wait f False (p2\<lparr>pm_guard := (pm_guard p)\<lparr>gd_settled := True\<rparr>\<rparr>))"
      if "\<not> response_writable f" for f
      using fail_and_wait_kept [of b0 out p "p2\<lparr>pm_guard := (pm_guard p)\<lparr>gd_settled := True\<rparr>\<rparr>" f "[]" False]
        that assms fate by (simp add: p2_def pump_kept_def budget_kept_def)
    have kept: "pump_kept b0 out p2" "pump_kept b0 out (p2\<lparr>pm_phase := AwaitFrame\<rparr>)"
      using assms by (simp_all add: p2_def pump_kept_def items_kept_def budget_kept_def)
    have stopped: "pump_kept b0 out (pump_end (LocallyStopped, (stop_reader (pm_guard p))\<lparr>gd_settled := True\<rparr>) p2)"
      by (rule ended_kept [OF _ _ kept(1)]) (use fate in \<open>simp_all add: ended_fate_def guard_drop_def stop_reader_def\<close>)
    show ?thesis
      using e waits q fail kept stopped
      by (auto simp: poll_permit_def p2_def Let_def split: poll.splits sum.splits option.splits transport_event.splits)
  qed
qed

lemma io_bind_Inr_iff:
  "io_bind m k s = Some (Inr y, s') \<longleftrightarrow> (\<exists>x s1. m s = Some (Inr x, s1) \<and> k x s1 = Some (Inr y, s'))"
  by (auto simp: io_bind_def split: option.splits prod.splits sum.splits)

lemma io_part_iff:
  "io_fst m st = Some (r, st') \<longleftrightarrow> (\<exists>s. m (fst st) = Some (r, s) \<and> st' = (s, snd st))"
  "io_snd k st = Some (r, st') \<longleftrightarrow> (\<exists>t. k (snd st) = Some (r, t) \<and> st' = (fst st, t))"
  by (auto simp: io_fst_def io_snd_def)

lemma implements_ok:
  assumes "implements valid content m f s" "m s = Some (Inr x, s')"
  shows "valid s'" "f (content s) = (Inr x, content s')"
proof -
  from assms have "fst (f (content s)) = Inr x" by (auto simp: implements_def)
  with assms show "valid s'" "f (content s) = (Inr x, content s')" by (auto simp: implements_def prod_eq_iff)
qed

lemma pump_read_frame_cases:
  assumes "pump_read_frame R Z L limit (s, b) = Some (r, (s', b'))"
  obtains (error) e a i where "r = Inl e" "b' = b\<lparr>bg_accept := a, bg_stream := i\<rparr>"
      "read_request_frame R Z L limit (charge_skipped (bg_max_body_size b)) (bg_body_size b)
         (s, bg_accept b, bg_stream b) = Some (Inl e, (s', a, i))"
  | (frame) frame c' a i where "r = Inr frame" "b' = b\<lparr>bg_accept := a, bg_stream := i, bg_body_size := c'\<rparr>"
      "read_request_frame R Z L limit (charge_skipped (bg_max_body_size b)) (bg_body_size b)
         (s, bg_accept b, bg_stream b) = Some (Inr (frame, c'), (s', a, i))"
proof -
  let ?read = "read_request_frame R Z L limit (charge_skipped (bg_max_body_size b)) (bg_body_size b)
      (s, bg_accept b, bg_stream b)"
  from assms obtain x s1 a i where x: "?read = Some (x, (s1, a, i))"
    by (cases ?read) (auto simp: pump_read_frame_def)
  show thesis
  proof (cases x)
    case (Inl e)
    show thesis by (rule error [where e = e and a = a and i = i]) (use assms x Inl in \<open>auto simp: pump_read_frame_def\<close>)
  next
    case (Inr y)
    show thesis
      by (rule frame [where frame = "fst y" and a = a and i = i and c' = "snd y"]) (use assms x Inr in \<open>auto simp: pump_read_frame_def Let_def split: prod.split_asm\<close>)
  qed
qed

context frame_reader
begin

lemma read_request_frame_known:
  assumes "valid s" "read_request_frame R Z L limit on_skipped c (s, a, i) = Some (Inr (frame, c'), (s', a', i'))"
  shows "valid s' \<and> (\<exists>h st. stream_known limit on_skipped c (content s) = (Inr (h, c'), st))"
proof -
  from assms(2) obtain h c1 s1 where h: "next_known_header R limit on_skipped c s = Some (Inr (h, c1), s1)"
    by (auto simp: read_request_frame_def io_bind_Inr_iff io_part_iff)
  note s1 = implements_ok [OF next_known_header_implements [OF assms(1)] h]
  have "c' = c1 \<and> valid s'"
    using assms(2) h s1(1) implements_ok(1) [OF read_payload_implements [OF s1(1)]]
    by (cases h) (auto simp: read_request_frame_def io_bind_Inr_iff io_part_iff io_ret_def io_err_def Let_def split: if_split_asm)
  with s1(2) show ?thesis by blast
qed

lemma pump_read_frame_ok:
  assumes "valid s" "pump_read_frame R Z L limit (s, b) = Some (Inr frame, (s', b'))"
  shows "valid s'" "bg_max_messages b' = bg_max_messages b" "bg_max_body_size b' = bg_max_body_size b"
    "bg_messages b' = bg_messages b"
    "counts (bg_max_body_size b) k (bg_body_size b) \<Longrightarrow> counts (bg_max_body_size b) k (bg_body_size b')"
proof -
  from assms(2) obtain a i c' where
    r: "read_request_frame R Z L limit (charge_skipped (bg_max_body_size b)) (bg_body_size b)
      (s, bg_accept b, bg_stream b) = Some (Inr (frame, c'), (s', a, i))"
    and b': "b' = b\<lparr>bg_accept := a, bg_stream := i, bg_body_size := c'\<rparr>"
    by (cases rule: pump_read_frame_cases) auto
  from read_request_frame_known [OF assms(1) r] obtain h st where
    known: "valid s'" "stream_known limit (charge_skipped (bg_max_body_size b)) (bg_body_size b) (content s) = (Inr (h, c'), st)"
    by blast
  show "valid s'" "bg_max_messages b' = bg_max_messages b" "bg_max_body_size b' = bg_max_body_size b"
    "bg_messages b' = bg_messages b"
    using known b' by simp_all
  show "counts (bg_max_body_size b) k (bg_body_size b')" if "counts (bg_max_body_size b) k (bg_body_size b)"
    using stream_known_preserves [OF known(2), of "counts (bg_max_body_size b) k"] that b'
    by (auto intro: charge_skipped_counts)
qed

end

lemma pump_read_frame_limits:
  assumes "pump_read_frame R Z L limit (s, b) = Some (r, (s', b'))"
  shows "bg_max_messages b' = bg_max_messages b" "bg_max_body_size b' = bg_max_body_size b"
  using assms by (cases rule: pump_read_frame_cases; simp)+

lemma pushed_fail_and_wait:
  assumes "q_queue (pm_queue p) = q_queue (pm_queue p')"
  shows "pushed p (fail_and_wait f permit p') =
    (if permit \<and> q_receiver_open (pm_queue p') then [Inl (EStatus (failure_status f))] else [])"
  using assms by (simp add: pushed_def fail_and_wait_simps)

lemma pump_failed_kept:
  assumes "pump_kept b0 out p" "pm_phase p = AwaitFrame"
    and "pm_guard q = (pm_guard p)\<lparr>gd_reader := s\<rparr>" "pm_queue q = pm_queue p"
    "bg_max_messages (pm_budget q) = bg_max_messages b0" "bg_max_body_size (pm_budget q) = bg_max_body_size b0"
  shows "pump_kept b0 (out @ pushed p (fail_and_wait f permit q)) (fail_and_wait f permit q)"
proof -
  have "pump_fate AwaitPermit (pm_guard p) (pm_state p)" using assms(1,2) by (simp add: pump_kept_def)
  then show ?thesis
    by (intro fail_and_wait_kept [OF assms(1)]) (use assms(2-) in \<open>simp_all add: pushed_fail_and_wait\<close>)
qed

lemma pump_frame_end_kept:
  assumes "pump_kept b0 out p" "pm_phase p = AwaitFrame"
    and "pump_frame validate_end classify (Inr None) p1 = Some p'"
    and "p1 = p\<lparr>pm_settle := c, pm_guard := (pm_guard p)\<lparr>gd_reader := s\<rparr>, pm_budget := b\<rparr>"
    and "bg_max_messages b = bg_max_messages b0" "bg_max_body_size b = bg_max_body_size b0"
  shows "pump_kept b0 (out @ pushed p p') p'"
proof -
  from assms(3) obtain r s2 where r: "validate_end (gd_reader (pm_guard p1)) = Some (r, s2)"
    by (auto simp: pump_frame_def)
  show ?thesis
  proof (cases r)
    case (Inl e)
    with assms(3) r have "p' = fail_and_wait (classify_error classify e) False
        (p1\<lparr>pm_guard := (pm_guard p1)\<lparr>gd_reader := s2\<rparr>\<rparr>)" by (simp add: pump_frame_def)
    with pump_failed_kept [OF assms(1,2)] assms(4-6) show ?thesis by simp
  next
    case (Inr u)
    have fate: "pump_fate AwaitPermit (pm_guard p) (pm_state p)" using assms(1,2) by (simp add: pump_kept_def)
    from Inr assms(3,4) r have "p' = pump_end (CleanFin, (pm_guard p)\<lparr>gd_reader := s2, gd_settled := True\<rparr>) p1"
      by (simp add: pump_frame_def)
    then have "pushed p p' = []" "ended_fate p'" "pm_budget p' = b"
      using assms(4) fate by (simp_all add: pushed_def ended_fate_def guard_drop_def)
    with assms(1,5,6) show ?thesis
      by (auto simp: pump_kept_def ended_fate_def items_kept_def budget_kept_def)
  qed
qed

lemma pump_frame_message_kept:
  assumes "pump_kept b0 out p" "pm_phase p = AwaitFrame"
    and "pump_frame validate_end classify (Inr (Some body)) p1 = Some p'"
    and "p1 = p\<lparr>pm_settle := c, pm_guard := (pm_guard p)\<lparr>gd_reader := s\<rparr>, pm_budget := b\<rparr>"
    and "bg_max_messages b = bg_max_messages b0" "bg_max_body_size b = bg_max_body_size b0"
    and "counts (bg_max_messages b0) (length (bodies out)) (bg_messages b)"
    and "counts (bg_max_body_size b0) (total_size (bodies out)) (bg_body_size b)"
  shows "pump_kept b0 (out @ pushed p p') p'"
proof -
  obtain r b1 where charge: "charge_message (length body) b = (r, b1)" by (rule prod.exhaust)
  have limits: "bg_max_messages b1 = bg_max_messages b0" "bg_max_body_size b1 = bg_max_body_size b0"
    using charge_message_limits [of "length body" b] charge assms(5,6) by simp_all
  show ?thesis
  proof (cases r)
    case (Inl e)
    with assms(3,4) charge have
      "p' = fail_and_wait (FailProtocol (into_status (fst \<circ> classify) e)) True (p1\<lparr>pm_budget := b1\<rparr>)"
      by (simp add: pump_frame_def)
    with pump_failed_kept [OF assms(1,2)] limits assms(4) show ?thesis by simp
  next
    case r: (Inr u)
    have fate: "pump_fate AwaitPermit (pm_guard p) (pm_state p)" "list_all is_ok out" "list_all is_ok (butlast out)"
      using assms(1,2) by (simp_all add: pump_kept_def items_kept_def)
    from r assms(3,4) charge have p': "p' = p1\<lparr>pm_budget := b1,
        pm_queue := snd (permit_send (Inr body) (length body) (pm_queue p)), pm_phase := AwaitPermit\<rparr>"
      by (simp add: pump_frame_def)
    have pushed: "pushed p p' = (if q_receiver_open (pm_queue p) then [Inr body] else [])"
      by (simp add: p' pushed_def permit_send_def queue_push_def assms(4))
    have counted: "counts (bg_max_messages b0) (length (bodies out) + 1) (bg_messages b1)"
      "counts (bg_max_body_size b0) (total_size (bodies out) + length body) (bg_body_size b1)"
      using charge_message_ok [of "length body" b b1] charge r assms(5-8) by simp_all
    then have "counts (bg_max_messages b0) (length (bodies out)) (bg_messages b1)"
      "counts (bg_max_body_size b0) (total_size (bodies out)) (bg_body_size b1)"
      by (auto simp: counts_def split: option.splits)
    with counted pushed p' fate limits assms(4) show ?thesis
      by (auto simp: pump_kept_def items_kept_def budget_kept_def butlast_append dest: within_counts)
  qed
qed

lemma pump_frame_kept:
  assumes "pump_kept b0 out p" "pm_phase p = AwaitFrame"
    and "pump_frame validate_end classify frame p1 = Some p'"
    and "p1 = p\<lparr>pm_settle := c, pm_guard := (pm_guard p)\<lparr>gd_reader := s\<rparr>, pm_budget := b\<rparr>"
    and "bg_max_messages b = bg_max_messages b0" "bg_max_body_size b = bg_max_body_size b0"
    and "is_ok frame \<longrightarrow> counts (bg_max_messages b0) (length (bodies out)) (bg_messages b) \<and>
       counts (bg_max_body_size b0) (total_size (bodies out)) (bg_body_size b)"
  shows "pump_kept b0 (out @ pushed p p') p'"
proof (cases frame)
  case (Inl e)
  with assms(3) have "p' = fail_and_wait (classify_error classify e) True p1" by (simp add: pump_frame_def)
  with pump_failed_kept [OF assms(1,2)] assms(4-6) show ?thesis by simp
next
  case (Inr x)
  show ?thesis
  proof (cases x)
    case None
    with pump_frame_end_kept [OF assms(1,2) _ assms(4-6)] assms(3) Inr show ?thesis by simp
  next
    case (Some body)
    with pump_frame_message_kept [OF assms(1,2) _ assms(4-6)] assms(3,7) Inr show ?thesis by simp
  qed
qed

lemma pushed_same [simp]: "q_queue (pm_queue p') = q_queue (pm_queue p) \<Longrightarrow> pushed p p' = []"
  by (simp add: pushed_def)

lemma poll_unary_kept:
  assumes "pump_kept b0 out p" "pm_phase p = AwaitPermit" "poll_unary R limit validate_end classify cx p = Some p'"
  shows "pump_kept b0 out p'"
proof -
  have fate: "pump_fate AwaitPermit (pm_guard p) (pm_state p)" using assms by (simp add: pump_kept_def)
  obtain ended p1 where e: "pump_settled cx p = (ended, p1)" by (rule prod.exhaust)
  from e fate show ?thesis
  proof (cases rule: pump_settled_cases)
    case (ends q)
    with assms e show ?thesis by (simp add: poll_unary_def ended_kept)
  next
    case (waits c)
    with assms(3) e obtain r s where
      r: "pump_read_end R validate_end limit (pm_budget p) (gd_reader (pm_guard p)) = Some (r, s)"
      by (auto simp: poll_unary_def)
    note poll = assms(3) [unfolded poll_unary_def e waits prod.case option.case, symmetric]
    show ?thesis
    proof (cases r)
      case (Inl x)
      with poll r have "p' = fail_and_wait (classify_error classify x) False
          (p\<lparr>pm_settle := c, pm_guard := (pm_guard p)\<lparr>gd_reader := s\<rparr>\<rparr>)" by simp
      with fail_and_wait_kept [OF assms(1), of "p\<lparr>pm_settle := c, pm_guard := (pm_guard p)\<lparr>gd_reader := s\<rparr>\<rparr>" _ "[]"]
        fate assms(1,2) show ?thesis by (simp add: pump_kept_def budget_kept_def)
    next
      case (Inr u)
      with poll r have p': "p' = pump_end (CleanFin, (pm_guard p)\<lparr>gd_reader := s, gd_settled := True\<rparr>) (p\<lparr>pm_settle := c\<rparr>)"
        by simp
      show ?thesis
        unfolding p' by (rule ended_kept [OF _ _ assms(1)]) (use fate in \<open>simp_all add: ended_fate_def guard_drop_def\<close>)
    qed
  qed
qed

lemma poll_settle_kept:
  assumes "pump_kept b0 out p" "pm_phase p = AwaitSettle f"
  shows "pump_kept b0 out (poll_settle cx f p)"
proof -
  have fate: "pump_fate (AwaitSettle f) (pm_guard p) (pm_state p)" using assms by (simp add: pump_kept_def)
  have "pump_kept b0 out (if response_writable f then pump_end (settle_reader reason (pm_guard p)) (p\<lparr>pm_settle := c\<rparr>)
      else pump_end (failure_outcome f, pm_guard p) (p\<lparr>pm_settle := c\<rparr>))" for reason c
    by (rule ended_kept [OF _ _ assms(1)])
      (use fate in \<open>auto intro: pump_end_settled pump_end_outcome dest: failure_outcome_not_stopped\<close>)
  then show ?thesis
    using assms(1)
    by (auto simp: poll_settle_def borrow_and_update_def Let_def simp del: settle_reader.simps
        split: prod.splits poll.splits sum.splits option.splits)
qed

lemma pump_drop_kept:
  assumes "pump_kept b0 out p"
  shows "pump_kept b0 out (pump_drop p)"
proof -
  have kept: "pump_kept b0 out (p\<lparr>pm_settle := c\<rparr>)" for c using assms by simp
  have "pump_kept b0 out (p\<lparr>pm_settle := c, pm_guard := snd (guard_drop (pm_guard p)), pm_phase := PumpAborted, pm_queue := q\<rparr>)"
    if "pm_phase p \<noteq> PumpAborted" "\<nexists>outcome. pm_phase p = PumpEnded outcome" for c q
    using assms that
    by (cases "pm_phase p") (auto simp: pump_kept_def items_kept_def budget_kept_def guard_drop_def stop_reader_def)
  with kept show ?thesis
    by (cases "pm_phase p") (simp_all add: pump_drop_def pump_send_settle_def)
qed

lemma start_kept:
  assumes "bg_messages b0 = 0" "within (bg_max_body_size b0) (bg_body_size b0)"
  shows "pump_kept b0 [] (start_request_pump s0 b0)"
  using assms
  by (auto simp: pump_kept_def items_kept_def budget_kept_def start_request_pump_def guard_new_def within_def counts_def
      split: option.splits)

lemma fail_and_wait_not_live: "\<not> live (pm_phase (fail_and_wait f permit p))"
  by (auto simp: fail_and_wait_def pump_end_def Let_def split: prod.splits option.splits)

lemma pump_frame_not_live:
  assumes "pump_frame validate_end classify frame p = Some p'" "\<nexists>body. frame = Inr (Some body)"
  shows "\<not> live (pm_phase p')"
proof (cases frame)
  case (Inl e)
  with assms(1) have "p' = fail_and_wait (classify_error classify e) True p" by (simp add: pump_frame_def)
  then show ?thesis by (simp add: fail_and_wait_not_live)
next
  case (Inr x)
  with assms(2) have x: "x = None" by (cases x) auto
  with assms(1) Inr obtain r s where r: "validate_end (gd_reader (pm_guard p)) = Some (r, s)"
    by (auto simp: pump_frame_def)
  with assms(1) Inr x show ?thesis
    by (cases r) (auto simp: pump_frame_def Let_def fail_and_wait_not_live)
qed

lemma poll_permit_reader:
  assumes "live (pm_phase (poll_permit cx event p))"
  shows "gd_reader (pm_guard (poll_permit cx event p)) = gd_reader (pm_guard p)"
  using assms
  by (auto simp: poll_permit_def pump_settled_def pump_end_def fail_and_wait_not_live Let_def
      split: prod.splits poll.splits sum.splits option.splits transport_event.splits)

lemma poll_unary_not_live:
  assumes "poll_unary R limit validate_end classify cx p = Some p'"
  shows "\<not> live (pm_phase p')"
proof (cases "pump_read_end R validate_end limit (pm_budget p) (gd_reader (pm_guard p))")
  case None
  with assms show ?thesis
    by (auto simp: poll_unary_def pump_settled_def pump_end_def split: prod.splits poll.splits option.splits)
next
  case (Some x)
  with assms show ?thesis
    by (cases x; cases "fst x") (auto simp: poll_unary_def pump_settled_def pump_end_def fail_and_wait_not_live Let_def
        split: prod.splits poll.splits option.splits)
qed

lemma poll_settle_not_live:
  "pm_phase p = AwaitSettle f \<Longrightarrow> \<not> live (pm_phase (poll_settle cx f p))"
  by (auto simp: poll_settle_def pump_end_def Let_def split: prod.splits poll.splits sum.splits option.splits)

lemma pump_drop_not_live: "\<not> live (pm_phase (pump_drop p))"
  by (cases "pm_phase p") (simp_all add: pump_drop_def pump_send_settle_def)

context frame_reader
begin

lemma poll_frame_kept:
  assumes "pump_kept b0 out p" "pm_phase p = AwaitFrame" "valid (gd_reader (pm_guard p))"
    and "poll_frame R Z L limit validate_end classify cx p = Some p'"
  shows "pump_kept b0 (out @ pushed p p') p' \<and> (live (pm_phase p') \<longrightarrow> valid (gd_reader (pm_guard p')))"
proof -
  have fate: "pump_fate AwaitPermit (pm_guard p) (pm_state p)"
    and budget: "budget_kept b0 out p" using assms(1,2) by (simp_all add: pump_kept_def)
  obtain ended p1 where e: "pump_settled cx p = (ended, p1)" by (rule prod.exhaust)
  from e fate show ?thesis
  proof (cases rule: pump_settled_cases)
    case (ends q)
    with assms e have p': "p' = q" by (simp add: poll_frame_def)
    with ends ended_kept [OF ends(2,3) assms(1)] show ?thesis by (auto simp: ended_fate_def)
  next
    case (waits c)
    with assms(4) e obtain frame s b where
      read: "pump_read_frame R Z L limit (gd_reader (pm_guard p), pm_budget p) = Some (frame, s, b)"
      and frame: "pump_frame validate_end classify frame
        (p\<lparr>pm_settle := c, pm_guard := (pm_guard p)\<lparr>gd_reader := s\<rparr>, pm_budget := b\<rparr>) = Some p'"
      by (auto simp: poll_frame_def split: option.split_asm)
    have kept: "pump_kept b0 (out @ pushed p p') p'"
    proof (rule pump_frame_kept [OF assms(1,2) frame refl])
      show "bg_max_messages b = bg_max_messages b0" "bg_max_body_size b = bg_max_body_size b0"
        using pump_read_frame_limits [OF read] budget by (simp_all add: budget_kept_def)
      have counted: "counts (bg_max_messages b0) (length (bodies out)) (bg_messages (pm_budget p))"
        "counts (bg_max_body_size b0) (total_size (bodies out)) (bg_body_size (pm_budget p))"
        "bg_max_body_size (pm_budget p) = bg_max_body_size b0"
        using budget assms(2) by (simp_all add: budget_kept_def)
      show "is_ok frame \<longrightarrow> counts (bg_max_messages b0) (length (bodies out)) (bg_messages b) \<and>
          counts (bg_max_body_size b0) (total_size (bodies out)) (bg_body_size b)"
      proof
        assume "is_ok frame"
        then obtain x where "frame = Inr x" by (auto simp: is_ok_iff)
        with read have ok: "pump_read_frame R Z L limit (gd_reader (pm_guard p), pm_budget p) = Some (Inr x, s, b)" by simp
        show "counts (bg_max_messages b0) (length (bodies out)) (bg_messages b) \<and>
            counts (bg_max_body_size b0) (total_size (bodies out)) (bg_body_size b)"
          using counted pump_read_frame_ok(4) [OF assms(3) ok]
            pump_read_frame_ok(5) [OF assms(3) ok, of "total_size (bodies out)"] by simp
      qed
    qed
    have "live (pm_phase p') \<longrightarrow> valid (gd_reader (pm_guard p'))"
    proof (cases "\<exists>body. frame = Inr (Some body)")
      case True
      then obtain body where body: "frame = Inr (Some body)" by blast
      with read pump_read_frame_ok(1) [OF assms(3)] have "valid s" by simp
      with frame body show ?thesis
        by (cases "charge_message (length body) b"; cases "fst (charge_message (length body) b)")
          (auto simp: pump_frame_def fail_and_wait_not_live)
    next
      case False
      then show ?thesis
        using pump_frame_not_live [OF frame] by blast
    qed
    with kept show ?thesis by blast
  qed
qed

lemma pump_run_kept:
  assumes "pump_run R Z L limit validate_end classify streaming s0 b0 out p" "valid s0" "bg_messages b0 = 0"
    and "within (bg_max_body_size b0) (bg_body_size b0)"
  shows "pump_kept b0 out p \<and> (live (pm_phase p) \<longrightarrow> valid (gd_reader (pm_guard p)))"
  using assms
proof (induction rule: pump_run.induct)
  case started
  then show ?case using start_kept [of b0] by (simp add: start_request_pump_def guard_new_def)
next
  case (permit_polled out p cx event)
  then show ?case using poll_permit_kept [of b0 out p cx event] poll_permit_reader [of cx event p] by simp
next
  case (frame_polled out p cx p')
  then show ?case using poll_frame_kept [of b0 out p Z L limit validate_end classify cx p'] by simp
next
  case (unary_polled out p cx p')
  then show ?case using poll_unary_kept [of b0 out p R limit validate_end classify cx p'] poll_unary_not_live [of R limit validate_end classify cx p p'] by simp
next
  case (settle_polled out p failure cx)
  then show ?case using poll_settle_kept [of b0 out p failure cx] poll_settle_not_live [of p failure cx] by simp
next
  case (settled out p reason)
  then show ?case by (simp add: pump_send_settle_def)
next
  case (pump_dropped out p)
  then show ?case using pump_drop_kept [of b0 out p] pump_drop_not_live [of p] by simp
next
  case (body_taken out p cx polled ws q)
  then show ?case by simp
next
  case (handler_dropped out p ws q)
  then show ?case by simp
qed

end

lemma settle_reader_given_up: "pump_given_up (pump_end (settle_reader reason g) p)"
  by (cases reason) (simp_all add: pump_given_up_def)

lemma fail_and_wait_given_up: "pump_given_up (fail_and_wait f permit p)"
  by (cases f) (auto simp: fail_and_wait_def Let_def settle_reader_given_up simp del: settle_reader.simps
      split: prod.splits option.splits, auto simp: pump_given_up_def)

lemma pump_settled_given_up: "pump_settled cx p = (Some q, p') \<Longrightarrow> pump_given_up q"
  by (auto simp: pump_settled_def settle_reader_given_up split: prod.split_asm poll.split_asm)

lemma given_up_delivers:
  "pump_given_up p' \<Longrightarrow> prefix (bodies out) messages \<Longrightarrow> pump_delivers content W m n messages out p'"
  by (simp add: pump_given_up_def pump_delivers_def)

lemma given_up_keeps:
  "pump_given_up p' \<Longrightarrow> pump_delivers content W m n messages out p \<Longrightarrow> pump_delivers content W m n messages out p'"
  by (simp add: pump_given_up_def pump_delivers_def)

lemma queue_op_open [simp]:
  "q_receiver_open (snd (permit_send v len q)) = q_receiver_open q"
  "q_receiver_open (snd (drop_sender q)) = q_receiver_open q"
  by (simp_all add: queue_op_defs Let_def)

lemma pump_end_open [simp]: "q_receiver_open (pm_queue (pump_end r p)) = q_receiver_open (pm_queue p)"
  by (simp add: pump_end_def split: prod.splits)

lemma poll_permit_delivers:
  assumes "pump_delivers content W m n messages out p" "pm_phase p = AwaitPermit"
  shows "pump_delivers content W m n messages out (poll_permit cx event p)"
proof (cases "pump_given_up (poll_permit cx event p)")
  case True
  then show ?thesis using assms(1) by (rule given_up_keeps)
next
  case False
  then have "gd_reader (pm_guard (poll_permit cx event p)) = gd_reader (pm_guard p) \<and>
      pm_budget (poll_permit cx event p) = pm_budget p \<and>
      q_receiver_open (pm_queue (poll_permit cx event p)) = q_receiver_open (pm_queue p) \<and>
      live (pm_phase (poll_permit cx event p))"
    using assms(2) pump_settled_given_up [of cx p]
    by (auto simp: poll_permit_def pump_settled_def poll_reserve_def fail_and_wait_given_up settle_reader_given_up Let_def
        split: prod.splits poll.splits sum.splits option.splits transport_event.splits if_splits, auto simp: pump_given_up_def)
  with assms show ?thesis by (auto simp: pump_delivers_def pump_position_def)
qed

lemma shares_dict_all:
  "accept_lookup a' = accept_lookup a \<Longrightarrow> \<forall>j. shares_dict a (d j) \<Longrightarrow> \<forall>j. shares_dict a' (d j)"
  using shares_dict_cong [of a' a] by simp

lemma pump_frame_message_delivers:
  assumes "pump_position content W m n messages out p k" "k < length messages"
    and "pump_frame validate_end classify (Inr (Some (messages ! k))) p1 = Some p'"
    and "p1 = p\<lparr>pm_settle := c, pm_guard := (pm_guard p)\<lparr>gd_reader := s\<rparr>, pm_budget := b\<rparr>"
    and "content s = (wire_bytes (message_frames W m (n + (k + 1)) (drop (k + 1) messages)), Inr ())"
    and "accept_lookup (bg_accept b) = accept_lookup (bg_accept (pm_budget p))"
  shows "pump_delivers content W m n messages (out @ pushed p p') p'"
proof -
  have out: "prefix (bodies out) (take k messages)" using assms(1) by (simp add: pump_position_def)
  then have messages: "prefix (bodies out) messages" by (rule prefix_order.trans) (rule take_is_prefix)
  obtain r b1 where charge: "charge_message (length (messages ! k)) b = (r, b1)" by (rule prod.exhaust)
  show ?thesis
  proof (cases r)
    case (Inl e)
    with assms(3,4) charge have
      p': "p' = fail_and_wait (FailProtocol (into_status (fst \<circ> classify) e)) True (p1\<lparr>pm_budget := b1\<rparr>)"
      by (simp add: pump_frame_def)
    then have "bodies (pushed p p') = []"
      using assms(4) by (simp add: pushed_fail_and_wait)
    with p' messages show ?thesis by (simp add: given_up_delivers fail_and_wait_given_up)
  next
    case (Inr u)
    have accept: "bg_accept b1 = bg_accept b"
      using charge by (auto simp: charge_message_def split: prod.splits)
    from Inr assms(3,4) charge have p': "p' = p1\<lparr>pm_budget := b1,
        pm_queue := snd (permit_send (Inr (messages ! k)) (length (messages ! k)) (pm_queue p)), pm_phase := AwaitPermit\<rparr>"
      by (simp add: pump_frame_def)
    have pushed: "pushed p p' = (if q_receiver_open (pm_queue p) then [Inr (messages ! k)] else [])"
      by (simp add: p' pushed_def permit_send_def queue_push_def assms(4))
    have step: "take (k + 1) messages = take k messages @ [messages ! k]"
      using assms(2) by (simp add: take_Suc_conv_app_nth)
    have "pump_position content W m n messages (out @ pushed p p') p' (k + 1)"
      using assms(1,4,5) out p' pushed shares_dict_all [OF assms(6), of "dict_at W m"] accept
      unfolding pump_position_def step by auto
    moreover have "prefix (bodies (out @ pushed p p')) messages"
      using calculation take_is_prefix [of "k + 1" messages] prefix_order.trans unfolding pump_position_def by blast
    ultimately show ?thesis using assms(2) p' by (auto simp: pump_delivers_def intro!: exI [of _ "k + 1"])
  qed
qed

lemma pump_frame_end_delivers:
  assumes "pump_position content W m n messages out p (length messages)"
    and "pump_frame validate_end classify (Inr None) p1 = Some p'"
    and "p1 = p\<lparr>pm_settle := c, pm_guard := (pm_guard p)\<lparr>gd_reader := s\<rparr>, pm_budget := b\<rparr>"
  shows "pump_delivers content W m n messages (out @ pushed p p') p'"
proof -
  have out: "prefix (bodies out) messages" "q_receiver_open (pm_queue p) \<longrightarrow> bodies out = messages"
    using assms(1) by (simp_all add: pump_position_def)
  from assms(2) obtain r s2 where r: "validate_end (gd_reader (pm_guard p1)) = Some (r, s2)"
    by (auto simp: pump_frame_def)
  show ?thesis
  proof (cases r)
    case (Inl e)
    with assms(2) r have p': "p' = fail_and_wait (classify_error classify e) False (p1\<lparr>pm_guard := (pm_guard p1)\<lparr>gd_reader := s2\<rparr>\<rparr>)"
      by (simp add: pump_frame_def)
    then have "pushed p p' = []" using assms(3) by (simp add: pushed_fail_and_wait)
    with p' out show ?thesis by (simp add: given_up_delivers fail_and_wait_given_up)
  next
    case (Inr u)
    with assms(2,3) r have p': "p' = pump_end (CleanFin, (pm_guard p)\<lparr>gd_reader := s2, gd_settled := True\<rparr>) p1"
      by (simp add: pump_frame_def)
    with assms(3) out show ?thesis by (simp add: pump_delivers_def)
  qed
qed

context frame_reader
begin

lemma pump_read_next:
  assumes "pump_position content W m n messages out p k" "k < length messages" "valid (gd_reader (pm_guard p))"
    and "\<forall>message \<in> set messages. length message \<le> limit" "limit < 2 ^ 62" "zstd_laws (wl_zstd W)"
  obtains s accept where "pump_read_frame R (wl_zstd W) L limit (gd_reader (pm_guard p), pm_budget p) =
      Some (Inr (Some (messages ! k)), (s, (pm_budget p)\<lparr>bg_accept := accept\<rparr>))" "valid s"
    "content s = (wire_bytes (message_frames W m (n + (k + 1)) (drop (k + 1) messages)), Inr ())"
    "accept_lookup accept = accept_lookup (bg_accept (pm_budget p))"
proof -
  let ?s = "gd_reader (pm_guard p)" let ?b = "pm_budget p"
  have len: "length (messages ! k) \<le> limit" using assms(2,4) by simp
  have dict: "shares_dict (bg_accept ?b) (dict_at W m (n + k))"
    using assms(1) by (simp add: pump_position_def)
  have "content ?s = (frame_bytes (message_frame (wl_zstd W) (dict_at W m (n + k)) (messages ! k)) @
      wire_bytes (message_frames W m (n + (k + 1)) (drop (k + 1) messages)), Inr ())"
    using assms(1,2) by (simp add: pump_position_def flip: Cons_nth_drop_Suc)
  from read_request_frame_message [OF assms(3) this len assms(5,6) dict, of L
      "charge_skipped (bg_max_body_size ?b)" "bg_body_size ?b" "bg_stream ?b"] obtain s accept where
    "read_request_frame R (wl_zstd W) L limit (charge_skipped (bg_max_body_size ?b)) (bg_body_size ?b)
      (?s, bg_accept ?b, bg_stream ?b) = Some (Inr (Some (messages ! k), bg_body_size ?b), (s, accept, bg_stream ?b))"
    and s: "valid s" "content s = (wire_bytes (message_frames W m (n + (k + 1)) (drop (k + 1) messages)), Inr ())"
    "accept_lookup accept = accept_lookup (bg_accept ?b)" by blast
  then have "pump_read_frame R (wl_zstd W) L limit (?s, ?b) =
      Some (Inr (Some (messages ! k)), (s, ?b\<lparr>bg_accept := accept\<rparr>))"
    by (simp add: pump_read_frame_def)
  from that [OF this s] show thesis .
qed

lemma pump_read_finish:
  assumes "pump_position content W m n messages out p (length messages)" "valid (gd_reader (pm_guard p))"
  obtains s where "pump_read_frame R Z L limit (gd_reader (pm_guard p), pm_budget p) =
      Some (Inr None, (s, pm_budget p))" "content s = ([], Inr ())"
proof -
  have "content (gd_reader (pm_guard p)) = ([], Inr ())" using assms(1) by (simp add: pump_position_def)
  from next_header_end [OF assms(2) this, of limit "charge_skipped (bg_max_body_size (pm_budget p))"
      "bg_body_size (pm_budget p)"] obtain s where
    "next_known_header R limit (charge_skipped (bg_max_body_size (pm_budget p))) (bg_body_size (pm_budget p))
       (gd_reader (pm_guard p)) = Some (Inr (None, bg_body_size (pm_budget p)), s)" "content s = ([], Inr ())" .
  then show thesis
    by (intro that [of s]) (simp_all add: pump_read_frame_def read_request_frame_def io_ret_def)
qed

lemma poll_frame_delivers:
  assumes "pump_delivers content W m n messages out p" "pm_phase p = AwaitFrame" "valid (gd_reader (pm_guard p))"
    and "\<forall>message \<in> set messages. length message \<le> limit" "limit < 2 ^ 62" "zstd_laws (wl_zstd W)"
    and "poll_frame R (wl_zstd W) L limit validate_end classify cx p = Some p'"
  shows "pump_delivers content W m n messages (out @ pushed p p') p'"
proof -
  from assms(1,2) obtain k where k: "k \<le> length messages" and position: "pump_position content W m n messages out p k"
    by (auto simp: pump_delivers_def)
  obtain ended p1 where e: "pump_settled cx p = (ended, p1)" by (rule prod.exhaust)
  show ?thesis
  proof (cases ended)
    case (Some q)
    with assms(7) e have "p' = q" by (simp add: poll_frame_def)
    moreover have "pump_given_up q" "pushed p q = []"
      using e Some by (auto simp: pump_settled_def settle_reader_given_up split: prod.split_asm poll.split_asm)
    ultimately show ?thesis using given_up_keeps [OF _ assms(1), of q] by simp
  next
    case None
    then obtain c where p1: "p1 = p\<lparr>pm_settle := c\<rparr>"
      using e by (auto simp: pump_settled_def split: prod.split_asm poll.split_asm)
    show ?thesis
    proof (cases "k < length messages")
      case True
      from pump_read_next [OF position True assms(3-6), of L] obtain s accept where
        read: "pump_read_frame R (wl_zstd W) L limit (gd_reader (pm_guard p), pm_budget p) =
          Some (Inr (Some (messages ! k)), (s, (pm_budget p)\<lparr>bg_accept := accept\<rparr>))" "valid s"
        "content s = (wire_bytes (message_frames W m (n + (k + 1)) (drop (k + 1) messages)), Inr ())"
        "accept_lookup accept = accept_lookup (bg_accept (pm_budget p))" .
      with assms(7) e None p1 have "pump_frame validate_end classify (Inr (Some (messages ! k)))
          (p\<lparr>pm_settle := c, pm_guard := (pm_guard p)\<lparr>gd_reader := s\<rparr>,
             pm_budget := (pm_budget p)\<lparr>bg_accept := accept\<rparr>\<rparr>) = Some p'"
        by (simp add: poll_frame_def)
      from pump_frame_message_delivers [OF position True this refl read(3)] read(4) show ?thesis by simp
    next
      case False
      with k have all: "k = length messages" by simp
      from pump_read_finish [OF position [unfolded all] assms(3)] obtain s where
        "pump_read_frame R (wl_zstd W) L limit (gd_reader (pm_guard p), pm_budget p) = Some (Inr None, (s, pm_budget p))" .
      with assms(7) e None p1 have "pump_frame validate_end classify (Inr None)
          (p\<lparr>pm_settle := c, pm_guard := (pm_guard p)\<lparr>gd_reader := s\<rparr>, pm_budget := pm_budget p\<rparr>) = Some p'"
        by (simp add: poll_frame_def)
      from pump_frame_end_delivers [OF position [unfolded all] this refl] show ?thesis .
    qed
  qed
qed

lemma pump_run_delivers:
  assumes "pump_run R (wl_zstd W) L limit validate_end classify True s0 b0 out p" "valid s0" "bg_messages b0 = 0"
    and "within (bg_max_body_size b0) (bg_body_size b0)"
    and "content s0 = (wire_bytes (message_frames W m n messages), Inr ())"
    and "\<forall>message \<in> set messages. length message \<le> limit" "limit < 2 ^ 62" "zstd_laws (wl_zstd W)"
    and "\<forall>j. shares_dict (bg_accept b0) (dict_at W m j)"
  shows "pump_delivers content W m n messages out p"
  using assms(1)
proof (induction rule: pump_run.induct)
  case started
  from assms(5,9) have "pump_position content W m n messages [] (start_request_pump s0 b0) 0"
    by (simp add: pump_position_def start_request_pump_def guard_new_def)
  then show ?case by (auto simp: pump_delivers_def start_request_pump_def)
next
  case (permit_polled out p cx event)
  show ?case by (rule poll_permit_delivers [OF permit_polled.IH permit_polled.hyps(3)])
next
  case (frame_polled out p cx p')
  have "valid (gd_reader (pm_guard p))"
    using pump_run_kept [OF frame_polled.hyps(1) assms(2-4)] frame_polled.hyps(3) by simp
  then show ?case
    by (rule poll_frame_delivers [OF frame_polled.IH frame_polled.hyps(3) _ assms(6-8) frame_polled.hyps(4)])
next
  case (unary_polled out p cx p')
  then show ?case by simp
next
  case (settle_polled out p failure cx)
  then have "pump_given_up (poll_settle cx failure p)"
    by (cases failure) (auto simp: poll_settle_def settle_reader_given_up Let_def simp del: settle_reader.simps
        split: prod.splits poll.splits sum.splits option.splits, auto simp: pump_given_up_def)
  then show ?case using settle_polled.IH by (rule given_up_keeps)
next
  case (settled out p reason)
  then show ?case by (simp add: pump_delivers_def pump_position_def pump_send_settle_def)
next
  case (pump_dropped out p)
  then show ?case using pump_drop_not_live [of p]
    by (cases "pm_phase p") (auto simp: pump_delivers_def pump_drop_def pump_send_settle_def)
next
  case (body_taken out p cx polled ws q)
  then have "q_receiver_open q = q_receiver_open (pm_queue p)"
    by (auto simp: poll_pop_def Let_def split: list.split_asm prod.split_asm option.split_asm if_split_asm)
  with body_taken.IH show ?case by (simp add: pump_delivers_def pump_position_def)
next
  case (handler_dropped out p ws q)
  then have "\<not> q_receiver_open q" by (auto simp: drop_receiver_def)
  with handler_dropped.IH show ?case by (auto simp: pump_delivers_def pump_position_def)
qed

end

lemma charge_message_admitted:
  assumes "budget_admits b (body # messages)"
  shows "\<exists>b'. charge_message (length body) b = (Inr (), b') \<and> budget_admits b' messages \<and>
    bg_accept b' = bg_accept b"
  using assms
  by (auto simp: budget_admits_def charge_message_def check_stream_message_body_limits_def check_stream_body_limit_def
      Let_def saturating_add_def split: option.splits)

lemma budget_admits_accept [simp]: "budget_admits (b\<lparr>bg_accept := a\<rparr>) messages = budget_admits b messages"
  by (simp add: budget_admits_def)

lemma pump_idle_permit:
  assumes "pump_idle p"
  shows "poll_permit cx event p = p\<lparr>pm_settle := (pm_settle p)\<lparr>lt_waker := Some cx\<rparr>, pm_queue := pm_queue p, pm_phase := AwaitFrame\<rparr>"
  using assms
  by (simp add: pump_idle_def poll_permit_def pump_settled_def poll_changed_def poll_reserve_def has_room_def
      MESSAGES_def MESSAGE_FRAME_BATCH_def)

lemma pump_take_only:
  assumes "q_queue q = []" "q_queued_bytes q = 0" "q_receiver_open q"
  obtains polled ws q' where "poll_pop MESSAGES cx (snd (permit_send item len q)) = (polled, ws, q')"
    "q_queue q' = []" "q_queued_bytes q' = 0" "q_receiver_open q'"
proof -
  let ?r = "poll_pop MESSAGES cx (snd (permit_send item len q))"
  have "q_queue (snd (snd ?r)) = []" "q_queued_bytes (snd (snd ?r)) = 0" "q_receiver_open (snd (snd ?r))"
    using assms by (auto simp: poll_pop_def permit_send_def queue_push_def Let_def saturating_add_def)
  with that [of "fst ?r" "fst (snd ?r)" "snd (snd ?r)"] show thesis by simp
qed

context frame_reader
begin

lemma pump_run_next:
  assumes "pump_run R (wl_zstd W) L limit validate_end classify True s0 b0 out p" "pump_idle p"
    and "pump_position content W m n messages out p k" "k < length messages" "valid (gd_reader (pm_guard p))"
    and "\<forall>message \<in> set messages. length message \<le> limit" "limit < 2 ^ 62" "zstd_laws (wl_zstd W)"
    and "budget_admits (pm_budget p) (drop k messages)"
  shows "\<exists>p'. pump_run R (wl_zstd W) L limit validate_end classify True s0 b0 (out @ [Inr (messages ! k)]) p' \<and>
    pump_idle p' \<and> pump_position content W m n messages (out @ [Inr (messages ! k)]) p' (k + 1) \<and>
    valid (gd_reader (pm_guard p')) \<and> budget_admits (pm_budget p') (drop (k + 1) messages)"
proof -
  note idle = assms(2) [unfolded pump_idle_def]
  define c where "c = (pm_settle p)\<lparr>lt_waker := Some 0\<rparr>"
  define p1 where "p1 = p\<lparr>pm_settle := c, pm_phase := AwaitFrame\<rparr>"
  have run1: "pump_run R (wl_zstd W) L limit validate_end classify True s0 b0 out p1"
    using pump_run.permit_polled [OF assms(1), of 0 Pending] idle pump_idle_permit [OF assms(2), of 0 Pending]
    by (simp add: p1_def c_def)
  from pump_read_next [OF assms(3-8), of L] obtain s accept where
    read: "pump_read_frame R (wl_zstd W) L limit (gd_reader (pm_guard p), pm_budget p) =
      Some (Inr (Some (messages ! k)), (s, (pm_budget p)\<lparr>bg_accept := accept\<rparr>))" "valid s"
    "content s = (wire_bytes (message_frames W m (n + (k + 1)) (drop (k + 1) messages)), Inr ())"
    "accept_lookup accept = accept_lookup (bg_accept (pm_budget p))" .
  have "budget_admits ((pm_budget p)\<lparr>bg_accept := accept\<rparr>) (messages ! k # drop (k + 1) messages)"
    using assms(4,9) by (simp add: Cons_nth_drop_Suc)
  from charge_message_admitted [OF this] obtain b where
    charge: "charge_message (length (messages ! k)) ((pm_budget p)\<lparr>bg_accept := accept\<rparr>) = (Inr (), b)"
    "budget_admits b (drop (k + 1) messages)" "bg_accept b = accept" by auto
  define q where "q = snd (permit_send (Inr (messages ! k)) (length (messages ! k)) (pm_queue p))"
  define p2 where "p2 = p1\<lparr>pm_guard := (pm_guard p)\<lparr>gd_reader := s\<rparr>, pm_budget := b, pm_queue := q, pm_phase := AwaitPermit\<rparr>"
  have "poll_frame R (wl_zstd W) L limit validate_end classify 0 p1 = Some p2"
    using read(1) charge(1) idle
    by (simp add: poll_frame_def pump_settled_def poll_changed_def p1_def p2_def c_def q_def pump_frame_def)
  moreover have "pushed p1 p2 = [Inr (messages ! k)]"
    using idle by (simp add: pushed_def p1_def p2_def q_def permit_send_def queue_push_def)
  ultimately have run2: "pump_run R (wl_zstd W) L limit validate_end classify True s0 b0 (out @ [Inr (messages ! k)]) p2"
    using pump_run.frame_polled [OF run1, of 0 p2] by (simp add: p1_def)
  from pump_take_only [of "pm_queue p" "Some 0" "Inr (messages ! k)" "length (messages ! k)"] idle
  obtain polled ws q' where q': "poll_pop MESSAGES (Some 0) q = (polled, ws, q')"
    "q_queue q' = []" "q_queued_bytes q' = 0" "q_receiver_open q'" by (auto simp: q_def)
  have "pump_run R (wl_zstd W) L limit validate_end classify True s0 b0 (out @ [Inr (messages ! k)]) (p2\<lparr>pm_queue := q'\<rparr>)"
    by (rule pump_run.body_taken [OF run2]) (use q'(1) in \<open>simp add: p2_def\<close>)
  moreover have "pump_idle (p2\<lparr>pm_queue := q'\<rparr>)"
    using idle q' by (simp add: pump_idle_def p2_def p1_def c_def)
  moreover have "pump_position content W m n messages (out @ [Inr (messages ! k)]) (p2\<lparr>pm_queue := q'\<rparr>) (k + 1)"
    using assms(3,4) idle read(3) charge(3) shares_dict_all [OF read(4), of "dict_at W m"]
    by (simp add: pump_position_def p2_def take_Suc_conv_app_nth)
  ultimately show ?thesis using read(2) charge(2) by (auto simp: p2_def)
qed

lemma pump_run_all:
  assumes "valid s0" "content s0 = (wire_bytes (message_frames W m n messages), Inr ())"
    and "\<forall>message \<in> set messages. length message \<le> limit" "limit < 2 ^ 62" "zstd_laws (wl_zstd W)"
    and "\<forall>j. shares_dict (bg_accept b0) (dict_at W m j)" "budget_admits b0 messages" "k \<le> length messages"
  shows "\<exists>p. pump_run R (wl_zstd W) L limit validate_end classify True s0 b0 (map Inr (take k messages)) p \<and>
    pump_idle p \<and> pump_position content W m n messages (map Inr (take k messages)) p k \<and>
    valid (gd_reader (pm_guard p)) \<and> budget_admits (pm_budget p) (drop k messages)"
  using assms(8)
proof (induction k)
  case 0
  have "pump_idle (start_request_pump s0 b0)"
    by (simp add: pump_idle_def start_request_pump_def channel_def latest_channel_def)
  moreover have "pump_position content W m n messages [] (start_request_pump s0 b0) 0"
    using assms(2,6) by (simp add: pump_position_def start_request_pump_def guard_new_def)
  ultimately show ?case
    using assms(1,7) pump_run.started [of R "wl_zstd W" L limit validate_end classify True s0 b0]
    by (auto simp: start_request_pump_def guard_new_def)
next
  case (Suc k)
  then obtain p where p: "pump_run R (wl_zstd W) L limit validate_end classify True s0 b0 (map Inr (take k messages)) p"
    "pump_idle p" "pump_position content W m n messages (map Inr (take k messages)) p k"
    "valid (gd_reader (pm_guard p))" "budget_admits (pm_budget p) (drop k messages)" by auto
  from Suc.prems have k: "k < length messages" by simp
  from pump_run_next [OF p(1-3) k p(4) assms(3-5) p(5)] k show ?case
    by (simp add: take_Suc_conv_app_nth)
qed

lemma pump_run_completes:
  assumes "valid s0" "content s0 = (wire_bytes (message_frames W m n messages), Inr ())"
    and "\<forall>message \<in> set messages. length message \<le> limit" "limit < 2 ^ 62" "zstd_laws (wl_zstd W)"
    and "\<forall>j. shares_dict (bg_accept b0) (dict_at W m j)" "budget_admits b0 messages"
    and "\<forall>s. content s = ([], Inr ()) \<longrightarrow> (\<exists>s'. validate_end s = Some (Inr (), s'))"
  shows "\<exists>p. pump_run R (wl_zstd W) L limit validate_end classify True s0 b0 (map Inr messages) p \<and>
    pm_phase p = PumpEnded CleanFin"
proof -
  from pump_run_all [OF assms(1-7) le_refl, of L validate_end classify] obtain p where
    p: "pump_run R (wl_zstd W) L limit validate_end classify True s0 b0 (map Inr messages) p"
    "pump_idle p" "pump_position content W m n messages (map Inr messages) p (length messages)"
    "valid (gd_reader (pm_guard p))" by auto
  note idle = p(2) [unfolded pump_idle_def]
  define p1 where "p1 = p\<lparr>pm_settle := (pm_settle p)\<lparr>lt_waker := Some 0\<rparr>, pm_phase := AwaitFrame\<rparr>"
  have run1: "pump_run R (wl_zstd W) L limit validate_end classify True s0 b0 (map Inr messages) p1"
    using pump_run.permit_polled [OF p(1), of 0 Pending] idle pump_idle_permit [OF p(2), of 0 Pending]
    by (simp add: p1_def)
  from pump_read_finish [OF p(3,4), of "wl_zstd W" L limit] obtain s where
    read: "pump_read_frame R (wl_zstd W) L limit (gd_reader (pm_guard p), pm_budget p) = Some (Inr None, (s, pm_budget p))"
    "content s = ([], Inr ())" .
  from assms(8) read(2) obtain s' where "validate_end s = Some (Inr (), s')" by blast
  then obtain p2 where "poll_frame R (wl_zstd W) L limit validate_end classify 0 p1 = Some p2"
    "pm_phase p2 = PumpEnded CleanFin" "q_queue (pm_queue p2) = q_queue (pm_queue p1)"
    using read(1) idle
    by (simp add: poll_frame_def pump_settled_def poll_changed_def p1_def pump_frame_def)
  with pump_run.frame_polled [OF run1, of 0 p2] show ?thesis by (auto simp: p1_def)
qed

end

lemma pump_end_settle [simp]: "pm_settle (pump_end r p) = pm_settle p"
  by (simp add: pump_end_def split: prod.splits)

lemma fail_and_wait_settle [simp]:
  "pm_settle (fail_and_wait f permit p) = (pm_settle p)\<lparr>lt_seen := lt_version (pm_settle p)\<rparr>"
  by (simp add: fail_and_wait_def borrow_and_update_def Let_def split: option.splits)

lemma pump_settled_cell:
  assumes "pump_settled cx p = (ended, p1)" "cell_fresh p"
  shows "cell_fresh p1" "ended = Some q \<Longrightarrow> cell_fresh q"
  using assms
  by (auto simp: pump_settled_def cell_fresh_def poll_changed_def borrow_and_update_def Let_def
      split: if_split_asm)

lemma pump_frame_cell:
  assumes "pump_frame validate_end classify frame p = Some p'" "cell_fresh p"
  shows "cell_fresh p'"
proof (cases "frame = Inr None")
  case True
  with assms(1) obtain r s where r: "validate_end (gd_reader (pm_guard p)) = Some (r, s)"
    by (auto simp: pump_frame_def)
  with True assms show ?thesis
    by (cases r) (auto simp: pump_frame_def cell_fresh_def Let_def)
next
  case False
  with assms show ?thesis
    by (auto simp: pump_frame_def cell_fresh_def split: sum.splits option.splits prod.splits)
qed

lemma pump_polled_cell:
  assumes "pump_polled R Z L limit validate_end classify streaming p p'" "cell_fresh p"
  shows "cell_fresh p'"
  using assms(1)
proof cases
  case (permit cx event)
  obtain ended p1 where e: "pump_settled cx p = (ended, p1)" by (rule prod.exhaust)
  note cell = pump_settled_cell [OF e assms(2)]
  from permit e cell show ?thesis
    by (cases ended) (auto simp: poll_permit_def cell_fresh_def Let_def
        split: prod.split poll.split sum.split option.split transport_event.split)
next
  case (frame cx)
  obtain ended p1 where e: "pump_settled cx p = (ended, p1)" by (rule prod.exhaust)
  note cell = pump_settled_cell [OF e assms(2)]
  from frame e cell show ?thesis
    by (cases ended) (auto simp: poll_frame_def cell_fresh_def split: option.split_asm dest!: pump_frame_cell)
next
  case (unary cx)
  obtain ended p1 where e: "pump_settled cx p = (ended, p1)" by (rule prod.exhaust)
  note cell = pump_settled_cell [OF e assms(2)]
  show ?thesis
  proof (cases ended)
    case None
    with unary(3) e obtain r s where
      "pump_read_end R validate_end limit (pm_budget p1) (gd_reader (pm_guard p1)) = Some (r, s)"
      by (auto simp: poll_unary_def)
    with None unary(3) e cell show ?thesis
      by (cases r) (auto simp: poll_unary_def cell_fresh_def Let_def)
  qed (use unary(3) e cell in \<open>simp add: poll_unary_def\<close>)
next
  case (settle failure cx)
  with assms(2) show ?thesis
    by (auto simp: poll_settle_def cell_fresh_def poll_changed_def borrow_and_update_def Let_def
        split: option.splits)
qed

lemma pump_run_cell:
  "pump_run R Z L limit validate_end classify streaming s0 b0 out p \<Longrightarrow> cell_fresh p"
proof (induction rule: pump_run.induct)
  case started
  show ?case by (simp add: cell_fresh_def start_request_pump_def latest_channel_def)
next
  case (pump_dropped out p)
  then show ?case
    by (cases "pm_phase p") (simp_all add: pump_drop_def pump_send_settle_def cell_fresh_def latest_send_def latest_drop_def)
qed (auto intro: pump_polled_cell pump_polled.intros
    simp: pump_send_settle_def latest_send_def, simp_all add: cell_fresh_def)

text \<open>The fate that a settled call demands, and the ends of an unsettled one.\<close>

lemma settle_reader_demanded:
  assumes "gd_stops g = 0" "\<not> gd_discard g"
  shows "ends_as (demanded reason) (pump_end (settle_reader reason g) p)"
  using assms by (cases reason) (simp_all add: ends_as_def guard_drop_def stop_reader_def)

lemma pump_settled_demanded:
  assumes "pump_settled cx p = (ended, p1)" "lt_value (pm_settle p) = Some reason"
    and "lt_version (pm_settle p) \<noteq> lt_seen (pm_settle p)" "pump_fate AwaitPermit (pm_guard p) (pm_state p)"
  shows "\<exists>q. ended = Some q \<and> ends_as (demanded reason) q"
  using assms settle_reader_demanded [of "pm_guard p" reason]
  by (auto simp: pump_settled_def poll_changed_def borrow_and_update_def settle_reason_def Let_def
      simp del: settle_reader.simps demanded.simps)

lemma pump_settled_none:
  assumes "pump_settled cx p = (ended, p1)" "lt_value (pm_settle p) = None" "cell_fresh p"
  shows "ended = None \<and> p1 = p\<lparr>pm_settle := (pm_settle p)\<lparr>lt_waker := Some cx\<rparr>\<rparr>"
  using assms by (auto simp: pump_settled_def poll_changed_def cell_fresh_def Let_def)

lemma fail_and_wait_unsettled:
  "lt_value (pm_settle p) = None \<Longrightarrow> pm_phase (fail_and_wait f permit p) = AwaitSettle f"
  by (simp add: fail_and_wait_def borrow_and_update_def Let_def)

lemma clean_end:
  "pump_fate AwaitPermit (pm_guard p) st \<Longrightarrow>
     ends_as (CleanFin, False, 0) (pump_end (CleanFin, (pm_guard p)\<lparr>gd_reader := s, gd_settled := True\<rparr>) q)"
  by (simp add: ends_as_def guard_drop_def)

lemma pump_frame_unsettled:
  assumes "pump_frame validate_end classify frame p = Some p'" "lt_value (pm_settle p) = None"
    and "pump_fate AwaitPermit (pm_guard p) st" "pm_phase p' = PumpEnded outcome"
  shows "ends_as (CleanFin, False, 0) p'"
proof (cases "frame = Inr None")
  case True
  with assms(1) obtain r s where r: "validate_end (gd_reader (pm_guard p)) = Some (r, s)"
    by (auto simp: pump_frame_def)
  with True assms clean_end [OF assms(3), of s p] show ?thesis
    by (cases r) (auto simp: pump_frame_def Let_def fail_and_wait_unsettled)
next
  case False
  with assms show ?thesis
    by (auto simp: pump_frame_def fail_and_wait_unsettled split: sum.splits option.splits prod.splits)
qed

lemma poll_settle_demands:
  assumes "pump_fate (pm_phase p) (pm_guard p) (pm_state p)" "cell_fresh p" "pm_phase p = AwaitSettle f"
  shows "poll_demands p (poll_settle cx f p)"
proof (cases "lt_value (pm_settle p)")
  case None
  with assms(2,3) have "pm_phase (poll_settle cx f p) = AwaitSettle f"
    by (simp add: poll_settle_def poll_changed_def cell_fresh_def Let_def)
  with None show ?thesis by (simp add: poll_demands_def)
next
  case (Some reason)
  note fate = assms(1) [unfolded assms(3), simplified]
  show ?thesis
  proof (cases f)
    case (FailProtocol st)
    with Some assms(3) fate settle_reader_demanded [of "pm_guard p" reason] show ?thesis
      by (auto simp: poll_demands_def poll_settle_def poll_changed_def borrow_and_update_def Let_def
          simp del: settle_reader.simps demanded.simps)
  qed (use Some assms(3) fate in \<open>auto simp: poll_demands_def poll_settle_def poll_changed_def
      borrow_and_update_def Let_def ends_as_def guard_drop_def\<close>)
qed

lemma pump_polled_settled:
  assumes "pump_polled R Z L limit validate_end classify streaming p p'" "live (pm_phase p)"
    and "pump_fate (pm_phase p) (pm_guard p) (pm_state p)" "lt_value (pm_settle p) = Some reason"
  shows "poll_demands p p'"
proof -
  have fate: "pump_fate AwaitPermit (pm_guard p) (pm_state p)" using assms(2,3) by (auto simp: live_def)
  have "ends_as (demanded reason) p'" if unseen: "lt_version (pm_settle p) \<noteq> lt_seen (pm_settle p)"
  proof -
    have q: "\<exists>q p1. pump_settled cx p = (Some q, p1) \<and> ends_as (demanded reason) q" for cx
      using pump_settled_demanded [OF _ assms(4) unseen fate, of cx] by (cases "pump_settled cx p") auto
    from assms(1) show ?thesis
    proof cases
      case (permit cx event)
      with q [of cx] show ?thesis by (auto simp: poll_permit_def)
    next
      case (frame cx)
      with q [of cx] show ?thesis by (auto simp: poll_frame_def)
    next
      case (unary cx)
      with q [of cx] show ?thesis by (auto simp: poll_unary_def)
    qed (use assms(2) in simp)
  qed
  with assms(2,4) show ?thesis by (auto simp: poll_demands_def live_def)
qed

lemma pump_polled_unsettled:
  assumes "pump_polled R Z L limit validate_end classify streaming p p'" "live (pm_phase p)" "cell_fresh p"
    and "pump_fate (pm_phase p) (pm_guard p) (pm_state p)" "lt_value (pm_settle p) = None"
    and "pm_phase p' = PumpEnded outcome"
  shows "ends_as (CleanFin, False, 0) p' \<or> \<not> q_receiver_open (pm_queue p) \<and> ends_as (LocallyStopped, False, 1) p'"
proof -
  have fate: "pump_fate AwaitPermit (pm_guard p) (pm_state p)" using assms(2,4) by (auto simp: live_def)
  have e: "pump_settled cx p = (None, p\<lparr>pm_settle := (pm_settle p)\<lparr>lt_waker := Some cx\<rparr>\<rparr>)" for cx
    using pump_settled_none [OF _ assms(5,3), of cx] by (cases "pump_settled cx p") auto
  from assms(1) show ?thesis
  proof cases
    case (permit cx event)
    with assms(5,6) e [of cx] fate show ?thesis
      by (auto simp: poll_permit_def poll_reserve_def Let_def fail_and_wait_unsettled ends_as_def guard_drop_def
          stop_reader_def split: if_split_asm poll.split_asm option.split_asm transport_event.split_asm)
  next
    case (frame cx)
    with e obtain fr s b where "pump_frame validate_end classify fr
        (p\<lparr>pm_settle := (pm_settle p)\<lparr>lt_waker := Some cx\<rparr>, pm_guard := (pm_guard p)\<lparr>gd_reader := s\<rparr>, pm_budget := b\<rparr>) = Some p'"
      by (auto simp: poll_frame_def split: option.split_asm)
    from pump_frame_unsettled [OF this _ _ assms(6), of "pm_state p"] fate assms(5) show ?thesis by simp
  next
    case (unary cx)
    with e obtain r s where r: "pump_read_end R validate_end limit (pm_budget p) (gd_reader (pm_guard p)) = Some (r, s)"
      by (auto simp: poll_unary_def)
    with unary(3) e [of cx] assms(5,6) clean_end [OF fate] show ?thesis
      by (cases r) (auto simp: poll_unary_def Let_def fail_and_wait_unsettled)
  qed (use assms(2) in simp)
qed

lemma pump_polled_demands:
  assumes "pump_polled R Z L limit validate_end classify streaming p p'" "cell_fresh p"
    and "pump_fate (pm_phase p) (pm_guard p) (pm_state p)"
  shows "poll_demands p p'"
proof (cases "live (pm_phase p)")
  case True
  show ?thesis
  proof (cases "lt_value (pm_settle p)")
    case None
    with pump_polled_unsettled [OF assms(1) True assms(2,3)] show ?thesis
      by (auto simp: poll_demands_def split: pump_phase.split)
  next
    case (Some reason)
    then show ?thesis by (rule pump_polled_settled [OF assms(1) True assms(3)])
  qed
next
  case False
  from assms(1) False obtain f cx where "pm_phase p = AwaitSettle f" "p' = poll_settle cx f p"
    by cases (auto simp: live_def)
  with poll_settle_demands [OF assms(3,2)] show ?thesis by simp
qed

lemma pump_drop_demands:
  assumes "pump_fate (pm_phase p) (pm_guard p) (pm_state p)"
  shows "drop_demands p (pump_drop p)"
proof (cases "pm_phase p")
  case (AwaitSettle f)
  with assms show ?thesis
    by (cases f) (simp_all add: drop_demands_def pump_drop_def pump_send_settle_def guard_drop_def stop_reader_def Let_def)
qed (use assms in \<open>simp_all add: drop_demands_def pump_drop_def pump_send_settle_def guard_drop_def stop_reader_def Let_def\<close>)

text \<open>
  C5. The server's request pump keeps its promises in every interleaving of its polls with the handler, the
  settling of the call and the dropping of the pump: the handler is given bodies, with at most one error
  after them, the status of the failure the call waits with; the bodies stay within the message and byte
  limits of the call; and the stream meets the fate its end demands. A poll that finds the call settled ends
  the pump at once, with the rest of the stream discarded if the response was committed, with the peer told
  once to stop if the response was stopped or the server shuts down, and with neither if the connection was
  lost or the stream had failed by itself; while the call is not settled the pump ends only at a clean end
  of the stream, which is left alone, or because the handler is gone, when it is stopped once; and a pump
  that is dropped stops its stream once unless that had ended or failed by itself. None of this is undone
  later.
\<close>

theorem request_pump_fate:
  assumes "frame_reader R valid content rank" and "valid s0" and "bg_messages b0 = 0"
    and "within (bg_max_body_size b0) (bg_body_size b0)"
    and "pump_run R Z L limit validate_end classify streaming s0 b0 out p"
  shows "pump_fate (pm_phase p) (pm_guard p) (pm_state p) \<and> list_all is_ok (butlast out) \<and>
    (live (pm_phase p) \<longrightarrow> list_all is_ok out) \<and>
    (\<forall>failure. pm_phase p = AwaitSettle failure \<longrightarrow>
       list_all is_ok out \<or> last out = Inl (EStatus (failure_status failure))) \<and>
    within (bg_max_messages b0) (length (bodies out)) \<and> within (bg_max_body_size b0) (total_size (bodies out)) \<and>
    (\<forall>p'. pump_polled R Z L limit validate_end classify streaming p p' \<longrightarrow> poll_demands p p') \<and>
    drop_demands p (pump_drop p)"
proof -
  have kept: "pump_kept b0 out p"
    using frame_reader.pump_run_kept [OF assms(1,5,2-4)] by simp
  then have fate: "pump_fate (pm_phase p) (pm_guard p) (pm_state p)"
    by (simp add: pump_kept_def)
  have "poll_demands p p'" if "pump_polled R Z L limit validate_end classify streaming p p'" for p'
    by (rule pump_polled_demands [OF that pump_run_cell [OF assms(5)] fate])
  with kept pump_drop_demands [OF fate] show ?thesis
    by (simp add: pump_kept_def items_kept_def budget_kept_def)
qed

text \<open>A call that is answered while its pump waits for room: the rest of the request is discarded.\<close>

theorem request_pump_fate_witness:
  "\<exists>p. pump_run script_reader rle_zstd raw_lib 1000 (\<lambda>s. Some (Inr (), s)) (\<lambda>e. (not_found [], None)) True
      (script_new []) example_budget [] p \<and>
    pm_phase p = PumpEnded LocallyStopped \<and> gd_discard (pm_guard p) \<and> gd_stops (pm_guard p) = 0 \<and>
    pump_fate (pm_phase p) (pm_guard p) (pm_state p) \<and> drop_demands p (pump_drop p)"
proof -
  define start where "start = start_request_pump (script_new []) example_budget"
  define p where "p = poll_permit 0 Pending (pump_send_settle ResponseCommitted start)"
  have run: "pump_run script_reader rle_zstd raw_lib 1000 (\<lambda>s. Some (Inr (), s)) (\<lambda>e. (not_found [], None)) True
      (script_new []) example_budget [] p"
    unfolding p_def start_def
    by (rule pump_run.permit_polled [OF pump_run.settled [OF pump_run.started]])
      (simp_all add: pump_send_settle_def start_request_pump_def)
  have p: "pm_phase p = PumpEnded LocallyStopped" "gd_discard (pm_guard p)" "gd_stops (pm_guard p) = 0"
    by (simp_all add: p_def start_def poll_permit_def pump_settled_def pump_send_settle_def start_request_pump_def
        latest_channel_def latest_send_def poll_changed_def borrow_and_update_def settle_reason_def guard_new_def
        guard_drop_def USIZE_MAX_def)
  have "pump_fate (pm_phase p) (pm_guard p) (pm_state p) \<and> drop_demands p (pump_drop p)"
    using request_pump_fate [OF script_frames.frame_reader_axioms _ _ _ run]
    by (simp add: script_new_def script_with_read_size_def example_budget_def within_def)
  with run p show ?thesis by blast
qed

lemma pump_deliversD:
  assumes "pump_delivers content W m n messages out p"
  shows "prefix (bodies out) messages \<and>
    (pm_phase p = PumpEnded CleanFin \<and> q_receiver_open (pm_queue p) \<longrightarrow> bodies out = messages)"
  using assms by (simp add: pump_delivers_def)

text \<open>
  C1. A client's request stream reaches the server's handler: what \<open>write_request_stream\<close> writes, the
  server reads as the request, and a pump started on the rest gives the handler the caller's messages in
  order, nothing else, in every interleaving; at a clean end a handler that still listens has them all, and
  when the budget has room for them the pump can always get there.
\<close>

theorem requests_reach_handler:
  assumes "frame_writer W accepting sent" and "frame_reader R valid content rank"
    and "accepting (wr_send w)" and "sent (wr_send w) = []" and "me_stream (wr_encoder w) = None"
    and "ends_after body messages" and "\<forall>message \<in> set messages. length message \<le> limit"
    and "length (pb_request (wl_protobuf W) request) \<le> limit" and "limit < 2 ^ 62"
    and "request_survives (wl_protobuf W) request" and "zstd_laws (wl_zstd W)"
    and "\<forall>n. shares_dict (bg_accept b0) (dict_at W (wr_encoder w) n)"
    and "bg_messages b0 = 0" and "budget_admits b0 messages"
    and "\<forall>s. content s = ([], Inr ()) \<longrightarrow> (\<exists>s'. validate_end s = Some (Inr (), s'))"
  shows "\<exists>w'. write_request_stream W request body limit w = Some (Inr (), w') \<and>
    (\<forall>s. valid s \<longrightarrow> content s = (sent (wr_send w'), Inr ()) \<longrightarrow>
      (\<exists>s1. read_request R (wl_protobuf W) limit on_skipped c s = Some (Inr (request, c), s1) \<and>
        (\<forall>out p. pump_run R (wl_zstd W) L limit validate_end classify True s1 b0 out p \<longrightarrow>
           prefix (bodies out) messages \<and>
           (pm_phase p = PumpEnded CleanFin \<and> q_receiver_open (pm_queue p) \<longrightarrow> bodies out = messages)) \<and>
        (\<exists>p. pump_run R (wl_zstd W) L limit validate_end classify True s1 b0 (map Inr messages) p \<and>
           pm_phase p = PumpEnded CleanFin)))"
proof -
  from frame_writer.write_request_stream_ok [OF assms(1,6,7,8,9,5,3)] obtain send where
    written: "write_request_stream W request body limit w =
      Some (Inr (), w\<lparr>wr_encoded := wr_encoded w + length messages, wr_send := send\<rparr>)"
    "sent send = sent (wr_send w) @ wire_bytes ((REQUEST, pb_request (wl_protobuf W) request) #
       message_frames W (wr_encoder w) (wr_encoded w) messages)" .
  have within: "within (bg_max_body_size b0) (bg_body_size b0)"
    using assms(14) by (auto simp: budget_admits_def within_def split: option.splits)
  have "\<exists>s1. read_request R (wl_protobuf W) limit on_skipped c s = Some (Inr (request, c), s1) \<and>
      (\<forall>out p. pump_run R (wl_zstd W) L limit validate_end classify True s1 b0 out p \<longrightarrow>
         prefix (bodies out) messages \<and>
         (pm_phase p = PumpEnded CleanFin \<and> q_receiver_open (pm_queue p) \<longrightarrow> bodies out = messages)) \<and>
      (\<exists>p. pump_run R (wl_zstd W) L limit validate_end classify True s1 b0 (map Inr messages) p \<and>
         pm_phase p = PumpEnded CleanFin)"
    if s: "valid s" "content s = (sent send, Inr ())" for s
  proof -
    have "content s = (frame_bytes (REQUEST, pb_request (wl_protobuf W) request) @
        wire_bytes (message_frames W (wr_encoder w) (wr_encoded w) messages), Inr ())"
      using s(2) written(2) assms(4) by simp
    from frame_reader.read_request_ok [OF assms(2) s(1) this assms(8-10), of on_skipped c] obtain s1 where
      s1: "read_request R (wl_protobuf W) limit on_skipped c s = Some (Inr (request, c), s1)" "valid s1"
      "content s1 = (wire_bytes (message_frames W (wr_encoder w) (wr_encoded w) messages), Inr ())" .
    from s1(1) pump_deliversD [OF frame_reader.pump_run_delivers [OF assms(2) _ s1(2) assms(13) within s1(3) assms(7,9,11,12)]]
      frame_reader.pump_run_completes [OF assms(2) s1(2,3) assms(7,9,11,12,14,15), of L classify]
    show ?thesis by blast
  qed
  with written(1) show ?thesis by auto
qed

theorem requests_reach_handler_witness:
  "\<exists>w'. write_request_stream example_writes (rpc_request_new ''/s/m'') example_body 1000 example_writer =
      Some (Inr (), w') \<and>
    (\<exists>s1. read_request script_reader example_protobuf 1000 (\<lambda>_ _. Inr ()) () (script_new (concat (wr_send w'))) =
         Some (Inr (rpc_request_new ''/s/m'', ()), s1) \<and>
      (\<exists>p. pump_run script_reader rle_zstd raw_lib 1000 (\<lambda>s. Some (Inr (), s)) (\<lambda>e. (not_found [], None)) True
         s1 example_budget [Inr [1, 2], Inr (replicate 300 7)] p \<and> pm_phase p = PumpEnded CleanFin))"
proof -
  let ?classify = "\<lambda>e. (not_found [], None)"
  have body: "ends_after example_body [[1, 2], replicate 300 7]" by (simp add: example_body_def)
  have "\<exists>w'. write_request_stream example_writes (rpc_request_new ''/s/m'') example_body 1000 example_writer =
      Some (Inr (), w') \<and>
    (\<forall>s. 0 < sc_read_size s \<longrightarrow> (sc_data s, Inr () :: unit result) = (concat (wr_send w'), Inr ()) \<longrightarrow>
      (\<exists>s1. read_request script_reader (wl_protobuf example_writes) 1000 (\<lambda>_ _. Inr ()) () s =
          Some (Inr (rpc_request_new ''/s/m'', ()), s1) \<and>
        (\<forall>out p. pump_run script_reader (wl_zstd example_writes) raw_lib 1000 (\<lambda>s. Some (Inr (), s)) ?classify True
             s1 example_budget out p \<longrightarrow>
           prefix (bodies out) [[1, 2], replicate 300 7] \<and>
           (pm_phase p = PumpEnded CleanFin \<and> q_receiver_open (pm_queue p) \<longrightarrow>
              bodies out = [[1, 2], replicate 300 7])) \<and>
        (\<exists>p. pump_run script_reader (wl_zstd example_writes) raw_lib 1000 (\<lambda>s. Some (Inr (), s)) ?classify True
             s1 example_budget (map Inr [[1, 2], replicate 300 7]) p \<and> pm_phase p = PumpEnded CleanFin)))"
    by (rule requests_reach_handler [OF example_frame_writer script_frames.frame_reader_axioms])
      (simp_all add: body example_simps example_preflight rle_zstd_laws example_shares example_budget_def
        budget_admits_def)
  then obtain w' where w': "write_request_stream example_writes (rpc_request_new ''/s/m'') example_body 1000 example_writer =
      Some (Inr (), w')" and
    read: "\<forall>s. 0 < sc_read_size s \<longrightarrow> (sc_data s, Inr () :: unit result) = (concat (wr_send w'), Inr ()) \<longrightarrow>
      (\<exists>s1. read_request script_reader (wl_protobuf example_writes) 1000 (\<lambda>_ _. Inr ()) () s =
          Some (Inr (rpc_request_new ''/s/m'', ()), s1) \<and>
        (\<exists>p. pump_run script_reader (wl_zstd example_writes) raw_lib 1000 (\<lambda>s. Some (Inr (), s)) ?classify True
             s1 example_budget (map Inr [[1, 2], replicate 300 7]) p \<and> pm_phase p = PumpEnded CleanFin))"
    by blast
  from read [rule_format, of "script_new (concat (wr_send w'))"] w' show ?thesis
    by (simp add: script_new_def script_with_read_size_def example_simps)
qed

text \<open>
  The discarding of an answered call's request ends, and it reaches the end of the stream exactly when what
  is left of the request is within the limit.
\<close>

context byte_reader
begin

lemma discard_request_ends:
  assumes "valid s" "discarded \<le> DISCARD_LIMIT"
  shows "\<exists>s'. discard_request_loop rd discarded s =
    Some (discarded + length (fst (content s)) \<le> DISCARD_LIMIT, s')"
proof -
  have "\<exists>s'. discard_request_loop rd discarded s = Some (discarded + n \<le> DISCARD_LIMIT, s')"
    if "valid s" "discarded \<le> DISCARD_LIMIT" "n = length (fst (content s))" for n s discarded
    using that
  proof (induction n arbitrary: s discarded rule: less_induct)
    case outer: (less n)
    from outer.prems show ?case
    proof (induction "rank s" arbitrary: s rule: less_induct)
      case less
      note loop = discard_request_loop.simps [of rd discarded s]
      have "0 < (4096 :: nat)" by simp
      from read_step [OF less.prems(1) this] show ?case
      proof (elim disjE exE conjE)
        fix bs s'
        assume read: "rd 4096 s = Some (Inr (Some bs), s')" "valid s'" "length bs \<le> 4096"
          "content s = (bs @ fst (content s'), snd (content s'))" "bs = [] \<longrightarrow> rank s' < rank s"
        have add: "saturating_add discarded (length bs) = discarded + length bs"
          using less.prems(2) read(3) by (simp add: saturating_add_def DISCARD_LIMIT_def USIZE_MAX_def)
        show ?thesis
        proof (cases "bs = []")
          case True
          with read less.hyps [of s'] less.prems(2,3) add show ?thesis by (simp add: loop Let_def)
        next
          case False
          show ?thesis
          proof (cases "DISCARD_LIMIT < discarded + length bs")
            case True
            with read(1,4) less.prems(3) show ?thesis by (simp add: loop add)
          next
            case within: False
            have "length (fst (content s')) < n" using False read(4) less.prems(3) by simp
            then have "\<exists>s''. discard_request_loop rd (discarded + length bs) s' =
                Some (discarded + length bs + length (fst (content s')) \<le> DISCARD_LIMIT, s'')"
              using outer.IH [of "length (fst (content s'))" s' "discarded + length bs"] read(2) within by simp
            with read(1,4) within less.prems(3) show ?thesis by (auto simp: loop add add.assoc)
          qed
        qed
      qed (use less.prems(2,3) in \<open>auto simp: loop\<close>)
    qed
  qed
  with assms show ?thesis by blast
qed

end

end
