(* ===== verification/Call_End.thy ===== *)
theory Call_End
  imports Framing Msg_Queue
begin

text \<open>
  The end of a streaming call (\<open>client/call_end.rs\<close>): the task that reads the response ahead of the caller,
  so that the request half learns the terminal STATUS while it still uploads. The two watch channels are
  their values; the channel to the caller, which the library bounds, is the list of its frames.
\<close>

subsection \<open>The end signal\<close>

definition QUEUED_FRAMES :: usize where
  "QUEUED_FRAMES = 2"

definition FALLBACK_MAX_FRAMES :: usize where
  "FALLBACK_MAX_FRAMES = 4096"

definition FALLBACK_MAX_BYTES :: usize where
  "FALLBACK_MAX_BYTES = 16 * 1024 * 1024"

datatype call_end = EndRunning | EndStatus status | EndFailed status | EndUnknown | EndBacklogFull

fun end_error :: "call_end \<Rightarrow> error option" where
  "end_error EndRunning = None"
| "end_error (EndStatus status) =
     Some (EStatus (if st_code status \<noteq> Ok then status
       else cancelled ''the server completed the call before the request stream finished''))"
| "end_error (EndFailed status) = Some (EStatus status)"
| "end_error EndUnknown = Some (EStatus (cancelled ''request stream is closed''))"
| "end_error EndBacklogFull = Some (EStatus (resource_exhausted
     (''the request stream stopped and the terminal status is behind more unread '' @
      ''responses than the call may buffer'')))"

record upload =
  up_waiting :: usize
  up_stopped :: bool

record read_ahead =
  ra_frames :: usize
  ra_bytes :: usize

definition read_ahead_new :: "usize option \<Rightarrow> usize option \<Rightarrow> read_ahead" where
  "read_ahead_new max_messages max_stream_body_size =
     \<lparr>ra_frames = max (case max_messages of None \<Rightarrow> FALLBACK_MAX_FRAMES | Some n \<Rightarrow> n) 1,
      ra_bytes = max (case max_stream_body_size of None \<Rightarrow> FALLBACK_MAX_BYTES | Some n \<Rightarrow> n) 1\<rparr>"

record end_signal =
  es_end :: call_end
  es_upload :: upload

definition end_channel :: end_signal where
  "end_channel = \<lparr>es_end = EndRunning, es_upload = \<lparr>up_waiting = 0, up_stopped = False\<rparr>\<rparr>"

definition end_record :: "call_end \<Rightarrow> end_signal \<Rightarrow> end_signal" where
  "end_record ending s = (if es_end s = EndRunning then s\<lparr>es_end := ending\<rparr> else s)"

definition end_sender_drop :: "end_signal \<Rightarrow> end_signal" where
  "end_sender_drop s = end_record EndUnknown s"

definition error_if_ended :: "end_signal \<Rightarrow> error option" where
  "error_if_ended s = end_error (es_end s)"

text \<open>One poll of \<open>ended\<close> at the instant \<open>now\<close>.\<close>

definition poll_ended :: "nat option \<Rightarrow> nat \<Rightarrow> end_signal \<Rightarrow> error poll" where
  "poll_ended deadline now s =
     (if es_end s \<noteq> EndRunning
      then Ready (case end_error (es_end s) of
        Some e \<Rightarrow> e | None \<Rightarrow> EStatus (cancelled ''request stream is closed''))
      else if (case deadline of None \<Rightarrow> False | Some d \<Rightarrow> d \<le> now)
      then Ready (EStatus (deadline_exceeded ''RPC deadline exceeded''))
      else Pending)"

definition waiting_send :: "end_signal \<Rightarrow> end_signal" where
  "waiting_send s = s\<lparr>es_upload := (es_upload s)\<lparr>up_waiting := saturating_add (up_waiting (es_upload s)) 1\<rparr>\<rparr>"

definition waiting_send_drop :: "end_signal \<Rightarrow> end_signal" where
  "waiting_send_drop s = s\<lparr>es_upload := (es_upload s)\<lparr>up_waiting := up_waiting (es_upload s) - 1\<rparr>\<rparr>"

definition upload_stopped :: "end_signal \<Rightarrow> end_signal" where
  "upload_stopped s = s\<lparr>es_upload := (es_upload s)\<lparr>up_stopped := True\<rparr>\<rparr>"

subsection \<open>The reading task\<close>

type_synonym response_item = "error + response_frame"

fun item_bytes :: "response_item \<Rightarrow> usize" where
  "item_bytes (Inr (Message body)) = length body"
| "item_bytes _ = 0"

record ahead_task =
  ah_signal :: end_signal
  ah_backlog :: "response_item list"
  ah_backlog_bytes :: usize
  ah_reading :: bool
  ah_watching_upload :: bool
  ah_frames :: "response_item list"
  ah_ended :: bool

definition ahead_start :: "end_signal \<Rightarrow> ahead_task" where
  "ahead_start s =
     \<lparr>ah_signal = s, ah_backlog = [], ah_backlog_bytes = 0, ah_reading = True, ah_watching_upload = True,
      ah_frames = [], ah_ended = False\<rparr>"

text \<open>The task returns: the sender of the end is dropped.\<close>

definition ahead_return :: "ahead_task \<Rightarrow> ahead_task" where
  "ahead_return t = t\<lparr>ah_signal := end_sender_drop (ah_signal t), ah_ended := True\<rparr>"

definition backlog_full :: "read_ahead \<Rightarrow> ahead_task \<Rightarrow> bool" where
  "backlog_full limits t \<longleftrightarrow> ra_frames limits \<le> length (ah_backlog t) \<or> ra_bytes limits \<le> ah_backlog_bytes t"

text \<open>The head of the loop, and when its \<open>select!\<close> reads.\<close>

definition ahead_loop :: "read_ahead \<Rightarrow> ahead_task \<Rightarrow> ahead_task" where
  "ahead_loop limits t =
     (if \<not> ah_reading t \<and> ah_backlog t = [] then ahead_return t
      else if backlog_full limits t \<and> ah_reading t \<and> up_stopped (es_upload (ah_signal t))
      then t\<lparr>ah_signal := end_record EndBacklogFull (ah_signal t)\<rparr>
      else t)"

definition may_read :: "read_ahead \<Rightarrow> ahead_task \<Rightarrow> bool" where
  "may_read limits t \<longleftrightarrow>
     ah_reading t \<and>
     (if up_stopped (es_upload (ah_signal t)) \<or> 0 < up_waiting (es_upload (ah_signal t))
      then \<not> backlog_full limits t else ah_backlog t = [])"

text \<open>The branches of the \<open>select!\<close>: room for a frame, or the caller gone; a change of the upload; an item.\<close>

definition ahead_reserved :: "bool \<Rightarrow> ahead_task \<Rightarrow> ahead_task" where
  "ahead_reserved reserved t =
     (if \<not> reserved then ahead_return t
      else
        (case ah_backlog t of
           [] \<Rightarrow> t
         | item # backlog \<Rightarrow>
             t\<lparr>ah_backlog := backlog, ah_backlog_bytes := ah_backlog_bytes t - item_bytes item,
               ah_frames := ah_frames t @ [item]\<rparr>))"

definition ahead_upload_changed :: "bool \<Rightarrow> ahead_task \<Rightarrow> ahead_task" where
  "ahead_upload_changed changed t = t\<lparr>ah_watching_upload := changed\<rparr>"

definition ahead_item :: "(transport_error \<Rightarrow> status) \<Rightarrow> response_item option \<Rightarrow> ahead_task \<Rightarrow> ahead_task" where
  "ahead_item classify item t =
     (case item of
        Some item \<Rightarrow>
          (let t = (case item of
                 Inr (Status status) \<Rightarrow> t\<lparr>ah_signal := end_record (EndStatus status) (ah_signal t)\<rparr>
               | Inl e \<Rightarrow> t\<lparr>ah_signal := end_record (EndFailed (error_status classify e)) (ah_signal t)\<rparr>
               | Inr _ \<Rightarrow> t) in
           t\<lparr>ah_backlog_bytes := saturating_add (ah_backlog_bytes t) (item_bytes item),
             ah_backlog := ah_backlog t @ [item]\<rparr>)
      | None \<Rightarrow> t\<lparr>ah_reading := False, ah_signal := end_record EndUnknown (ah_signal t)\<rparr>)"

subsection \<open>Specification\<close>

definition ends_call :: "response_item \<Rightarrow> bool" where
  "ends_call item \<longleftrightarrow> (case item of Inl _ \<Rightarrow> True | Inr (Status _) \<Rightarrow> True | _ \<Rightarrow> False)"

text \<open>
  Runs of the task over the response \<open>items\<close>: \<open>got\<close> is what the caller has received, \<open>rest\<close> what has not
  arrived yet and \<open>listening\<close> whether the caller still holds the response; \<open>hist\<close> is what the caller had and
  the task before each step, oldest first. The branches of the \<open>select!\<close> are taken in their order; sends of
  the request half wait and stop at any time.
\<close>

type_synonym ahead_config = "response_item list \<times> response_item list \<times> bool \<times> ahead_task"

inductive ahead_step :: "read_ahead \<Rightarrow> (transport_error \<Rightarrow> status) \<Rightarrow> ahead_config \<Rightarrow> ahead_config \<Rightarrow> bool"
  for limits :: read_ahead and classify :: "transport_error \<Rightarrow> status" where
  reserved: "\<not> ah_ended t \<Longrightarrow> ah_backlog t \<noteq> [] \<Longrightarrow> length (ah_frames t) < QUEUED_FRAMES \<Longrightarrow>
    ahead_step limits classify (got, rest, True, t) (got, rest, True, ahead_loop limits (ahead_reserved True t))"
| caller_gone: "\<not> ah_ended t \<Longrightarrow> ah_backlog t \<noteq> [] \<Longrightarrow>
    ahead_step limits classify (got, rest, False, t) (got, rest, False, ahead_reserved False t)"
| changed: "\<not> ah_ended t \<Longrightarrow> ah_watching_upload t \<Longrightarrow>
    ah_backlog t = [] \<or> \<not> length (ah_frames t) < QUEUED_FRAMES \<Longrightarrow>
    ahead_step limits classify (got, rest, True, t) (got, rest, True, ahead_loop limits (ahead_upload_changed watched t))"
| item_read: "\<not> ah_ended t \<Longrightarrow> may_read limits t \<Longrightarrow>
    ah_backlog t = [] \<or> \<not> length (ah_frames t) < QUEUED_FRAMES \<Longrightarrow>
    ahead_step limits classify (got, item # rest, True, t)
      (got, rest, True, ahead_loop limits (ahead_item classify (Some item) t))"
| response_ended: "\<not> ah_ended t \<Longrightarrow> may_read limits t \<Longrightarrow>
    ah_backlog t = [] \<or> \<not> length (ah_frames t) < QUEUED_FRAMES \<Longrightarrow>
    ahead_step limits classify (got, [], True, t) (got, [], True, ahead_loop limits (ahead_item classify None t))"
| received: "ah_frames t = item # frames \<Longrightarrow>
    ahead_step limits classify (got, rest, True, t) (got @ [item], rest, True, t\<lparr>ah_frames := frames\<rparr>)"
| response_dropped: "ahead_step limits classify (got, rest, True, t) (got, rest, False, t)"
| aborted: "\<not> ah_ended t \<Longrightarrow> ahead_step limits classify (got, rest, False, t) (got, rest, False, ahead_return t)"
| send_waits: "ahead_step limits classify (got, rest, listening, t)
    (got, rest, listening, t\<lparr>ah_signal := waiting_send (ah_signal t)\<rparr>)"
| send_done: "ahead_step limits classify (got, rest, listening, t)
    (got, rest, listening, t\<lparr>ah_signal := waiting_send_drop (ah_signal t)\<rparr>)"
| stopped: "ahead_step limits classify (got, rest, listening, t)
    (got, rest, listening, t\<lparr>ah_signal := upload_stopped (ah_signal t)\<rparr>)"

inductive ahead_run ::
  "read_ahead \<Rightarrow> (transport_error \<Rightarrow> status) \<Rightarrow> response_item list \<Rightarrow> (response_item list \<times> ahead_task) list \<Rightarrow>
   ahead_config \<Rightarrow> bool"
  for limits :: read_ahead and classify :: "transport_error \<Rightarrow> status" and items :: "response_item list" where
  started: "ahead_run limits classify items [] ([], items, True, ahead_loop limits (ahead_start end_channel))"
| stepped: "ahead_run limits classify items hist (got, rest, listening, t) \<Longrightarrow>
    ahead_step limits classify (got, rest, listening, t) c \<Longrightarrow>
    ahead_run limits classify items (hist @ [(got, t)]) c"

text \<open>What the recorded end says of the items the task has \<open>seen\<close>.\<close>

fun end_tells :: "(transport_error \<Rightarrow> status) \<Rightarrow> call_end \<Rightarrow> response_item list \<Rightarrow> ahead_task \<Rightarrow> bool" where
  "end_tells classify EndRunning seen t \<longleftrightarrow> find ends_call seen = None \<and> \<not> ah_ended t"
| "end_tells classify (EndStatus status) seen t \<longleftrightarrow> find ends_call seen = Some (Inr (Status status))"
| "end_tells classify (EndFailed status) seen t \<longleftrightarrow>
     (\<exists>e. find ends_call seen = Some (Inl e) \<and> status = error_status classify e)"
| "end_tells classify EndUnknown seen t \<longleftrightarrow> find ends_call seen = None \<and> (\<not> ah_reading t \<or> ah_ended t)"
| "end_tells classify EndBacklogFull seen t \<longleftrightarrow> up_stopped (es_upload (ah_signal t))"

text \<open>
  The first moment the end of the call stands recorded, and what it was when the end is a full backlog: the
  task was still reading for a stopped upload, nothing terminal had been seen, and the frames or the bytes
  that it held for the caller had reached the limit.
\<close>

definition recorded_at :: "(response_item list \<times> ahead_task) list \<Rightarrow> (response_item list \<times> ahead_task) option" where
  "recorded_at hist = find (\<lambda>(got, t). es_end (ah_signal t) \<noteq> EndRunning) hist"

definition filled_up :: "read_ahead \<Rightarrow> response_item list \<times> ahead_task \<Rightarrow> bool" where
  "filled_up limits h = (case h of (got, t) \<Rightarrow>
     es_end (ah_signal t) = EndBacklogFull \<and> ah_reading t \<and> up_stopped (es_upload (ah_signal t)) \<and>
     find ends_call (got @ ah_frames t @ ah_backlog t) = None \<and>
     (ra_frames limits \<le> length (ah_backlog t) \<or> ra_bytes limits \<le> sum_list (map item_bytes (ah_backlog t))))"

abbreviation items_bytes :: "response_item list \<Rightarrow> nat" where
  "items_bytes items \<equiv> sum_list (map item_bytes items)"

definition ahead_bounded :: "read_ahead \<Rightarrow> ahead_task \<Rightarrow> bool" where
  "ahead_bounded limits t \<longleftrightarrow>
     length (ah_frames t) \<le> QUEUED_FRAMES \<and> length (ah_backlog t) \<le> ra_frames limits \<and>
     ah_backlog_bytes t = items_bytes (ah_backlog t) \<and> items_bytes (butlast (ah_backlog t)) < ra_bytes limits"

definition ahead_kept ::
  "read_ahead \<Rightarrow> (transport_error \<Rightarrow> status) \<Rightarrow> response_item list \<Rightarrow> response_item list \<Rightarrow> response_item list \<Rightarrow>
   ahead_task \<Rightarrow> bool" where
  "ahead_kept limits classify items got rest t \<longleftrightarrow>
     items = got @ ah_frames t @ ah_backlog t @ rest \<and> ahead_bounded limits t \<and>
     end_tells classify (es_end (ah_signal t)) (got @ ah_frames t @ ah_backlog t) t \<and>
     (\<not> ah_reading t \<longrightarrow> rest = [] \<and> es_end (ah_signal t) \<noteq> EndRunning)"

subsection \<open>Properties\<close>

lemma ends_call_simps [simp]:
  "ends_call (Inl e)" "ends_call (Inr (Status status))" "\<not> ends_call (Inr (Headers h))" "\<not> ends_call (Inr (Message b))"
  by (simp_all add: ends_call_def)

lemma ahead_return_kept:
  assumes "ahead_kept limits classify items got rest t"
  shows "ahead_kept limits classify items got rest (ahead_return t)"
  using assms
  by (cases "es_end (ah_signal t)")
    (auto simp: ahead_kept_def ahead_bounded_def ahead_return_def end_sender_drop_def end_record_def)

lemma ahead_loop_kept:
  assumes "ahead_kept limits classify items got rest t" "\<not> ah_ended t"
  shows "ahead_kept limits classify items got rest (ahead_loop limits t)"
  using assms ahead_return_kept [OF assms(1)]
  by (cases "es_end (ah_signal t)")
    (auto simp: ahead_kept_def ahead_bounded_def ahead_loop_def end_record_def)

lemma butlast_pop_bytes: "items_bytes (butlast xs) \<le> items_bytes (butlast (x # xs))"
  by (cases xs) simp_all

lemma ahead_reserved_kept:
  assumes "ahead_kept limits classify items got rest t" "ah_backlog t \<noteq> []" "length (ah_frames t) < QUEUED_FRAMES"
  shows "ahead_kept limits classify items got rest (ahead_reserved True t)"
proof -
  obtain item backlog where backlog: "ah_backlog t = item # backlog" using assms(2) by (cases "ah_backlog t") auto
  have "items_bytes (butlast backlog) < ra_bytes limits"
    using assms(1) butlast_pop_bytes [of backlog item] backlog by (simp add: ahead_kept_def ahead_bounded_def)
  with assms backlog show ?thesis
    by (cases "es_end (ah_signal t)") (auto simp: ahead_kept_def ahead_bounded_def ahead_reserved_def)
qed

lemma find_snoc: "find P (xs @ [x]) = (case find P xs of None \<Rightarrow> if P x then Some x else None | Some y \<Rightarrow> Some y)"
  by (induction xs) simp_all

lemma end_tells_item:
  assumes "end_tells classify (es_end (ah_signal t)) seen t" "\<not> ah_ended t" "ah_reading t"
  shows "end_tells classify (es_end (ah_signal (ahead_item classify (Some item) t))) (seen @ [item])
    (ahead_item classify (Some item) t)"
proof (cases item)
  case (Inl e)
  with assms show ?thesis
    by (cases "es_end (ah_signal t)") (auto simp: ahead_item_def end_record_def find_snoc)
next
  case (Inr frame)
  with assms show ?thesis
    by (cases frame; cases "es_end (ah_signal t)") (auto simp: ahead_item_def end_record_def find_snoc)
qed

lemma ahead_item_simps:
  "ah_backlog (ahead_item classify (Some item) t) = ah_backlog t @ [item]"
  "ah_frames (ahead_item classify (Some item) t) = ah_frames t"
  "ah_reading (ahead_item classify (Some item) t) = ah_reading t"
  "ah_ended (ahead_item classify (Some item) t) = ah_ended t"
  "ah_backlog_bytes (ahead_item classify (Some item) t) = saturating_add (ah_backlog_bytes t) (item_bytes item)"
  by (auto simp: ahead_item_def Let_def split: sum.splits response_frame.splits)

lemma ahead_item_kept:
  assumes "ahead_kept limits classify items got (item # rest) t" "\<not> ah_ended t" "may_read limits t"
    and "0 < ra_frames limits" "0 < ra_bytes limits" "items_bytes items \<le> USIZE_MAX"
  shows "ahead_kept limits classify items got rest (ahead_item classify (Some item) t)"
proof -
  have room: "length (ah_backlog t) < ra_frames limits" "ah_backlog_bytes t < ra_bytes limits"
    using assms(1,3,4,5) by (auto simp: may_read_def backlog_full_def ahead_kept_def ahead_bounded_def split: if_split_asm)
  have fits: "ah_backlog_bytes t + item_bytes item \<le> USIZE_MAX"
    using assms(1,6) by (auto simp: ahead_kept_def ahead_bounded_def)
  have reading: "ah_reading t" using assms(3) by (simp add: may_read_def)
  have "end_tells classify (es_end (ah_signal t)) (got @ ah_frames t @ ah_backlog t) t"
    using assms(1) by (simp add: ahead_kept_def)
  from end_tells_item [OF this assms(2) reading, of item] assms(1) room fits reading show ?thesis
    by (auto simp: ahead_kept_def ahead_bounded_def ahead_item_simps saturating_add_def)
qed

text \<open>Only the head of the loop records a full backlog, and only for one.\<close>

definition end_moves :: "ahead_task \<Rightarrow> ahead_task \<Rightarrow> bool" where
  "end_moves t t' \<longleftrightarrow>
     (if es_end (ah_signal t) = EndRunning then es_end (ah_signal t') \<noteq> EndBacklogFull
      else es_end (ah_signal t') = es_end (ah_signal t))"

lemma end_record_keeps: "es_end s \<noteq> EndRunning \<Longrightarrow> end_record e s = s"
  by (simp add: end_record_def)

lemma end_moves_ops:
  "end_moves t (ahead_reserved reserved t)" "end_moves t (ahead_upload_changed watched t)"
  "end_moves t (ahead_item classify item t)" "end_moves t (ahead_return t)"
  by (auto simp: end_moves_def ahead_reserved_def ahead_upload_changed_def ahead_item_def ahead_return_def
      end_sender_drop_def end_record_def split: list.split option.split sum.split response_frame.split)

lemma ahead_reserved_ended: "ah_ended (ahead_reserved True t) = ah_ended t"
  by (simp add: ahead_reserved_def split: list.split)

lemma ahead_item_none_ended: "ah_ended (ahead_item classify None t) = ah_ended t"
  by (simp add: ahead_item_def)

lemma ahead_loop_end:
  "es_end (ah_signal t) \<noteq> EndRunning \<Longrightarrow> es_end (ah_signal (ahead_loop limits t)) = es_end (ah_signal t)"
  by (simp add: ahead_loop_def ahead_return_def end_sender_drop_def end_record_keeps)

lemma ahead_loop_fills:
  assumes "es_end (ah_signal (ahead_loop limits t)) = EndBacklogFull" "es_end (ah_signal t) \<noteq> EndBacklogFull"
    and "ahead_kept limits classify items got rest t"
  shows "filled_up limits (got, ahead_loop limits t)"
proof -
  have running: "es_end (ah_signal t) = EndRunning"
    using assms(1,2) ahead_loop_end by metis
  then have "find ends_call (got @ ah_frames t @ ah_backlog t) = None"
    "ah_backlog_bytes t = items_bytes (ah_backlog t)"
    using assms(3) by (simp_all add: ahead_kept_def ahead_bounded_def)
  with running assms(1) show ?thesis
    by (auto simp: filled_up_def ahead_loop_def ahead_return_def end_sender_drop_def end_record_def
        backlog_full_def split: if_split_asm)
qed

lemma ahead_signal_kept:
  assumes "ahead_kept limits classify items got rest t" "es_end s = es_end (ah_signal t)"
    and "up_stopped (es_upload (ah_signal t)) \<Longrightarrow> up_stopped (es_upload s)"
  shows "ahead_kept limits classify items got rest (t\<lparr>ah_signal := s\<rparr>)"
  using assms by (cases "es_end (ah_signal t)") (auto simp: ahead_kept_def ahead_bounded_def)

text \<open>Every step is a change that keeps the invariant, then perhaps the head of the loop.\<close>

lemma ahead_step_before_loop:
  assumes "ahead_step limits classify (got, rest, listening, t) (got', rest', listening', t')"
    and "ahead_kept limits classify items got rest t"
    and "0 < ra_frames limits" "0 < ra_bytes limits" "items_bytes items \<le> USIZE_MAX"
  shows "\<exists>u. ahead_kept limits classify items got' rest' u \<and> end_moves t u \<and>
    (t' = u \<or> t' = ahead_loop limits u \<and> \<not> ah_ended u)"
  using assms(1)
proof (cases rule: ahead_step.cases)
  case reserved
  with assms(2) have "ahead_kept limits classify items got rest (ahead_reserved True t)"
    by (intro ahead_reserved_kept)
  with reserved end_moves_ops(1) show ?thesis
    by (intro exI [of _ "ahead_reserved True t"]) (simp add: ahead_reserved_ended)
next
  case caller_gone
  with assms(2) end_moves_ops(4) show ?thesis
    by (intro exI [of _ "ahead_return t"]) (simp add: ahead_reserved_def ahead_return_kept)
next
  case (changed watched)
  with assms(2) have "ahead_kept limits classify items got rest (ahead_upload_changed watched t)"
    by (cases "es_end (ah_signal t)") (auto simp: ahead_kept_def ahead_bounded_def ahead_upload_changed_def)
  with changed end_moves_ops(2) show ?thesis
    by (intro exI [of _ "ahead_upload_changed watched t"]) (auto simp: ahead_upload_changed_def)
next
  case (item_read item)
  with assms have "ahead_kept limits classify items got rest' (ahead_item classify (Some item) t)"
    by (intro ahead_item_kept) simp_all
  with item_read end_moves_ops(3) show ?thesis
    by (intro exI [of _ "ahead_item classify (Some item) t"]) (simp add: ahead_item_simps)
next
  case response_ended
  with assms(2) have "ahead_kept limits classify items got [] (ahead_item classify None t)"
    by (cases "es_end (ah_signal t)") (auto simp: ahead_kept_def ahead_bounded_def ahead_item_def end_record_def)
  with response_ended end_moves_ops(3) show ?thesis
    by (intro exI [of _ "ahead_item classify None t"]) (simp add: ahead_item_none_ended)
next
  case aborted
  with assms(2) end_moves_ops(4) show ?thesis
    by (intro exI [of _ "ahead_return t"]) (simp add: ahead_return_kept)
next
  case (received item frames)
  with assms(2) have "ahead_kept limits classify items got' rest' t'"
    by (cases "es_end (ah_signal t)") (auto simp: ahead_kept_def ahead_bounded_def)
  with received show ?thesis by (intro exI [of _ t']) (simp add: end_moves_def)
next
  case response_dropped
  with assms(2) show ?thesis by (intro exI [of _ t]) (simp add: end_moves_def)
qed (use assms(2) in \<open>auto intro!: exI [of _ t'] ahead_signal_kept
    simp: end_moves_def waiting_send_def waiting_send_drop_def upload_stopped_def\<close>)

lemma ahead_step_kept:
  assumes "ahead_step limits classify (got, rest, listening, t) (got', rest', listening', t')"
    and "ahead_kept limits classify items got rest t"
    and "0 < ra_frames limits" "0 < ra_bytes limits" "items_bytes items \<le> USIZE_MAX"
  shows "ahead_kept limits classify items got' rest' t'"
    and "es_end (ah_signal t) \<noteq> EndRunning \<Longrightarrow> es_end (ah_signal t') = es_end (ah_signal t)"
    and "es_end (ah_signal t) = EndRunning \<Longrightarrow> es_end (ah_signal t') = EndBacklogFull \<Longrightarrow> filled_up limits (got', t')"
proof -
  obtain u where u: "ahead_kept limits classify items got' rest' u" "end_moves t u"
      "t' = u \<or> t' = ahead_loop limits u \<and> \<not> ah_ended u"
    using ahead_step_before_loop [OF assms] by blast
  then show "ahead_kept limits classify items got' rest' t'"
    using ahead_loop_kept by auto
  show "es_end (ah_signal t') = es_end (ah_signal t)" if "es_end (ah_signal t) \<noteq> EndRunning"
    using u(2,3) that ahead_loop_end by (auto simp: end_moves_def)
  show "filled_up limits (got', t')" if "es_end (ah_signal t) = EndRunning" "es_end (ah_signal t') = EndBacklogFull"
    using u that ahead_loop_fills [of limits u classify items got' rest'] by (auto simp: end_moves_def)
qed

lemma ahead_run_kept:
  assumes "ahead_run limits classify items hist c" "0 < ra_frames limits" "0 < ra_bytes limits"
    "items_bytes items \<le> USIZE_MAX"
  shows "case c of (got, rest, listening, t) \<Rightarrow> ahead_kept limits classify items got rest t"
  using assms(1)
proof (induction rule: ahead_run.induct)
  case started
  have "ahead_kept limits classify items [] items (ahead_start end_channel)"
    using assms(3) by (simp add: ahead_kept_def ahead_bounded_def ahead_start_def end_channel_def)
  then show ?case using ahead_loop_kept by (simp add: ahead_start_def)
next
  case (stepped hist got rest listening t c)
  then show ?case using ahead_step_kept [OF _ _ assms(2-4)] by (cases c) simp
qed

definition hist_kept :: "read_ahead \<Rightarrow> (response_item list \<times> ahead_task) list \<Rightarrow> call_end \<Rightarrow> bool" where
  "hist_kept limits hist ending \<longleftrightarrow>
     (case recorded_at hist of
        None \<Rightarrow> ending = EndRunning
      | Some (got, t) \<Rightarrow> es_end (ah_signal t) = ending \<and> ending \<noteq> EndRunning \<and>
          (ending = EndBacklogFull \<longrightarrow> filled_up limits (got, t)))"

lemma recorded_at_snoc:
  "recorded_at (hist @ [(got, t)]) =
     (case recorded_at hist of
        None \<Rightarrow> if es_end (ah_signal t) = EndRunning then None else Some (got, t)
      | Some h \<Rightarrow> Some h)"
  by (simp add: recorded_at_def find_snoc)

lemma ahead_run_recorded:
  assumes "ahead_run limits classify items hist c" "0 < ra_frames limits" "0 < ra_bytes limits"
    "items_bytes items \<le> USIZE_MAX"
  shows "case c of (got, rest, listening, t) \<Rightarrow> hist_kept limits (hist @ [(got, t)]) (es_end (ah_signal t))"
  using assms(1)
proof (induction rule: ahead_run.induct)
  case started
  then show ?case
    by (simp add: hist_kept_def recorded_at_def ahead_loop_def ahead_start_def end_channel_def)
next
  case (stepped hist got rest listening t c)
  obtain got' rest' listening' t' where c: "c = (got', rest', listening', t')" by (cases c)
  have "ahead_kept limits classify items got rest t"
    using ahead_run_kept [OF stepped(1) assms(2-4)] by simp
  note step = ahead_step_kept(2,3) [OF stepped(2) [unfolded c] this assms(2-4)]
  have IH: "hist_kept limits (hist @ [(got, t)]) (es_end (ah_signal t))" using stepped(3) by simp
  have snoc: "recorded_at (hist @ [(got, t), (got', t')]) =
      (case recorded_at (hist @ [(got, t)]) of
         None \<Rightarrow> if es_end (ah_signal t') = EndRunning then None else Some (got', t')
       | Some h \<Rightarrow> Some h)"
    using recorded_at_snoc [of "hist @ [(got, t)]"] by simp
  show ?case
  proof (cases "es_end (ah_signal t) = EndRunning")
    case True
    then have "recorded_at (hist @ [(got, t)]) = None"
      using IH by (auto simp: hist_kept_def split: option.splits)
    with True step(2) show ?thesis
      by (auto simp: c hist_kept_def snoc)
  next
    case False
    with step(1) IH show ?thesis
      by (auto simp: c hist_kept_def snoc split: option.splits)
  qed
qed

lemma read_ahead_new_pos [simp]: "0 < ra_frames (read_ahead_new m b)" "0 < ra_bytes (read_ahead_new m b)"
  by (simp_all add: read_ahead_new_def)

lemma ahead_loop_ended:
  assumes "\<not> ah_ended t" "ah_ended (ahead_loop limits t)"
  shows "\<not> ah_reading (ahead_loop limits t) \<and> ah_backlog (ahead_loop limits t) = []"
  using assms by (auto simp: ahead_loop_def ahead_return_def split: if_split_asm)

lemma ahead_step_finished:
  assumes "ahead_step limits classify (got, rest, listening, t) (got', rest', True, t')" "ah_ended t'"
    and "listening \<Longrightarrow> ah_ended t \<Longrightarrow> \<not> ah_reading t \<and> ah_backlog t = []"
  shows "\<not> ah_reading t' \<and> ah_backlog t' = []"
  using assms(1)
proof (cases rule: ahead_step.cases)
  case reserved
  with assms(2) show ?thesis by (auto intro!: ahead_loop_ended simp: ahead_reserved_def split: list.splits)
next
  case (changed watched)
  with assms(2) show ?thesis by (auto intro!: ahead_loop_ended simp: ahead_upload_changed_def)
next
  case (item_read item)
  with assms(2) ahead_loop_ended [of "ahead_item classify (Some item) t" limits] show ?thesis
    by (simp add: ahead_item_simps)
next
  case response_ended
  with assms(2) ahead_loop_ended [of "ahead_item classify None t" limits] show ?thesis
    by (simp add: ahead_item_def)
qed (use assms(2,3) in simp_all)

lemma ahead_run_finished:
  assumes "ahead_run limits classify items hist c"
  shows "case c of (got, rest, listening, t) \<Rightarrow> listening \<and> ah_ended t \<longrightarrow> \<not> ah_reading t \<and> ah_backlog t = []"
  using assms
proof (induction rule: ahead_run.induct)
  case started
  have "\<not> ah_ended (ahead_loop limits (ahead_start end_channel))"
    by (simp add: ahead_loop_def ahead_start_def end_channel_def)
  then show ?case by simp
next
  case (stepped hist got rest listening t c)
  then show ?case using ahead_step_finished by (cases c) fastforce
qed

lemma stopped_reads_on:
  assumes "ah_reading t" "up_stopped (es_upload (ah_signal t))"
  shows "error_if_ended (ah_signal (ahead_loop limits t)) \<noteq> None \<or> may_read limits (ahead_loop limits t)"
  using assms
  by (cases "es_end (ah_signal t)")
    (auto simp: ahead_loop_def end_record_def error_if_ended_def may_read_def backlog_full_def)

lemma loop_branch_enabled:
  assumes "\<not> ah_ended (ahead_loop limits t)" "ahead_bounded limits t" "0 < ra_frames limits" "0 < ra_bytes limits"
  shows "ah_backlog t \<noteq> [] \<or> may_read limits (ahead_loop limits t)"
  using assms
  by (auto simp: ahead_loop_def ahead_return_def may_read_def backlog_full_def ahead_bounded_def split: if_split_asm)



end
