(* ===== verification/Structured_Fields.thy ===== *)
theory Structured_Fields
  imports Compression
begin

text \<open>
  The structured header fields of \<open>structured_fields.rs\<close>, a list of strings, and the choice of the
  WebTransport protocol of \<open>http3.rs\<close> that reads one. A field value is a string of bytes; the parser's
  cursor is the rest of it.
\<close>

subsection \<open>The cursor\<close>

fun eat :: "char \<Rightarrow> string \<Rightarrow> bool \<times> string" where
  "eat expected [] = (False, [])"
| "eat expected (c # rest) = (if c = expected then (True, rest) else (False, c # rest))"

definition expect :: "char \<Rightarrow> string \<Rightarrow> (unit \<times> string) option" where
  "expect expected rest = (case eat expected rest of (True, rest) \<Rightarrow> Some ((), rest) | _ \<Rightarrow> None)"

fun bump :: "string \<Rightarrow> (char \<times> string) option" where
  "bump [] = None"
| "bump (c # rest) = Some (c, rest)"

definition take_while :: "(char \<Rightarrow> bool) \<Rightarrow> string \<Rightarrow> nat \<times> string" where
  "take_while predicate rest = (length (takeWhile predicate rest), dropWhile predicate rest)"

definition skip_sp :: "string \<Rightarrow> string" where
  "skip_sp rest = snd (take_while (\<lambda>c. c = CHR '' '') rest)"

definition skip_ows :: "string \<Rightarrow> string" where
  "skip_ows rest = snd (take_while (\<lambda>c. c = CHR '' '' \<or> c = CHR 0x09) rest)"

subsection \<open>Items\<close>

definition is_ascii_lowercase :: "char \<Rightarrow> bool" where
  "is_ascii_lowercase c \<longleftrightarrow> (let b = (of_char c :: nat) in 97 \<le> b \<and> b \<le> 122)"

definition sf_chr :: "char \<Rightarrow> bool" where
  "sf_chr c \<longleftrightarrow> (let b = (of_char c :: nat) in 0x20 \<le> b \<and> b \<le> 0x7E)"

text \<open>The check of \<open>from_utf8\<close> on bytes.\<close>

definition utf8_tail :: "nat \<Rightarrow> bool" where
  "utf8_tail b \<longleftrightarrow> 0x80 \<le> b \<and> b \<le> 0xBF"

fun utf8_bytes :: "nat list \<Rightarrow> bool" where
  "utf8_bytes [] = True"
| "utf8_bytes (a # rest) =
     (if a \<le> 0x7F then utf8_bytes rest
      else
        (case rest of
           [] \<Rightarrow> False
         | b # rest \<Rightarrow>
             if 0xC2 \<le> a \<and> a \<le> 0xDF then utf8_tail b \<and> utf8_bytes rest
             else
               (case rest of
                  [] \<Rightarrow> False
                | c # rest \<Rightarrow>
                    if 0xE0 \<le> a \<and> a \<le> 0xEF
                    then utf8_tail b \<and> (a = 0xE0 \<longrightarrow> 0xA0 \<le> b) \<and> (a = 0xED \<longrightarrow> b \<le> 0x9F) \<and> utf8_tail c \<and>
                      utf8_bytes rest
                    else
                      (case rest of
                         [] \<Rightarrow> False
                       | d # rest \<Rightarrow>
                           0xF0 \<le> a \<and> a \<le> 0xF4 \<and> utf8_tail b \<and> (a = 0xF0 \<longrightarrow> 0x90 \<le> b) \<and>
                           (a = 0xF4 \<longrightarrow> b \<le> 0x8F) \<and> utf8_tail c \<and> utf8_tail d \<and> utf8_bytes rest))))"

definition from_utf8 :: "string \<Rightarrow> string option" where
  "from_utf8 v = (if utf8_bytes (map of_char v) then Some v else None)"

text \<open>The loop of \<open>Parser::string\<close>.\<close>

fun string_loop :: "string \<Rightarrow> string \<Rightarrow> (string \<times> string) option" where
  "string_loop v [] = None"
| "string_loop v (c # rest) =
     (if c = CHR 0x22 then map_option (\<lambda>v. (v, rest)) (from_utf8 v)
      else if c = CHR 0x5C then
        (case rest of
           [] \<Rightarrow> None
         | escaped # rest \<Rightarrow>
             if escaped = CHR 0x22 \<or> escaped = CHR 0x5C then string_loop (v @ [escaped]) rest else None)
      else if sf_chr c then string_loop (v @ [c]) rest
      else None)"

definition parse_string :: "string \<Rightarrow> (string \<times> string) option" where
  "parse_string rest = Option.bind (expect (CHR 0x22) rest) (\<lambda>(_, rest). string_loop [] rest)"

definition parse_key :: "string \<Rightarrow> (unit \<times> string) option" where
  "parse_key rest =
     Option.bind (bump rest) (\<lambda>(first, rest).
       if \<not> (is_ascii_lowercase first \<or> first = CHR ''*'') then None
       else Some ((), snd (take_while (\<lambda>c. is_ascii_lowercase c \<or> is_ascii_digit c \<or> c \<in> set ''_-.*'') rest)))"

definition parse_number :: "string \<Rightarrow> (unit \<times> string) option" where
  "parse_number rest =
     (case take_while is_ascii_digit (snd (eat (CHR ''-'') rest)) of
        (integer_digits, rest) \<Rightarrow>
          if integer_digits = 0 then None
          else
            (case eat (CHR ''.'') rest of
               (True, rest) \<Rightarrow>
                 (case take_while is_ascii_digit rest of
                    (fraction_digits, rest) \<Rightarrow>
                      if 1 \<le> fraction_digits \<and> fraction_digits \<le> 3 \<and> integer_digits \<le> 12 then Some ((), rest) else None)
             | (False, rest) \<Rightarrow> if integer_digits \<le> 15 then Some ((), rest) else None))"

definition parse_token :: "string \<Rightarrow> (unit \<times> string) option" where
  "parse_token rest =
     Option.bind (bump rest) (\<lambda>(first, rest).
       if \<not> (is_ascii_alphabetic first \<or> first = CHR ''*'') then None
       else Some ((), snd (take_while (\<lambda>c. is_ascii_alphanumeric c \<or> c \<in> set ''!#$%&*+-.^_|~:/'' \<or>
         c = CHR 0x27 \<or> c = CHR 0x60) rest)))"

definition parse_binary :: "string \<Rightarrow> (unit \<times> string) option" where
  "parse_binary rest =
     Option.bind (expect (CHR '':'') rest) (\<lambda>(_, rest).
       expect (CHR '':'') (snd (take_while (\<lambda>c. is_ascii_alphanumeric c \<or> c \<in> set ''+/='') rest)))"

definition parse_boolean :: "string \<Rightarrow> (unit \<times> string) option" where
  "parse_boolean rest =
     Option.bind (expect (CHR ''?'') rest) (\<lambda>(_, rest).
       Option.bind (bump rest) (\<lambda>(c, rest). if c = CHR ''0'' \<or> c = CHR ''1'' then Some ((), rest) else None))"

definition parse_date :: "string \<Rightarrow> (unit \<times> string) option" where
  "parse_date rest =
     Option.bind (expect (CHR ''@'') rest) (\<lambda>(_, rest).
       case take_while is_ascii_digit (snd (eat (CHR ''-'') rest)) of
         (digits, rest) \<Rightarrow> if 1 \<le> digits \<and> digits \<le> 15 then Some ((), rest) else None)"

definition lower_hex_value :: "char \<Rightarrow> nat option" where
  "lower_hex_value c =
     (let b = of_char c in
      if 48 \<le> b \<and> b \<le> 57 then Some (b - 48)
      else if 97 \<le> b \<and> b \<le> 102 then Some (b - 97 + 10)
      else None)"

text \<open>The loop of \<open>Parser::display_string\<close>, whose byte of two hexadecimal digits never overflows.\<close>

fun display_loop :: "string \<Rightarrow> string \<Rightarrow> (unit \<times> string) option" where
  "display_loop decoded [] = None"
| "display_loop decoded (c # rest) =
     (if c = CHR 0x22 then map_option (\<lambda>_. ((), rest)) (from_utf8 decoded)
      else if c = CHR ''%'' then
        (case rest of
           h # l # rest \<Rightarrow>
             Option.bind (lower_hex_value h) (\<lambda>high.
               Option.bind (lower_hex_value l) (\<lambda>low.
                 display_loop (decoded @ [char_of (high * 16 + low)]) rest))
         | _ \<Rightarrow> None)
      else if sf_chr c then display_loop (decoded @ [c]) rest
      else None)"

definition parse_display_string :: "string \<Rightarrow> (unit \<times> string) option" where
  "parse_display_string rest =
     Option.bind (expect (CHR ''%'') rest) (\<lambda>(_, rest).
       Option.bind (expect (CHR 0x22) rest) (\<lambda>(_, rest). display_loop [] rest))"

definition parse_bare_item :: "string \<Rightarrow> (unit \<times> string) option" where
  "parse_bare_item rest =
     (case rest of
        [] \<Rightarrow> None
      | c # _ \<Rightarrow>
          if c = CHR ''-'' \<or> is_ascii_digit c then parse_number rest
          else if c = CHR 0x22 then map_option (\<lambda>(_, rest). ((), rest)) (parse_string rest)
          else if is_ascii_alphabetic c \<or> c = CHR ''*'' then parse_token rest
          else if c = CHR '':'' then parse_binary rest
          else if c = CHR ''?'' then parse_boolean rest
          else if c = CHR ''@'' then parse_date rest
          else if c = CHR ''%'' then parse_display_string rest
          else None)"

subsection \<open>The list\<close>

text \<open>No operation gives back more than it was given, so that the loops end.\<close>

lemma eat_length: "length (snd (eat c rest)) \<le> length rest"
  by (cases rest) simp_all

lemma eat_shorter:
  "(True, rest') = eat c rest \<Longrightarrow> length rest' < length rest" "(False, rest') = eat c rest \<Longrightarrow> rest' = rest"
  by (cases rest; simp split: if_split_asm)+

lemma expect_length: "expect c rest = Some (u, rest') \<Longrightarrow> length rest' < length rest"
  by (cases rest) (auto simp: expect_def split: if_split_asm)

lemma take_while_length: "length (snd (take_while p rest)) \<le> length rest"
  by (simp add: take_while_def length_dropWhile_le)

lemma skip_length: "length (skip_sp rest) \<le> length rest" "length (skip_ows rest) \<le> length rest"
  by (simp_all add: skip_sp_def skip_ows_def take_while_length)

lemma bump_length: "bump rest = Some (c, rest') \<Longrightarrow> length rest' < length rest"
  by (cases rest) simp_all

lemma string_loop_length: "string_loop v rest = Some (w, rest') \<Longrightarrow> length rest' < length rest"
  by (induction v rest rule: string_loop.induct) (auto split: if_split_asm list.split_asm)

lemma parse_string_length: "parse_string rest = Some (w, rest') \<Longrightarrow> length rest' < length rest"
  by (auto simp: parse_string_def bind_eq_Some_conv dest!: expect_length string_loop_length)

lemma display_loop_length: "display_loop v rest = Some (w, rest') \<Longrightarrow> length rest' < length rest"
  by (induction v rest rule: display_loop.induct)
    (fastforce split: if_split_asm list.split_asm simp: bind_eq_Some_conv)+

lemma parse_key_length: "parse_key rest = Some (u, rest') \<Longrightarrow> length rest' \<le> length rest"
  by (auto simp: parse_key_def bind_eq_Some_conv split: if_split_asm
      dest!: bump_length intro: order_trans [OF take_while_length])

lemma skip_key_length: "parse_key (skip_sp rest) = Some (u, rest') \<Longrightarrow> length rest' \<le> length rest"
  using skip_length(1) [of rest] by (auto dest!: parse_key_length)

lemma parse_number_length: "parse_number rest = Some (u, rest') \<Longrightarrow> length rest' \<le> length rest"
proof -
  assume "parse_number rest = Some (u, rest')"
  moreover obtain n r1 where r1: "take_while is_ascii_digit (snd (eat (CHR ''-'') rest)) = (n, r1)" by (rule prod.exhaust)
  moreover obtain b r2 where r2: "eat (CHR ''.'') r1 = (b, r2)" by (rule prod.exhaust)
  moreover obtain k r3 where r3: "take_while is_ascii_digit r2 = (k, r3)" by (rule prod.exhaust)
  ultimately have "rest' = r2 \<or> rest' = r3" by (auto simp: parse_number_def split: if_split_asm bool.split_asm)
  moreover have "length r1 \<le> length rest" "length r2 \<le> length r1" "length r3 \<le> length r2"
    using take_while_length [of is_ascii_digit "snd (eat (CHR ''-'') rest)"] eat_length [of "CHR ''-''" rest]
      eat_length [of "CHR ''.''" r1] take_while_length [of is_ascii_digit r2] r1 r2 r3 by simp_all
  ultimately show ?thesis by auto
qed

lemma parse_binary_length: "parse_binary rest = Some (u, rest') \<Longrightarrow> length rest' \<le> length rest"
proof -
  assume "parse_binary rest = Some (u, rest')"
  then obtain p r where "expect (CHR '':'') rest = Some ((), r)" "expect (CHR '':'') (snd (take_while p r)) = Some (u, rest')"
    by (auto simp: parse_binary_def bind_eq_Some_conv)
  with take_while_length [of p r] show ?thesis by (auto dest!: expect_length)
qed

lemma parse_date_length: "parse_date rest = Some (u, rest') \<Longrightarrow> length rest' \<le> length rest"
proof -
  assume "parse_date rest = Some (u, rest')"
  then obtain r where "expect (CHR ''@'') rest = Some ((), r)"
    "rest' = snd (take_while is_ascii_digit (snd (eat (CHR ''-'') r)))"
    by (auto simp: parse_date_def bind_eq_Some_conv take_while_def split: if_split_asm)
  with take_while_length [of is_ascii_digit "snd (eat (CHR ''-'') r)"] eat_length [of "CHR ''-''" r]
  show ?thesis by (auto dest!: expect_length)
qed

lemma parse_bare_item_length: "parse_bare_item rest = Some (u, rest') \<Longrightarrow> length rest' \<le> length rest"
  by (auto simp: parse_bare_item_def parse_token_def parse_boolean_def
      parse_display_string_def bind_eq_Some_conv take_while_def
      split: list.split_asm if_split_asm
      dest!: parse_number_length parse_binary_length parse_date_length parse_string_length bump_length expect_length display_loop_length
      intro: order_trans [OF length_dropWhile_le] order_trans [OF eat_length])

function parse_parameters :: "string \<Rightarrow> (unit \<times> string) option" where
  "parse_parameters rest =
     (case eat (CHR '';'') rest of
        (False, rest) \<Rightarrow> Some ((), rest)
      | (True, rest) \<Rightarrow>
          Option.bind (parse_key (skip_sp rest)) (\<lambda>(_, rest).
            case eat (CHR ''='') rest of
              (True, rest) \<Rightarrow> Option.bind (parse_bare_item rest) (\<lambda>(_, rest). parse_parameters rest)
            | (False, rest) \<Rightarrow> parse_parameters rest))"
  by pat_completeness auto
termination
  by (relation "measure length")
    (auto dest!: eat_shorter skip_key_length parse_bare_item_length)

declare parse_parameters.simps [simp del]

lemma parse_parameters_length: "parse_parameters rest = Some (u, rest') \<Longrightarrow> length rest' \<le> length rest"
proof (induction rest rule: length_induct)
  case (1 rest)
  note unfold = "1.prems" [unfolded parse_parameters.simps [of rest]]
  obtain b r1 where r1: "eat (CHR '';'') rest = (b, r1)" by (rule prod.exhaust)
  show ?case
  proof (cases b)
    case False
    with unfold r1 eat_length [of "CHR '';''" rest] show ?thesis by simp
  next
    case True
    with unfold r1 obtain r2 where r2: "parse_key (skip_sp r1) = Some ((), r2)" by (auto simp: bind_eq_Some_conv)
    obtain e r3 where r3: "eat (CHR ''='') r2 = (e, r3)" by (rule prod.exhaust)
    have "length r3 < length rest"
      using skip_key_length [OF r2] eat_shorter(1) [of r1 "CHR '';''" rest] r1 True eat_length [of "CHR ''=''" r2] r3 by simp
    moreover obtain r4 where "parse_parameters r4 = Some (u, rest')" "length r4 \<le> length r3"
      using unfold r1 r2 r3 True by (cases e) (auto simp: bind_eq_Some_conv dest!: parse_bare_item_length)
    ultimately show ?thesis using "1.IH" [rule_format, of r4] by simp
  qed
qed

definition parse_string_member :: "string \<Rightarrow> (string \<times> string) option" where
  "parse_string_member rest =
     Option.bind (parse_string rest) (\<lambda>(v, rest).
       Option.bind (parse_parameters rest) (\<lambda>(_, rest). Some (v, rest)))"

lemma parse_string_member_length:
  "parse_string_member rest = Some (v, rest') \<Longrightarrow> length rest' < length rest"
  by (auto simp: parse_string_member_def bind_eq_Some_conv dest!: parse_string_length parse_parameters_length)

text \<open>The loop of \<open>parse_string_list\<close>.\<close>

function parse_members :: "string list \<Rightarrow> string \<Rightarrow> string list option" where
  "parse_members members rest =
     Option.bind (parse_string_member rest) (\<lambda>(m, rest).
       let members = members @ [m]; rest = skip_ows rest in
       if rest = [] then Some members
       else
         Option.bind (expect (CHR '','') rest) (\<lambda>(_, rest).
           let rest = skip_ows rest in
           if rest = [] then None else parse_members members rest))"
  by pat_completeness auto
termination
proof (relation "measure (\<lambda>(_, rest). length rest)")
  fix members rest x m r1 members' r2 y u r3 r4
  assume "parse_string_member rest = Some x" "(m, r1) = x" "r2 = skip_ows r1"
    "expect (CHR '','') r2 = Some y" "(u, r3) = y" "r4 = skip_ows r3"
  then show "((members' :: string list, r4), (members :: string list, rest)) \<in> measure (\<lambda>(_, rest). length rest)"
    using skip_length(2) [of r1] skip_length(2) [of r3] by (auto dest!: parse_string_member_length expect_length)
qed simp

declare parse_members.simps [simp del]

definition parse_string_list :: "string \<Rightarrow> string list option" where
  "parse_string_list input =
     (let rest = skip_sp input in if rest = [] then Some [] else parse_members [] rest)"

subsection \<open>The choice of the WebTransport protocol\<close>

definition WEBTRANSPORT_PROTOCOL :: string where
  "WEBTRANSPORT_PROTOCOL = ''trevrpc-1''"

definition BAD_REQUEST :: nat where
  "BAD_REQUEST = 400"

text \<open>The header's values, one per line, and \<open>to_str\<close> of the http library.\<close>

fun combine_lines :: "(string \<Rightarrow> string option) \<Rightarrow> string \<Rightarrow> string list \<Rightarrow> string option" where
  "combine_lines to_str combined [] = Some combined"
| "combine_lines to_str combined (line # lines) =
     Option.bind (to_str line) (\<lambda>text.
       combine_lines to_str ((if combined = [] then [] else combined @ '','') @ text) lines)"

definition webtransport_offered_protocols :: "(string \<Rightarrow> string option) \<Rightarrow> string list \<Rightarrow> string list option" where
  "webtransport_offered_protocols to_str lines =
     (if lines = [] then None
      else
        Option.bind (combine_lines to_str [] lines) (\<lambda>combined.
          Option.bind (parse_string_list combined) (\<lambda>offered. if offered = [] then None else Some offered)))"

definition select_webtransport_protocol :: "(string \<Rightarrow> string option) \<Rightarrow> string list \<Rightarrow> nat + bool" where
  "select_webtransport_protocol to_str lines =
     (case webtransport_offered_protocols to_str lines of
        None \<Rightarrow> Inr False
      | Some offered \<Rightarrow>
          if list_ex (\<lambda>offered. offered = WEBTRANSPORT_PROTOCOL) offered then Inr True else Inl BAD_REQUEST)"

subsection \<open>Specification\<close>

text \<open>The canonical text of a list of strings, and the text of a header value as the http library gives it.\<close>

definition sf_escape :: "string \<Rightarrow> string" where
  "sf_escape m = concat (map (\<lambda>c. if c = CHR 0x22 \<or> c = CHR 0x5C then [CHR 0x5C, c] else [c]) m)"

definition sf_string :: "string \<Rightarrow> string" where
  "sf_string m = CHR 0x22 # sf_escape m @ [CHR 0x22]"

fun sf_list :: "string list \<Rightarrow> string" where
  "sf_list [] = []"
| "sf_list [m] = sf_string m"
| "sf_list (m # ms) = sf_string m @ '', '' @ sf_list ms"

definition example_to_str :: "string \<Rightarrow> string option" where
  "example_to_str v = (if list_all (\<lambda>c. sf_chr c \<or> c = CHR 0x09) v then Some v else None)"

subsection \<open>Properties\<close>

subsection \<open>Specification\<close>

subsection \<open>Properties\<close>

lemma sf_escape_simps [simp]:
  "sf_escape [] = []" "sf_escape (c # m) = (if c = CHR 0x22 \<or> c = CHR 0x5C then [CHR 0x5C, c] else [c]) @ sf_escape m"
  by (simp_all add: sf_escape_def)

lemma sf_chr_quoted: "sf_chr (CHR 0x22)" "sf_chr (CHR 0x5C)" "sf_chr (CHR '','')" "sf_chr (CHR '' '')"
  by (simp_all add: sf_chr_def Let_def)

lemma ascii_utf8: "\<forall>b \<in> set bs. b \<le> 0x7F \<Longrightarrow> utf8_bytes bs"
  by (induction bs) simp_all

lemma from_utf8_printable: "list_all sf_chr v \<Longrightarrow> from_utf8 v = Some v"
proof -
  assume "list_all sf_chr v"
  then have "\<forall>b \<in> set (map of_char v). (b :: nat) \<le> 0x7F" by (auto simp: list_all_iff sf_chr_def Let_def)
  from ascii_utf8 [OF this] show ?thesis by (simp add: from_utf8_def)
qed

lemma string_loop_printable:
  "string_loop v rest = Some (w, rest') \<Longrightarrow> list_all sf_chr v \<Longrightarrow> list_all sf_chr w"
  by (induction v rest rule: string_loop.induct)
    (auto simp: sf_chr_quoted from_utf8_def split: if_split_asm list.split_asm)

lemma string_loop_escaped:
  "list_all sf_chr v \<Longrightarrow> list_all sf_chr m \<Longrightarrow> string_loop v (sf_escape m @ CHR 0x22 # rest) = Some (v @ m, rest)"
  by (induction m arbitrary: v) (simp_all add: from_utf8_printable)

lemma parse_string_sf: "list_all sf_chr m \<Longrightarrow> parse_string (sf_string m @ rest) = Some (m, rest)"
  by (simp add: parse_string_def expect_def sf_string_def string_loop_escaped)

lemma parse_parameters_none:
  assumes "rest = [] \<or> hd rest \<noteq> CHR '';''"
  shows "parse_parameters rest = Some ((), rest)"
proof -
  have "eat (CHR '';'') rest = (False, rest)" using assms by (cases rest) auto
  then show ?thesis by (simp add: parse_parameters.simps)
qed

lemma parse_string_member_sf:
  assumes "list_all sf_chr m" "rest = [] \<or> hd rest \<noteq> CHR '';''"
  shows "parse_string_member (sf_string m @ rest) = Some (m, rest)"
  by (simp add: parse_string_member_def parse_string_sf assms(1) parse_parameters_none [OF assms(2)])

lemma parse_string_member_printable: "parse_string_member rest = Some (m, rest') \<Longrightarrow> list_all sf_chr m"
  by (auto simp: parse_string_member_def parse_string_def bind_eq_Some_conv dest!: string_loop_printable)

lemma sf_list_start: "ms \<noteq> [] \<Longrightarrow> \<exists>rest. sf_list ms = CHR 0x22 # rest"
  by (induction ms rule: sf_list.induct) (simp_all add: sf_string_def)

lemma skip_simps [simp]:
  "skip_sp (CHR 0x22 # rest) = CHR 0x22 # rest" "skip_ows (CHR 0x22 # rest) = CHR 0x22 # rest"
  "skip_ows (CHR '','' # rest) = CHR '','' # rest" "skip_ows (CHR '' '' # rest) = skip_ows rest" "skip_ows [] = []"
  by (simp_all add: skip_sp_def skip_ows_def take_while_def)

lemma parse_members_next:
  assumes "parse_string_member t = Some (m, '', '' @ CHR 0x22 # rest)"
  shows "parse_members before t = parse_members (before @ [m]) (CHR 0x22 # rest)"
  using assms by (simp add: parse_members.simps [of before t] expect_def)

lemma parse_members_sf:
  "ms \<noteq> [] \<Longrightarrow> list_all (list_all sf_chr) ms \<Longrightarrow> parse_members before (sf_list ms) = Some (before @ ms)"
proof (induction ms arbitrary: before rule: sf_list.induct)
  case 1
  then show ?case by simp
next
  case (2 m)
  then show ?case using parse_string_member_sf [of m "[]"] by (simp add: parse_members.simps [of before])
next
  case (3 m m' ms)
  obtain rest where rest: "sf_list (m' # ms) = CHR 0x22 # rest" using sf_list_start by blast
  from "3.prems" have "parse_string_member (sf_list (m # m' # ms)) = Some (m, '', '' @ sf_list (m' # ms))"
    using parse_string_member_sf [of m "'', '' @ sf_list (m' # ms)"] by simp
  then have "parse_members before (sf_list (m # m' # ms)) = parse_members (before @ [m]) (sf_list (m' # ms))"
    unfolding rest by (rule parse_members_next)
  with "3.IH" [of "before @ [m]"] "3.prems" show ?case by simp
qed

lemma parse_members_printable:
  "parse_members before rest = Some ms \<Longrightarrow> list_all (list_all sf_chr) before \<Longrightarrow> list_all (list_all sf_chr) ms"
proof (induction before rest rule: parse_members.induct)
  case (1 before rest)
  from "1.prems"(1) obtain m r1 where m: "parse_string_member rest = Some (m, r1)"
    by (auto simp: parse_members.simps [of before] bind_eq_Some_conv)
  have all: "list_all (list_all sf_chr) (before @ [m])"
    using parse_string_member_printable [OF m] "1.prems"(2) by simp
  show ?case
  proof (cases "skip_ows r1 = []")
    case True
    with "1.prems"(1) m all show ?thesis by (auto simp: parse_members.simps [of before])
  next
    case False
    with "1.prems"(1) m obtain r2 where r2: "expect (CHR '','') (skip_ows r1) = Some ((), r2)" "skip_ows r2 \<noteq> []"
      "parse_members (before @ [m]) (skip_ows r2) = Some ms"
      by (auto simp: parse_members.simps [of before] bind_eq_Some_conv Let_def split: if_split_asm)
    from "1.IH" [OF m refl refl refl False r2(1) refl refl r2(2,3) all] show ?thesis .
  qed
qed

lemma parse_string_list_printable:
  "parse_string_list input = Some ms \<Longrightarrow> list_all (list_all sf_chr) ms"
  by (auto simp: parse_string_list_def Let_def dest!: parse_members_printable split: if_split_asm)

lemma parse_string_list_sf:
  assumes "list_all (list_all sf_chr) ms"
  shows "parse_string_list (sf_list ms) = Some ms"
proof (cases ms)
  case Nil
  then show ?thesis by (simp add: parse_string_list_def skip_sp_def take_while_def)
next
  case (Cons m ms')
  with sf_list_start [of ms] obtain rest where rest: "sf_list ms = CHR 0x22 # rest" by blast
  with parse_members_sf [of ms "[]"] assms Cons show ?thesis by (simp add: parse_string_list_def)
qed

lemma sf_list_printable: "list_all (list_all sf_chr) ms \<Longrightarrow> list_all sf_chr (sf_list ms)"
proof (induction ms rule: sf_list.induct)
  case (2 m)
  then show ?case by (induction m) (auto simp: sf_string_def sf_chr_quoted)
next
  case (3 m m' ms)
  then have "list_all sf_chr (sf_string m)" by (induction m) (auto simp: sf_string_def sf_chr_quoted)
  with 3 show ?case by (simp add: sf_chr_quoted)
qed simp

text \<open>
  C24. What a CONNECT offers has the type the negotiation counts on: the offers the server reads from the
  header's lines are exactly the non-empty lists of printable ASCII strings; such an offer is the same when
  it comes back as one canonical line; and whatever the lines, the server selects trevrpc-1 exactly when
  they offer it, refuses the CONNECT with 400 exactly when they offer other protocols only, and goes on
  without a protocol exactly when they offer none, which is so of a CONNECT without the header.
\<close>

theorem offered_protocols_typed:
  assumes "\<forall>v. list_all sf_chr v \<longrightarrow> to_str v = Some v"
  shows "((\<exists>lines. webtransport_offered_protocols to_str lines = Some offered) \<longleftrightarrow>
      offered \<noteq> [] \<and> list_all (list_all sf_chr) offered) \<and>
    (webtransport_offered_protocols to_str lines = Some offered \<longrightarrow>
      webtransport_offered_protocols to_str [sf_list offered] = Some offered \<and>
      select_webtransport_protocol to_str lines =
        (if WEBTRANSPORT_PROTOCOL \<in> set offered then Inr True else Inl BAD_REQUEST)) \<and>
    (select_webtransport_protocol to_str lines = Inr True \<longleftrightarrow>
      (\<exists>names. webtransport_offered_protocols to_str lines = Some names \<and> ''trevrpc-1'' \<in> set names)) \<and>
    (select_webtransport_protocol to_str lines = Inl 400 \<longleftrightarrow>
      (\<exists>names. webtransport_offered_protocols to_str lines = Some names \<and> ''trevrpc-1'' \<notin> set names)) \<and>
    (select_webtransport_protocol to_str lines = Inr False \<longleftrightarrow>
      webtransport_offered_protocols to_str lines = None) \<and>
    webtransport_offered_protocols to_str [] = None"
proof -
  have typed: "offered \<noteq> [] \<and> list_all (list_all sf_chr) offered"
    if "webtransport_offered_protocols to_str lines = Some offered" for lines
    using that by (auto simp: webtransport_offered_protocols_def bind_eq_Some_conv
        dest!: parse_string_list_printable split: if_split_asm)
  have canonical: "webtransport_offered_protocols to_str [sf_list offered] = Some offered"
    if "offered \<noteq> []" "list_all (list_all sf_chr) offered"
    using that assms sf_list_printable [OF that(2)] parse_string_list_sf [OF that(2)]
    by (simp add: webtransport_offered_protocols_def)
  have select: "select_webtransport_protocol to_str lines =
      (if WEBTRANSPORT_PROTOCOL \<in> set names then Inr True else Inl BAD_REQUEST)"
    if "webtransport_offered_protocols to_str lines = Some names" for names
    using that by (simp add: select_webtransport_protocol_def list_ex_iff)
  have none: "select_webtransport_protocol to_str lines = Inr False"
    if "webtransport_offered_protocols to_str lines = None"
    using that by (simp add: select_webtransport_protocol_def)
  have table: "(select_webtransport_protocol to_str lines = Inr True \<longleftrightarrow>
      (\<exists>names. webtransport_offered_protocols to_str lines = Some names \<and> ''trevrpc-1'' \<in> set names)) \<and>
    (select_webtransport_protocol to_str lines = Inl 400 \<longleftrightarrow>
      (\<exists>names. webtransport_offered_protocols to_str lines = Some names \<and> ''trevrpc-1'' \<notin> set names)) \<and>
    (select_webtransport_protocol to_str lines = Inr False \<longleftrightarrow>
      webtransport_offered_protocols to_str lines = None)"
    using select none
    by (cases "webtransport_offered_protocols to_str lines")
      (simp_all add: WEBTRANSPORT_PROTOCOL_def BAD_REQUEST_def)
  have "webtransport_offered_protocols to_str [] = None"
    by (simp add: webtransport_offered_protocols_def)
  with typed canonical select [of offered] table show ?thesis by blast
qed

theorem offered_protocols_typed_witness:
  "webtransport_offered_protocols example_to_str [[], sf_string ''trevrpc-2'', sf_string ''trevrpc-1'' @ '';v=2''] =
     Some [''trevrpc-2'', ''trevrpc-1''] \<and>
   webtransport_offered_protocols example_to_str [sf_list [''trevrpc-2'', ''trevrpc-1'']] =
     Some [''trevrpc-2'', ''trevrpc-1''] \<and>
   select_webtransport_protocol example_to_str
     [[], sf_string ''trevrpc-2'', sf_string ''trevrpc-1'' @ '';v=2''] = Inr True \<and>
   select_webtransport_protocol example_to_str [sf_string ''trevrpc-2''] = Inl 400 \<and>
   select_webtransport_protocol example_to_str [] = Inr False"
proof -
  let ?lines = "[[], sf_string ''trevrpc-2'', sf_string ''trevrpc-1'' @ '';v=2'']"
  have offered: "webtransport_offered_protocols example_to_str ?lines = Some [''trevrpc-2'', ''trevrpc-1'']"
    and other: "webtransport_offered_protocols example_to_str [sf_string ''trevrpc-2''] = Some [''trevrpc-2'']"
    by code_simp+
  have ascii: "\<forall>v. list_all sf_chr v \<longrightarrow> example_to_str v = Some v"
    by (auto simp: example_to_str_def list_all_iff)
  show ?thesis
    using offered_protocols_typed [OF ascii, of "[''trevrpc-2'', ''trevrpc-1'']" ?lines] offered
      offered_protocols_typed [OF ascii, of "[''trevrpc-2'']" "[sf_string ''trevrpc-2'']"] other
      offered_protocols_typed [OF ascii, of "[]" "[]"]
    by (simp add: WEBTRANSPORT_PROTOCOL_def BAD_REQUEST_def)
qed

end
