(* ===== verification/Conn_Pool.thy ===== *)
theory Conn_Pool
  imports Rust_Prelude
begin

text \<open>
  The connection pool of \<open>client/pool.rs\<close>, which spreads a channel's calls over several connections. Its
  connections are numbers, and what the QUIC library reports of them at a moment is a parameter. A member
  is shared by the pool, its calls and its watching task, so members live in a store, \<open>pl_members\<close>, and are
  named by their position in it; the first is the generation's own connection.
\<close>

subsection \<open>Members\<close>

definition BUSY_CALLS :: usize where
  "BUSY_CALLS = 2"

definition U64_MAX :: nat where
  "U64_MAX = 2 ^ 64 - 1"

definition u64_saturating_mul :: "nat \<Rightarrow> nat \<Rightarrow> nat" where
  "u64_saturating_mul a b = min (a * b) U64_MAX"

record quinn_stats =
  qs_udp_tx :: "nat \<Rightarrow> nat"
  qs_udp_rx :: "nat \<Rightarrow> nat"
  qs_rtt_micros :: "nat \<Rightarrow> nat"

definition rtt_micros :: "quinn_stats \<Rightarrow> nat \<Rightarrow> nat" where
  "rtt_micros Q connection = min (qs_rtt_micros Q connection) U64_MAX"

definition udp_bytes :: "quinn_stats \<Rightarrow> nat \<Rightarrow> nat" where
  "udp_bytes Q connection = min (qs_udp_tx Q connection + qs_udp_rx Q connection) U64_MAX"

record pool_member =
  mb_transport :: nat
  mb_calls :: usize
  mb_streams :: usize
  mb_used :: bool
  mb_bytes :: nat
  mb_rtt_micros :: nat
  mb_pinned :: bool

definition member_new :: "quinn_stats \<Rightarrow> nat \<Rightarrow> bool \<Rightarrow> pool_member" where
  "member_new Q transport pinned =
     \<lparr>mb_transport = transport, mb_calls = 0, mb_streams = 0, mb_used = False, mb_bytes = udp_bytes Q transport,
      mb_rtt_micros = rtt_micros Q transport, mb_pinned = pinned\<rparr>"

definition member_moved :: "quinn_stats \<Rightarrow> pool_member \<Rightarrow> nat \<times> pool_member" where
  "member_moved Q m =
     (let now = udp_bytes Q (mb_transport m) in
      (now - mb_bytes m, m\<lparr>mb_rtt_micros := rtt_micros Q (mb_transport m), mb_bytes := now\<rparr>))"

definition crowded :: "usize \<Rightarrow> nat \<Rightarrow> nat \<Rightarrow> bool" where
  "crowded calls rtt call_rate \<longleftrightarrow>
     (let rtt = max rtt 1 in
      BUSY_CALLS \<le> calls \<and>
      u64_saturating_mul call_rate rtt \<le> u64_saturating_mul (min calls U64_MAX) 1000000)"

definition member_crowded :: "nat \<Rightarrow> pool_member \<Rightarrow> bool" where
  "member_crowded call_rate m \<longleftrightarrow> crowded (mb_streams m) (mb_rtt_micros m) call_rate"

subsection \<open>Rates\<close>

definition RATE_WINDOW_MILLIS :: nat where
  "RATE_WINDOW_MILLIS = 100"

record load =
  ld_window_start :: nat
  ld_window_calls :: nat
  ld_calls :: nat
  ld_bytes :: nat

record rates =
  rt_calls :: nat
  rt_bytes :: nat

definition load_new :: load where
  "load_new = \<lparr>ld_window_start = 0, ld_window_calls = 0, ld_calls = 0, ld_bytes = 0\<rparr>"

definition per_second :: "nat \<Rightarrow> nat \<Rightarrow> nat" where
  "per_second elapsed cnt = (if elapsed = 0 then 0 else u64_saturating_mul cnt 1000 div elapsed)"

text \<open>\<open>moved\<close> asks the connections for the bytes they moved, which it does once per window.\<close>

definition record_at :: "nat \<Rightarrow> ('p \<Rightarrow> nat \<times> 'p) \<Rightarrow> load \<Rightarrow> 'p \<Rightarrow> rates \<times> load \<times> 'p" where
  "record_at now_millis moved l p =
     (let l = l\<lparr>ld_window_calls := (ld_window_calls l + 1) mod (U64_MAX + 1)\<rparr>;
          now = min now_millis U64_MAX;
          elapsed = now - ld_window_start l;
          (l, p) =
            (if RATE_WINDOW_MILLIS \<le> elapsed
             then (case moved p of
                     (bytes, p) \<Rightarrow>
                       (l\<lparr>ld_window_start := now, ld_window_calls := 0,
                          ld_calls := per_second elapsed (ld_window_calls l),
                          ld_bytes := per_second elapsed bytes\<rparr>, p))
             else (l, p)) in
      (\<lparr>rt_calls = ld_calls l, rt_bytes = ld_bytes l\<rparr>, l, p))"

subsection \<open>The pool\<close>

record pool =
  pl_members :: "pool_member list"
  pl_added :: "nat list"
  pl_max :: usize
  pl_min :: usize
  pl_call_rate :: nat
  pl_byte_rate :: nat
  pl_load :: load
  pl_dialing :: bool
  pl_dial_in_flight :: bool

record dial_config =
  dc_max_quic_connections :: usize
  dc_min_quic_connections :: usize
  dc_quic_call_rate :: nat
  dc_quic_byte_rate :: nat

definition default_max_connections :: "nat option \<Rightarrow> usize" where
  "default_max_connections threads =
     min 4 (max 1 (case threads of None \<Rightarrow> 1 | Some threads \<Rightarrow> threads div 2))"

definition reaches :: "pool \<Rightarrow> rates \<Rightarrow> usize \<Rightarrow> bool" where
  "reaches p r connections \<longleftrightarrow>
     (let connections = min connections U64_MAX in
      u64_saturating_mul (pl_call_rate p) connections \<le> rt_calls r \<or>
      u64_saturating_mul (pl_byte_rate p) connections \<le> rt_bytes r)"

fun moved_of :: "quinn_stats \<Rightarrow> nat list \<Rightarrow> nat \<Rightarrow> pool_member list \<Rightarrow> nat \<times> pool_member list" where
  "moved_of Q [] bytes ms = (bytes, ms)"
| "moved_of Q (i # is) bytes ms =
     (case member_moved Q (ms ! i) of
        (moved, m) \<Rightarrow> moved_of Q is (min (bytes + moved) U64_MAX) (ms[i := m]))"

definition pool_moved :: "quinn_stats \<Rightarrow> pool \<Rightarrow> nat \<times> pool" where
  "pool_moved Q p =
     (case moved_of Q (0 # pl_added p) 0 (pl_members p) of (bytes, ms) \<Rightarrow> (bytes, p\<lparr>pl_members := ms\<rparr>))"

definition pool_record :: "quinn_stats \<Rightarrow> nat \<Rightarrow> pool \<Rightarrow> rates \<times> pool" where
  "pool_record Q now_millis p =
     (case record_at now_millis (pool_moved Q) (pl_load p) p of (r, l, p) \<Rightarrow> (r, p\<lparr>pl_load := l\<rparr>))"

text \<open>Adding a dialed connection: the result tells whether the pool was full and the connection closed.\<close>

definition pool_add :: "quinn_stats \<Rightarrow> nat \<Rightarrow> pool \<Rightarrow> bool \<times> pool" where
  "pool_add Q transport p =
     (let opened = saturating_add (length (pl_added p)) 1 in
      if pl_max p \<le> opened then (True, p)
      else
        (False,
         p\<lparr>pl_members := pl_members p @ [member_new Q transport (opened < pl_min p)],
           pl_added := pl_added p @ [length (pl_members p)]\<rparr>))"

definition pool_new :: "quinn_stats \<Rightarrow> nat \<Rightarrow> dial_config \<Rightarrow> nat list \<Rightarrow> pool" where
  "pool_new Q primary dialer others =
     (let mx = max (dc_max_quic_connections dialer) 1 in
      fold (\<lambda>transport p. snd (pool_add Q transport p)) others
        \<lparr>pl_members = [member_new Q primary True], pl_added = [], pl_max = mx,
         pl_min = min (max (dc_min_quic_connections dialer) 1) mx,
         pl_call_rate = max (dc_quic_call_rate dialer) 1, pl_byte_rate = max (dc_quic_byte_rate dialer) 1,
         pl_load = load_new, pl_dialing = False, pl_dial_in_flight = False\<rparr>)"

definition retire_if_idle :: "nat \<Rightarrow> pool \<Rightarrow> bool \<times> pool" where
  "retire_if_idle i p =
     (if mb_calls (pl_members p ! i) \<noteq> 0 then (False, p)
      else (True, p\<lparr>pl_added := filter (\<lambda>other. other \<noteq> i) (pl_added p)\<rparr>))"

definition pool_remove :: "nat \<Rightarrow> pool \<Rightarrow> pool" where
  "pool_remove i p = p\<lparr>pl_added := filter (\<lambda>other. other \<noteq> i) (pl_added p)\<rparr>"

text \<open>\<open>grow\<close> starts a dial, and its task ends with \<open>dial_ended\<close> and, after a failure, with \<open>dial_retry\<close>.\<close>

definition grow :: "pool \<Rightarrow> pool" where
  "grow p = (if pl_dialing p then p else p\<lparr>pl_dialing := True, pl_dial_in_flight := True\<rparr>)"

definition dial_ended :: "quinn_stats \<Rightarrow> nat option \<Rightarrow> pool \<Rightarrow> pool" where
  "dial_ended Q result p =
     (let p = (case result of Some transport \<Rightarrow> snd (pool_add Q transport p) | None \<Rightarrow> p);
          p = p\<lparr>pl_dial_in_flight := False\<rparr> in
      if result = None then p else p\<lparr>pl_dialing := False\<rparr>)"

definition dial_retry :: "pool \<Rightarrow> pool" where
  "dial_retry p = p\<lparr>pl_dialing := False\<rparr>"

record call_guard =
  cg_member :: nat
  cg_streaming :: bool

text \<open>The counters wrap around as the atomic operations do.\<close>

definition fetch_add_one :: "usize \<Rightarrow> usize" where
  "fetch_add_one n = (n + 1) mod (USIZE_MAX + 1)"

definition fetch_sub_one :: "usize \<Rightarrow> usize" where
  "fetch_sub_one n = (n + USIZE_MAX) mod (USIZE_MAX + 1)"

definition guard_dropped :: "call_guard \<Rightarrow> pool \<Rightarrow> bool \<times> pool" where
  "guard_dropped g p =
     (let i = cg_member g; m = pl_members p ! i;
          m = (if cg_streaming g then m\<lparr>mb_streams := fetch_sub_one (mb_streams m)\<rparr> else m) in
      (mb_calls m = 1, p\<lparr>pl_members := (pl_members p)[i := m\<lparr>mb_calls := fetch_sub_one (mb_calls m)\<rparr>]\<rparr>))"

text \<open>The member a call is placed on, with the calls it had.\<close>

fun least_called :: "pool_member list \<Rightarrow> nat list \<Rightarrow> nat \<times> usize \<Rightarrow> nat \<times> usize" where
  "least_called ms [] chosen = chosen"
| "least_called ms (i # is) (chosen, least) =
     (if mb_calls (ms ! i) < least then least_called ms is (i, mb_calls (ms ! i)) else least_called ms is (chosen, least))"

definition spreads :: "rates \<Rightarrow> pool \<Rightarrow> bool" where
  "spreads r p \<longleftrightarrow> 1 < pl_min p \<or> reaches p r 1 \<or> member_crowded (pl_call_rate p) (pl_members p ! 0)"

text \<open>Counting a call on the member it is placed on.\<close>

definition count_call :: "bool \<Rightarrow> nat \<Rightarrow> pool \<Rightarrow> pool" where
  "count_call streaming i p =
     (let m = pl_members p ! i;
          m = m\<lparr>mb_calls := fetch_add_one (mb_calls m)\<rparr>;
          m = (if streaming then m\<lparr>mb_streams := fetch_add_one (mb_streams m)\<rparr> else m) in
      p\<lparr>pl_members := (pl_members p)[i := m\<lparr>mb_used := True\<rparr>]\<rparr>)"

definition try_pick :: "rates \<Rightarrow> bool \<Rightarrow> bool \<Rightarrow> pool \<Rightarrow> call_guard option \<times> pool" where
  "try_pick r streaming may_wait p =
     (let spread = spreads r p;
          (i, least) = least_called (pl_members p) (if spread then pl_added p else [])
             (0, mb_calls (pl_members p ! 0));
          opened = saturating_add (length (pl_added p)) 1;
          is_crowded = (streaming \<and> spread \<and> opened < pl_max p \<and>
             member_crowded (pl_call_rate p) (pl_members p ! i));
          p = (if is_crowded \<and> may_wait then grow p else p) in
      if is_crowded \<and> may_wait \<and> pl_dial_in_flight p then (None, p)
      else
        (let p = count_call streaming i p;
             busy = (BUSY_CALLS \<le> least \<and> opened < pl_max p \<and> reaches p r opened);
             p = (if opened < pl_min p \<or> busy \<or> is_crowded then grow p else p) in
         (Some \<lparr>cg_member = i, cg_streaming = streaming\<rparr>, p)))"

text \<open>The task that watches an added member: a tick of its idle check, and whether it closed the connection.\<close>

definition idle_check :: "nat \<Rightarrow> pool \<Rightarrow> bool \<times> pool" where
  "idle_check i p =
     (let m = pl_members p ! i; p = p\<lparr>pl_members := (pl_members p)[i := m\<lparr>mb_used := False\<rparr>]\<rparr> in
      if \<not> mb_pinned m \<and> \<not> mb_used m then retire_if_idle i p else (False, p))"

text \<open>Whether the connection of a member whose generation ended may close.\<close>

definition drained :: "nat \<Rightarrow> pool \<Rightarrow> bool" where
  "drained i p \<longleftrightarrow> mb_calls (pl_members p ! i) = 0"

subsection \<open>Specification\<close>

definition calls_on :: "nat \<Rightarrow> call_guard list \<Rightarrow> nat" where
  "calls_on i gs = length (filter (\<lambda>g. cg_member g = i) gs)"

definition streams_on :: "nat \<Rightarrow> call_guard list \<Rightarrow> nat" where
  "streams_on i gs = length (filter (\<lambda>g. cg_member g = i \<and> cg_streaming g) gs)"

text \<open>
  Runs of a pool: calls that start, wait and end, the dials it starts, and the tasks that watch its members.
  \<open>gs\<close> are the guards of the calls in flight, fewer than a counter can count, and \<open>closed\<close> the members whose
  connections the pool closed itself. A member leaves the pool when its connection closes or its generation
  ends, and is then drained.
\<close>

inductive pool_run ::
  "nat \<Rightarrow> dial_config \<Rightarrow> nat list \<Rightarrow> call_guard list \<Rightarrow> nat list \<Rightarrow> pool \<Rightarrow> bool"
  for primary :: nat and dialer :: dial_config and others :: "nat list" where
  started: "pool_run primary dialer others [] [] (pool_new Q primary dialer others)"
| recorded: "pool_run primary dialer others gs closed p \<Longrightarrow>
    pool_run primary dialer others gs closed (snd (pool_record Q now p))"
| picked: "pool_run primary dialer others gs closed p \<Longrightarrow> length gs < USIZE_MAX \<Longrightarrow>
    try_pick r streaming may_wait p = (Some g, p') \<Longrightarrow> pool_run primary dialer others (g # gs) closed p'"
| waited: "pool_run primary dialer others gs closed p \<Longrightarrow> try_pick r streaming may_wait p = (None, p') \<Longrightarrow>
    pool_run primary dialer others gs closed p'"
| dialed: "pool_run primary dialer others gs closed p \<Longrightarrow> pl_dial_in_flight p \<Longrightarrow>
    pool_run primary dialer others gs closed (dial_ended Q result p)"
| retried: "pool_run primary dialer others gs closed p \<Longrightarrow> pl_dialing p \<Longrightarrow> \<not> pl_dial_in_flight p \<Longrightarrow>
    pool_run primary dialer others gs closed (dial_retry p)"
| call_ended: "pool_run primary dialer others (gs @ g # gs') closed p \<Longrightarrow>
    pool_run primary dialer others (gs @ gs') closed (snd (guard_dropped g p))"
| checked: "pool_run primary dialer others gs closed p \<Longrightarrow> i \<in> set (pl_added p) \<Longrightarrow>
    idle_check i p = (idle, p') \<Longrightarrow> pool_run primary dialer others gs (if idle then i # closed else closed) p'"
| removed: "pool_run primary dialer others gs closed p \<Longrightarrow> i \<in> set (pl_added p) \<Longrightarrow>
    pool_run primary dialer others gs closed (pool_remove i p)"
| drained: "pool_run primary dialer others gs closed p \<Longrightarrow> 0 < i \<Longrightarrow> i < length (pl_members p) \<Longrightarrow>
    i \<notin> set (pl_added p) \<Longrightarrow> drained i p \<Longrightarrow> pool_run primary dialer others gs (i # closed) p"

definition tallies :: "pool_member list \<Rightarrow> (nat \<times> nat) list" where
  "tallies ms = map (\<lambda>m. (mb_calls m, mb_streams m)) ms"

definition counted :: "call_guard list \<Rightarrow> pool_member list \<Rightarrow> bool" where
  "counted gs ms \<longleftrightarrow> tallies ms = map (\<lambda>i. (calls_on i gs, streams_on i gs)) [0..<length ms] \<and>
     (\<forall>g \<in> set gs. cg_member g < length ms) \<and> length gs \<le> USIZE_MAX"

definition pool_open :: "nat \<Rightarrow> pool \<Rightarrow> bool" where
  "pool_open mx p \<longleftrightarrow> pl_max p = mx \<and> Suc (length (pl_added p)) \<le> mx \<and> distinct (pl_added p) \<and>
     pl_members p \<noteq> [] \<and> (\<forall>i \<in> set (pl_added p). 0 < i \<and> i < length (pl_members p))"

definition pool_inv :: "nat \<Rightarrow> call_guard list \<Rightarrow> nat list \<Rightarrow> pool \<Rightarrow> bool" where
  "pool_inv mx gs closed p \<longleftrightarrow> pool_open mx p \<and> counted gs (pl_members p) \<and>
     (\<forall>i \<in> set closed. 0 < i \<and> i < length (pl_members p) \<and> i \<notin> set (pl_added p) \<and> calls_on i gs = 0)"

definition picked_member :: "rates \<Rightarrow> pool \<Rightarrow> nat" where
  "picked_member r p = fst (least_called (pl_members p) (if spreads r p then pl_added p else [])
     (0, mb_calls (pl_members p ! 0)))"

definition example_stats :: quinn_stats where
  "example_stats = \<lparr>qs_udp_tx = (\<lambda>_. 0), qs_udp_rx = (\<lambda>_. 0), qs_rtt_micros = (\<lambda>_. 100)\<rparr>"

definition example_dialer :: dial_config where
  "example_dialer = \<lparr>dc_max_quic_connections = 2, dc_min_quic_connections = 1, dc_quic_call_rate = 5,
     dc_quic_byte_rate = 100\<rparr>"

subsection \<open>Properties\<close>

lemma calls_on_simps [simp]:
  "calls_on i [] = 0" "streams_on i [] = 0"
  "calls_on i (g # gs) = (if cg_member g = i then 1 else 0) + calls_on i gs"
  "streams_on i (g # gs) = (if cg_member g = i \<and> cg_streaming g then 1 else 0) + streams_on i gs"
  "calls_on i (gs @ gs') = calls_on i gs + calls_on i gs'"
  "streams_on i (gs @ gs') = streams_on i gs + streams_on i gs'"
  by (simp_all add: calls_on_def streams_on_def)

lemma calls_on_le: "calls_on i gs \<le> length gs" "streams_on i gs \<le> length gs"
  by (simp_all add: calls_on_def streams_on_def)

lemma calls_on_unused: "\<forall>g \<in> set gs. cg_member g < n \<Longrightarrow> calls_on n gs = 0 \<and> streams_on n gs = 0"
  by (auto simp: calls_on_def streams_on_def filter_empty_conv)

lemma tallies_nth [simp]: "i < length ms \<Longrightarrow> tallies ms ! i = (mb_calls (ms ! i), mb_streams (ms ! i))"
  by (simp add: tallies_def)

lemma tallies_length [simp]: "length (tallies ms) = length ms"
  by (simp add: tallies_def)

lemma tallies_update: "tallies (ms[i := m]) = (tallies ms)[i := (mb_calls m, mb_streams m)]"
  by (simp add: tallies_def map_update)

lemma tallies_keep:
  "mb_calls m = mb_calls (ms ! i) \<Longrightarrow> mb_streams m = mb_streams (ms ! i) \<Longrightarrow> tallies (ms[i := m]) = tallies ms"
  by (cases "i < length ms") (simp_all add: tallies_update list_update_same_conv list_update_beyond)

lemma counted_nth:
  "counted gs ms \<Longrightarrow> i < length ms \<Longrightarrow> mb_calls (ms ! i) = calls_on i gs \<and> mb_streams (ms ! i) = streams_on i gs"
proof -
  assume "counted gs ms" and i: "i < length ms"
  then have "tallies ms ! i = (calls_on i gs, streams_on i gs)" unfolding counted_def by (simp del: tallies_nth)
  with i show ?thesis by simp
qed

lemma counted_tallies: "tallies ms' = tallies ms \<Longrightarrow> counted gs ms' = counted gs ms"
  using tallies_length [of ms] tallies_length [of ms'] by (simp add: counted_def del: tallies_length)

lemma countedI:
  assumes "\<And>i. i < length ms \<Longrightarrow> mb_calls (ms ! i) = calls_on i gs \<and> mb_streams (ms ! i) = streams_on i gs"
    and "\<forall>g \<in> set gs. cg_member g < length ms" "length gs \<le> USIZE_MAX"
  shows "counted gs ms"
  using assms by (auto simp: counted_def intro!: nth_equalityI)

lemma fetch_one: "n < USIZE_MAX \<Longrightarrow> fetch_add_one n = n + 1" "n \<le> USIZE_MAX \<Longrightarrow> 0 < n \<Longrightarrow> fetch_sub_one n = n - 1"
proof -
  assume "n \<le> USIZE_MAX" "0 < n"
  then have "n + USIZE_MAX = (n - 1) + (USIZE_MAX + 1)" "n - 1 < USIZE_MAX + 1" by simp_all
  then show "fetch_sub_one n = n - 1" unfolding fetch_sub_one_def by (simp only: mod_add_self2 mod_less)
qed (simp add: fetch_add_one_def)

lemma moved_of_tallies: "tallies (snd (moved_of Q is bytes ms)) = tallies ms"
  by (induction Q "is" bytes ms rule: moved_of.induct)
    (auto simp: member_moved_def Let_def tallies_keep split: prod.splits)

lemma pool_record_members:
  "tallies (pl_members (snd (pool_record Q now p))) = tallies (pl_members p)"
  "pl_added (snd (pool_record Q now p)) = pl_added p" "pl_max (snd (pool_record Q now p)) = pl_max p"
  using moved_of_tallies [of Q "0 # pl_added p" 0 "pl_members p"]
  by (auto simp: pool_record_def record_at_def pool_moved_def Let_def split: prod.splits)

lemma pool_inv_cong:
  assumes "tallies (pl_members p') = tallies (pl_members p)" "pl_added p' = pl_added p" "pl_max p' = pl_max p"
  shows "pool_inv mx gs closed p' = pool_inv mx gs closed p"
proof -
  have "length (pl_members p') = length (pl_members p)" 
    using tallies_length [of "pl_members p'"] tallies_length [of "pl_members p"] assms(1) by (simp del: tallies_length)
  then show ?thesis using assms counted_tallies [OF assms(1)] by (auto simp: pool_inv_def pool_open_def)
qed

lemma grow_simps [simp]:
  "pl_members (grow p) = pl_members p" "pl_added (grow p) = pl_added p" "pl_max (grow p) = pl_max p"
  by (simp_all add: grow_def)

lemma least_called_chosen: "fst (least_called ms is chosen) \<in> set is \<union> {fst chosen}"
  by (induction ms "is" chosen rule: least_called.induct) auto

lemma least_called_least:
  "snd chosen = mb_calls (ms ! fst chosen) \<Longrightarrow>
   snd (least_called ms is chosen) = mb_calls (ms ! fst (least_called ms is chosen)) \<and>
   snd (least_called ms is chosen) \<le> snd chosen \<and> (\<forall>j \<in> set is. snd (least_called ms is chosen) \<le> mb_calls (ms ! j))"
  by (induction ms "is" chosen rule: least_called.induct) fastforce+

lemma picked_member_open: "picked_member r p \<in> set (0 # pl_added p)"
  using least_called_chosen [of "pl_members p" "if spreads r p then pl_added p else []" "(0, mb_calls (pl_members p ! 0))"]
  by (auto simp: picked_member_def split: if_split_asm)

lemma picked_member_least:
  "if spreads r p then \<forall>j \<in> set (0 # pl_added p). mb_calls (pl_members p ! picked_member r p) \<le> mb_calls (pl_members p ! j)
   else picked_member r p = 0"
  using least_called_least [of "(0, mb_calls (pl_members p ! 0))" "pl_members p" "pl_added p"]
  by (auto simp: picked_member_def)

lemma try_pick_cases:
  assumes "try_pick r streaming may_wait p = (picked, p')"
  obtains (waits) "picked = None" "p' = grow p"
  | (picks) q where "picked = Some \<lparr>cg_member = picked_member r p, cg_streaming = streaming\<rparr>"
      "q = p \<or> q = grow p" "p' = count_call streaming (picked_member r p) q \<or>
         p' = grow (count_call streaming (picked_member r p) q)"
proof -
  obtain i least where i: "least_called (pl_members p) (if spreads r p then pl_added p else [])
      (0, mb_calls (pl_members p ! 0)) = (i, least)" by (rule prod.exhaust)
  then have picked: "picked_member r p = i" by (simp add: picked_member_def)
  define c where "c \<longleftrightarrow> streaming \<and> spreads r p \<and> saturating_add (length (pl_added p)) 1 < pl_max p \<and>
      member_crowded (pl_call_rate p) (pl_members p ! i)"
  define q where "q = (if c \<and> may_wait then grow p else p)"
  note unfolded = assms [unfolded try_pick_def i Let_def prod.case, folded c_def, folded q_def]
  show thesis
  proof (cases "c \<and> may_wait \<and> pl_dial_in_flight q")
    case True
    with unfolded have "picked = None" "p' = grow p" by (auto simp: q_def)
    then show thesis by (rule waits)
  next
    case False
    show thesis
    proof (rule picks [of q])
      show "q = p \<or> q = grow p" by (simp add: q_def)
    qed (use unfolded False in \<open>auto simp: picked split: if_split_asm\<close>)
  qed
qed

lemma count_call_simps:
  "pl_added (count_call streaming i p) = pl_added p" "pl_max (count_call streaming i p) = pl_max p"
  "tallies (pl_members (count_call streaming i p)) = (tallies (pl_members p))[i :=
     (fetch_add_one (mb_calls (pl_members p ! i)),
      if streaming then fetch_add_one (mb_streams (pl_members p ! i)) else mb_streams (pl_members p ! i))]"
  by (simp_all add: count_call_def Let_def tallies_update)

lemma counted_update:
  assumes "counted gs ms" "i < length ms" "tallies ms' = (tallies ms)[i := (a, b)]"
    and "a = calls_on i gs'" "b = streams_on i gs'"
    and "\<And>j. j \<noteq> i \<Longrightarrow> calls_on j gs' = calls_on j gs \<and> streams_on j gs' = streams_on j gs"
    and "\<forall>g \<in> set gs'. cg_member g < length ms" "length gs' \<le> USIZE_MAX"
  shows "counted gs' ms'"
proof (rule countedI)
  have len: "length ms' = length ms" using arg_cong [OF assms(3), of length] by simp
  show "mb_calls (ms' ! j) = calls_on j gs' \<and> mb_streams (ms' ! j) = streams_on j gs'" if "j < length ms'" for j
  proof -
    have "(mb_calls (ms' ! j), mb_streams (ms' ! j)) = (tallies ms)[i := (a, b)] ! j"
      using that assms(3) by (simp flip: tallies_nth)
    also have "\<dots> = (calls_on j gs', streams_on j gs')"
      using that len assms(2,4-6) counted_nth [OF assms(1), of j] by (simp add: nth_list_update)
    finally show ?thesis by simp
  qed
  show "\<forall>g \<in> set gs'. cg_member g < length ms'" "length gs' \<le> USIZE_MAX" using assms(7,8) len by simp_all
qed

lemma picked_kept:
  assumes "pool_inv mx gs closed p" "length gs < USIZE_MAX" "try_pick r streaming may_wait p = (Some g, p')"
  shows "pool_inv mx (g # gs) closed p'"
  using assms(3)
proof (cases rule: try_pick_cases)
  case waits
  then show ?thesis by simp
next
  case (picks q)
  let ?i = "picked_member r p"
  have i: "?i < length (pl_members p)" "?i \<notin> set closed" and counted: "counted gs (pl_members p)"
    using assms(1) picked_member_open [of r p] by (auto simp: pool_inv_def pool_open_def)
  have q: "pl_members q = pl_members p" "pl_added q = pl_added p" "pl_max q = pl_max p" using picks(2) by auto
  have p': "pl_added p' = pl_added p" "pl_max p' = pl_max p"
    "tallies (pl_members p') = (tallies (pl_members p))[?i := (fetch_add_one (mb_calls (pl_members p ! ?i)),
       if streaming then fetch_add_one (mb_streams (pl_members p ! ?i)) else mb_streams (pl_members p ! ?i))]"
    using picks(3) q by (auto simp: count_call_simps)
  have len: "length (pl_members p') = length (pl_members p)" using arg_cong [OF p'(3), of length] by simp
  have "calls_on ?i gs < USIZE_MAX" "streams_on ?i gs < USIZE_MAX"
    using calls_on_le [of ?i gs] assms(2) by linarith+
  then have "counted (g # gs) (pl_members p')"
    using counted_nth [OF counted i(1)] i(1) picks(1) assms(2) counted
    by (intro counted_update [OF counted i(1) p'(3)]) (auto simp: fetch_one counted_def)
  moreover have "pool_open mx p'" using assms(1) p' len by (auto simp: pool_inv_def pool_open_def)
  ultimately show ?thesis using assms(1) i(2) p' len picks(1) by (auto simp: pool_inv_def)
qed

lemma ended_guard_kept:
  assumes "pool_inv mx (gs @ g # gs') closed p"
  shows "pool_inv mx (gs @ gs') closed (snd (guard_dropped g p))"
proof -
  let ?i = "cg_member g" let ?m = "pl_members p ! cg_member g"
  have counted: "counted (gs @ g # gs') (pl_members p)" using assms by (simp add: pool_inv_def)
  then have i: "?i < length (pl_members p)" by (simp add: counted_def)
  note counts = counted_nth [OF counted i]
  have bound: "calls_on ?i (gs @ g # gs') \<le> USIZE_MAX" "streams_on ?i (gs @ g # gs') \<le> USIZE_MAX"
    using calls_on_le [of ?i "gs @ g # gs'"] counted by (simp_all add: counted_def)
  have "counted (gs @ gs') (pl_members (snd (guard_dropped g p)))"
  proof (rule counted_update [OF counted i])
    show "tallies (pl_members (snd (guard_dropped g p))) = (tallies (pl_members p))[?i := (fetch_sub_one (mb_calls ?m),
        if cg_streaming g then fetch_sub_one (mb_streams ?m) else mb_streams ?m)]"
      by (simp add: guard_dropped_def Let_def tallies_update)
    show "fetch_sub_one (mb_calls ?m) = calls_on ?i (gs @ gs')" using counts bound by (simp add: fetch_one(2))
    show "(if cg_streaming g then fetch_sub_one (mb_streams ?m) else mb_streams ?m) = streams_on ?i (gs @ gs')"
      using counts bound by (cases "cg_streaming g") (simp_all add: fetch_one(2))
  qed (use counted in \<open>auto simp: counted_def\<close>)
  with assms show ?thesis by (auto simp: pool_inv_def pool_open_def guard_dropped_def Let_def)
qed

lemma pool_add_open:
  assumes "pool_open mx p" "mx \<le> USIZE_MAX"
  shows "pool_open mx (snd (pool_add Q transport p))"
  using assms
  by (auto simp: pool_open_def pool_add_def Let_def saturating_add_def)

lemma pool_add_kept:
  assumes "pool_inv mx gs closed p" "mx \<le> USIZE_MAX"
  shows "pool_inv mx gs closed (snd (pool_add Q transport p))"
proof (cases "pl_max p \<le> saturating_add (length (pl_added p)) 1")
  case True
  with assms show ?thesis by (simp add: pool_add_def)
next
  case False
  let ?n = "length (pl_members p)"
  have counted: "counted gs (pl_members p)" using assms(1) by (simp add: pool_inv_def)
  then have new: "calls_on ?n gs = 0 \<and> streams_on ?n gs = 0" by (intro calls_on_unused) (simp add: counted_def)
  have "counted gs (pl_members p @ [member_new Q transport (saturating_add (length (pl_added p)) 1 < pl_min p)])"
    using counted new by (simp add: counted_def tallies_def member_new_def less_Suc_eq)
  with assms pool_add_open [of mx p Q transport] False show ?thesis
    by (auto simp: pool_inv_def pool_add_def Let_def)
qed

lemma pool_new_kept:
  assumes "dc_max_quic_connections dialer \<le> USIZE_MAX"
  shows "pool_inv (max (dc_max_quic_connections dialer) 1) [] [] (pool_new Q primary dialer others)"
proof -
  let ?mx = "max (dc_max_quic_connections dialer) 1"
  have limit: "?mx \<le> USIZE_MAX" using assms by (simp add: USIZE_MAX_def)
  have fold: "pool_inv ?mx [] [] (fold (\<lambda>transport p. snd (pool_add Q transport p)) ts p)" if "pool_inv ?mx [] [] p" for ts p
    using that pool_add_kept [OF _ limit] by (induction ts arbitrary: p) simp_all
  show ?thesis
    unfolding pool_new_def Let_def
    by (rule fold) (simp add: pool_inv_def pool_open_def counted_def tallies_def member_new_def)
qed

lemma pool_remove_kept:
  assumes "pool_inv mx gs closed p"
  shows "pool_inv mx gs closed (pool_remove i p)"
proof -
  have "Suc (length (filter (\<lambda>other. other \<noteq> i) (pl_added p))) \<le> mx"
    using assms length_filter_le [of "\<lambda>other. other \<noteq> i" "pl_added p"] unfolding pool_inv_def pool_open_def by linarith
  with assms show ?thesis by (auto simp: pool_inv_def pool_open_def pool_remove_def)
qed

lemma idle_check_kept:
  assumes "pool_inv mx gs closed p" "i \<in> set (pl_added p)" "idle_check i p = (idle, p')"
  shows "pool_inv mx gs (if idle then i # closed else closed) p'"
proof -
  define p1 where "p1 = p\<lparr>pl_members := (pl_members p)[i := (pl_members p ! i)\<lparr>mb_used := False\<rparr>]\<rparr>"
  have inv: "pool_inv mx gs closed p1"
    using assms(1) pool_inv_cong [of p1 p] by (simp add: p1_def tallies_keep)
  have i: "0 < i" "i < length (pl_members p)" "mb_calls (pl_members p1 ! i) = calls_on i gs"
    using assms(1,2) inv counted_nth [of gs "pl_members p1" i] by (auto simp: pool_inv_def pool_open_def p1_def)
  have "idle_check i p = (if \<not> mb_pinned (pl_members p ! i) \<and> \<not> mb_used (pl_members p ! i) then retire_if_idle i p1 else (False, p1))"
    by (simp add: idle_check_def p1_def Let_def)
  with assms(3) consider "idle" "p' = pool_remove i p1" "calls_on i gs = 0"
    | "\<not> idle" "p' = p1"
    using i(3) by (auto simp: retire_if_idle_def pool_remove_def split: if_split_asm)
  then show ?thesis
  proof cases
    case 1
    with pool_remove_kept [OF inv, of i] i show ?thesis by (auto simp: pool_inv_def pool_remove_def p1_def)
  qed (use inv in simp)
qed

lemma pool_run_inv:
  assumes "pool_run primary dialer others gs closed p" "dc_max_quic_connections dialer \<le> USIZE_MAX"
  shows "pool_inv (max (dc_max_quic_connections dialer) 1) gs closed p"
  using assms(1)
proof (induction rule: pool_run.induct)
  case (started Q)
  show ?case by (rule pool_new_kept [OF assms(2)])
next
  case (recorded gs closed p Q now)
  then show ?case using pool_inv_cong [OF pool_record_members] by simp
next
  case (picked gs closed p r streaming may_wait g p')
  from picked_kept [OF picked.IH picked.hyps(2,3)] show ?case .
next
  case (waited gs closed p r streaming may_wait p')
  from waited.hyps(2) have "p' = grow p" by (cases rule: try_pick_cases) simp_all
  then show ?case using waited.IH pool_inv_cong [of p' p] by simp
next
  case (dialed gs closed p Q result)
  have "pool_inv (max (dc_max_quic_connections dialer) 1) gs closed
      (case result of Some transport \<Rightarrow> snd (pool_add Q transport p) | None \<Rightarrow> p)"
    using dialed.IH assms(2) by (auto intro!: pool_add_kept simp: USIZE_MAX_def split: option.splits)
  then show ?case
    using pool_inv_cong [of "dial_ended Q result p" "case result of Some transport \<Rightarrow> snd (pool_add Q transport p) | None \<Rightarrow> p"]
    by (simp add: dial_ended_def Let_def)
next
  case (retried gs closed p)
  then show ?case using pool_inv_cong [of "dial_retry p" p] by (simp add: dial_retry_def)
next
  case (call_ended gs g gs' closed p)
  from ended_guard_kept [OF call_ended.IH] show ?case .
next
  case (checked gs closed p i idle p')
  from idle_check_kept [OF checked.IH checked.hyps(2,3)] show ?case .
next
  case (removed gs closed p i)
  from pool_remove_kept [OF removed.IH] show ?case .
next
  case (drained gs closed p i)
  then have "calls_on i gs = 0" using counted_nth [of gs "pl_members p" i] by (simp add: pool_inv_def drained_def)
  with drained show ?case by (simp add: pool_inv_def)
qed



end
