(* ===== verification/Spec2Isabelle.thy ===== *)
theory Spec2Isabelle
  imports Response_Metadata Merged_Streams Request_Pump Call_End Structured_Fields Conn_Pool
begin

text \<open>
  A verification of the protocol core of TrevRPC's Rust runtime (\<open>trevrpc-rust/src\<close>), the library that
  carries RPC calls over streams and datagrams of a QUIC, HTTP or WebSocket connection.

  \<^bold>\<open>The program.\<close> A call is one stream. The client writes a REQUEST frame and MESSAGE frames, the
  server answers with an optional ANSWER, HEADERS, MESSAGE and STATUS frames. A frame is a type, a
  length (\<open>varint.rs\<close>, \<open>framing.rs\<close>) and a payload, often a protobuf message (\<open>wire.rs\<close>,
  \<open>status.rs\<close>). \<open>framed.rs\<close> reads and writes frames over any byte stream. Messages may be compressed one
  by one with negotiated dictionaries (\<open>compression.rs\<close>) or as a stream (\<open>compression/stream.rs\<close>), and
  may travel as datagrams (\<open>datagram.rs\<close>) beside the stream. The client checks the order of response
  frames (\<open>response_state.rs\<close>), keeps the requests of a call it started optimistically until the server
  decides (\<open>client/replay.rs\<close>), sends its connection metadata once (\<open>connection_metadata.rs\<close>), and reads
  ahead so that its sends learn how the call ended (\<open>client/call_end.rs\<close>). A pool spreads its calls over
  connections (\<open>client/pool.rs\<close>). The server pumps requests to its handlers (\<open>request_pump.rs\<close>). Tasks
  pass messages through bounded queues (\<open>queue.rs\<close>).

  \<^bold>\<open>The theories.\<close>
  \<^item> \<open>Rust_Prelude\<close>: machine integers (\<open>u8\<close> to \<open>u64\<close> as words, \<open>usize\<close> as \<open>nat\<close> below \<open>2 ^ 64\<close> with the
    saturating and checked operations written out), slices, \<open>Result\<close> as a sum (\<open>Inl\<close> is \<open>Err\<close>).
  \<^item> \<open>Rpc_Status\<close>, \<open>Wire\<close>, \<open>Varint\<close>, \<open>Framing\<close>: \<open>status.rs\<close> and \<open>error.rs\<close>, \<open>wire.rs\<close>, \<open>varint.rs\<close>,
    \<open>framing.rs\<close>. Round trips of statuses and integers, the exact sets of accepted metadata, method
    paths and protobuf payloads; the preflight terminates and agrees with a grammar of the wire format.
  \<^item> \<open>Byte_Reader\<close>, \<open>Reader_Laws\<close>, \<open>Stream_Readers\<close>: the reading half of \<open>framed.rs\<close> below the protocol.
    A reader computation takes the state of the reader and returns a result and a new state, or \<open>None\<close> if
    it never returns. The locales \<open>byte_reader\<close>, \<open>frame_reader\<close>, \<open>chunks_of_stream\<close> and \<open>chunked_stream\<close>
    state what the traits \<open>FrameRead\<close> and \<open>ChunkSource\<close> promise; inside them every reading function is
    proved to return and to compute a function of the stream's content alone.
  \<^item> \<open>Frame_Writers\<close>, \<open>Framed_Calls\<close>: the rest of \<open>framed.rs\<close>. The locales \<open>frame_write\<close>, \<open>body_sink\<close> and
    \<open>frame_writer\<close> state what a send stream promises. What the writers write the readers read back, on
    both halves of a call, and frames out of place are refused with the right error.
  \<^item> \<open>Response_State\<close>, \<open>Response_Metadata\<close>: \<open>response_state.rs\<close> and \<open>response.rs\<close>. The state machine
    accepts exactly its grammar; what a handler sets the client accepts.
  \<^item> \<open>Msg_Queue\<close>: \<open>queue.rs\<close>, under every interleaving of producers and the consumer: order, bounds and no
    lost wake-up.
  \<^item> \<open>Compression\<close>, \<open>Negotiation\<close>, \<open>Stream_Compression\<close>: \<open>compression.rs\<close> and \<open>compression/stream.rs\<close>.
    The frame headers that are accepted, bounds on what is decompressed, agreement on dictionaries after
    any exchange of answers, conservation of the memory budget.
  \<^item> \<open>Datagram\<close>, \<open>Datagram_Demux\<close>, \<open>Merged_Streams\<close>: \<open>datagram.rs\<close> and \<open>wake_gate.rs\<close>. What a batch sends,
    the demultiplexer's bounds and the isolation of its flows, the order of merged streams.
  \<^item> \<open>Connection_Metadata\<close>, \<open>Replay\<close>: \<open>connection_metadata.rs\<close> and \<open>client/replay.rs\<close>. Connection
    metadata is what the channel had set, however answers are delayed or lost; a refused optimistic call
    replays exactly the caller's requests.
  \<^item> \<open>Request_Pump\<close>: \<open>request_pump.rs\<close>, \<open>latest.rs\<close> and the request budget of \<open>server.rs\<close>. The task that moves
    a call's requests from the stream to the handler is a state machine (\<open>pump_phase\<close>) with one definition
    per branch of each \<open>select!\<close>; \<open>pump_run\<close> interleaves it with the handler and with the settling of the
    call. The fate of the stream and the limits hold in every run, and what a client wrote reaches the
    handler, from \<open>write_request_stream\<close> over the reader and the pump to the queue.
  \<^item> \<open>Call_End\<close>: \<open>client/call_end.rs\<close>. The task that reads a streaming call's response ahead of the caller:
    nothing is lost, its buffers are bounded, and sends learn the terminal status first.
  \<^item> \<open>Conn_Pool\<close>: \<open>client/pool.rs\<close>. Members shared by the pool, its calls and its watching tasks live in a
    store; in every interleaving the limit and the counters hold and no connection closes under a call.
  \<^item> \<open>Structured_Fields\<close>: \<open>structured_fields.rs\<close> and the protocol selection of \<open>http3.rs\<close>. What is parsed
    is exactly a list of printable strings.

  \<^bold>\<open>How it is modelled.\<close> A struct is a record, an enum a datatype, a function or method a definition with
  the state it changes passed through; a \<open>HashMap\<close> is an association list, a string a list of
  characters, an error message its literal text with the \<open>{}\<close> of its format kept. A future is its poll
  function, a waker a number, and a stream outside the model the list of the results of its future polls.
  State under a lock is changed one operation at a time, and the inductive run relations (\<open>queue_run\<close>,
  \<open>demux_run\<close>, \<open>replay_run\<close>, \<open>cm_run\<close>, \<open>pump_run\<close>, \<open>ahead_run\<close>, \<open>pool_run\<close> and the others)
  interleave the operations in every order. Instants are \<open>nat\<close> nanoseconds, or milliseconds where the source
  has them. Code of other packages is a parameter: the zstd library
  (\<open>zstd_lib\<close> and \<open>stream_lib\<close>), the protobuf codec (\<open>protobuf\<close>), the transports (readers, writers and what
  they answer), with what the runtime relies on as locale assumptions or named hypotheses.

  \<^bold>\<open>Bounds and fuel.\<close> There is no fuel. Loops over a reader are partial functions into \<open>option\<close>; that
  they return is proved, by induction on the content of the stream and on the rank with which a reader
  that returns no bytes must decrease. That compressing returns is proved from the progress the zstd
  library promises. Only \<open>discard_buffered\<close>, which polls without waiting, has no such proof. The other
  loops terminate structurally or by a measure. Limits are the constants of the source.

  \<^bold>\<open>Not modelled.\<close> The transports (\<open>quic.rs\<close>, \<open>udp.rs\<close>, \<open>tcp.rs\<close>, \<open>http1.rs\<close>, \<open>http2.rs\<close>, \<open>http3.rs\<close>,
  \<open>websocket.rs\<close>, \<open>qmux_conn.rs\<close>, \<open>mux.rs\<close>, \<open>native.rs\<close>, \<open>fallback.rs\<close>, \<open>serve.rs\<close>) drive the libraries
  quinn, h2, h3, hyper and rustls and have little state of their own; of \<open>http3.rs\<close> only the selection of
  the protocol is modelled. The task structure of \<open>server.rs\<close>, \<open>server_transport.rs\<close>, \<open>client.rs\<close>,
  \<open>client/call.rs\<close>, \<open>client/channel.rs\<close> and \<open>client/upload.rs\<close> (spawning, timers, interceptors, metrics) is
  not modelled, nor are the waits on tokio's watch channels and timers in \<open>request_pump.rs\<close>, dialing and
  name resolution (\<open>client/race.rs\<close>, \<open>client/resolve.rs\<close>), the PROXY protocol header
  (\<open>proxy_protocol.rs\<close>), HTTP admission, congestion control, certificates, the code generators, the
  benchmark and interoperability programs and the Go, JavaScript and Kotlin runtimes.
\<close>

end
